(* ===== verification/Prelude.thy ===== *)
theory Prelude
  imports Main "HOL-Library.Word" "HOL-Library.List_Lexorder" "HOL-Library.Product_Lexorder" "HOL-Library.AList"
begin

text \<open>
  The vocabulary every component of the development shares: the machine integers and byte
  strings of the Rust sources, the \<open>Result\<close> type with its \<open>?\<close> operator, big-endian
  integer encoding, the two standard maps (\<open>HashMap\<close>, \<open>BTreeMap\<close>), and the wire-codec
  interface that the encoders and decoders of the components implement.
\<close>

section \<open>Named fact collections\<close>

named_theorems wire_simps \<open>evaluation rules of readers on encoded input\<close>
named_theorems wire_iff \<open>exact characterisations of readers\<close>
named_theorems word_nat \<open>transfer between words and natural numbers\<close>

section \<open>Machine integers and byte strings\<close>

type_synonym u8 = "8 word"
type_synonym u16 = "16 word"
type_synonym u32 = "32 word"
type_synonym u64 = "64 word"
type_synonym u128 = "128 word"
type_synonym bytes = "u8 list"
  \<comment> \<open>\<open>Vec<u8>\<close>, \<open>&[u8]\<close>, \<open>String\<close> (its UTF-8 bytes) and the arrays \<open>[u8; N]\<close>\<close>

definition ascii :: "string \<Rightarrow> bytes" where
  "ascii s = map of_char s"

lemma length_ascii [simp]: "length (ascii s) = length s"
  by (simp add: ascii_def)

section \<open>Results and the question-mark operator\<close>

text \<open>A fallible Rust computation is a sum: \<open>Inl\<close> the error, \<open>Inr\<close> the value.\<close>

definition andThen :: "'e + 'a \<Rightarrow> ('a \<Rightarrow> 'e + 'b) \<Rightarrow> 'e + 'b" where
  "andThen r f = (case r of Inl e \<Rightarrow> Inl e | Inr x \<Rightarrow> f x)"

definition ensure :: "bool \<Rightarrow> 'e \<Rightarrow> 'e + unit" where
  "ensure b e = (if b then Inr () else Inl e)"

definition ok_or :: "'a option \<Rightarrow> 'e \<Rightarrow> 'e + 'a" where
  "ok_or v e = (case v of None \<Rightarrow> Inl e | Some x \<Rightarrow> Inr x)"

definition map_err :: "('e \<Rightarrow> 'f) \<Rightarrow> 'e + 'a \<Rightarrow> 'f + 'a" where
  "map_err f r = (case r of Inl e \<Rightarrow> Inl (f e) | Inr x \<Rightarrow> Inr x)"

definition is_ok :: "'e + 'a \<Rightarrow> bool" where
  "is_ok r = (case r of Inl _ \<Rightarrow> False | Inr _ \<Rightarrow> True)"

lemma andThen_simps [simp]:
  "andThen (Inl e) f = Inl e"
  "andThen (Inr x) f = f x"
  by (simp_all add: andThen_def)

lemma andThen_eq_Inr [simp]:
  "andThen r f = Inr y \<longleftrightarrow> (\<exists>x. r = Inr x \<and> f x = Inr y)"
  by (cases r) simp_all

lemma andThen_eq_Inl:
  "andThen r f = Inl e \<longleftrightarrow> r = Inl e \<or> (\<exists>x. r = Inr x \<and> f x = Inl e)"
  by (cases r) simp_all

lemma andThen_cong [fundef_cong]:
  "r = r' \<Longrightarrow> (\<And>x. r' = Inr x \<Longrightarrow> f x = g x) \<Longrightarrow> andThen r f = andThen r' g"
  by (cases r') simp_all

lemma ensure_eq_Inr [simp]: "ensure b e = Inr u \<longleftrightarrow> b"
  by (simp add: ensure_def)

lemma ensure_eq_Inl [simp]: "ensure b e = Inl e' \<longleftrightarrow> \<not> b \<and> e' = e"
  by (auto simp add: ensure_def)

lemma ensure_simps [simp]:
  "ensure True e = Inr ()"
  "ensure False e = Inl e"
  by (simp_all add: ensure_def)

lemma ok_or_simps [simp]:
  "ok_or None e = Inl e"
  "ok_or (Some x) e = Inr x"
  by (simp_all add: ok_or_def)

lemma ok_or_eq_Inr [simp]: "ok_or v e = Inr x \<longleftrightarrow> v = Some x"
  by (cases v) simp_all

lemma map_err_simps [simp]:
  "map_err f (Inl e) = Inl (f e)"
  "map_err f (Inr x) = Inr x"
  by (simp_all add: map_err_def)

lemma map_err_eq_Inr [simp]: "map_err f r = Inr x \<longleftrightarrow> r = Inr x"
  by (cases r) simp_all

lemma is_ok_simps [simp]:
  "is_ok (Inl e) = False"
  "is_ok (Inr x) = True"
  by (simp_all add: is_ok_def)

lemma is_ok_iff: "is_ok r \<longleftrightarrow> (\<exists>x. r = Inr x)"
  by (cases r) simp_all

text \<open>Where the code can also panic (\<open>expect\<close>, a failing subtraction, \<open>SigningKey::sign\<close>), \<open>Panic\<close> is that
  outcome and \<open>Fail\<close> a returned error.\<close>

datatype 'e fault = Panic | Fail 'e

section \<open>Big-endian integers\<close>

fun be_enc :: "nat \<Rightarrow> nat \<Rightarrow> bytes" where
  "be_enc 0 n = []"
| "be_enc (Suc k) n = be_enc k (n div 256) @ [of_nat (n mod 256)]"

definition be_dec :: "bytes \<Rightarrow> nat" where
  "be_dec bs = foldl (\<lambda>a b. a * 256 + unat b) 0 bs"

lemma length_be_enc [simp]: "length (be_enc k n) = k"
  by (induction k arbitrary: n) simp_all

lemma be_dec_append1 [simp]: "be_dec (bs @ [b]) = be_dec bs * 256 + unat b"
  by (simp add: be_dec_def)

lemma be_dec_Nil [simp]: "be_dec [] = 0"
  by (simp add: be_dec_def)

lemma unat_byte_lt [simp]: "unat (b :: u8) < 256"
  using unsigned_less [of b, where ?'a = nat] by simp

lemma unat_of_nat_byte [simp]: "unat (of_nat (n mod 256) :: u8) = n mod 256"
  by (simp add: unat_of_nat)

lemma be_dec_enc: "be_dec (be_enc k n) = n mod 256 ^ k"
proof (induction k arbitrary: n)
  case (Suc k)
  have "n mod 256 ^ Suc k = 256 * (n div 256 mod 256 ^ k) + n mod 256"
    by (simp add: mod_mult2_eq)
  with Suc show ?case by simp
qed simp

lemma be_dec_lt: "be_dec bs < 256 ^ length bs"
proof (induction bs rule: rev_induct)
  case (snoc b bs)
  have "be_dec bs * 256 + unat b < (be_dec bs + 1) * 256"
    using unat_byte_lt [of b] by simp
  also have "\<dots> \<le> 256 ^ length bs * 256"
    using snoc by (intro mult_le_mono1) simp
  finally show ?case by simp
qed simp

lemma be_enc_dec: "length bs = k \<Longrightarrow> be_enc k (be_dec bs) = bs"
proof (induction bs arbitrary: k rule: rev_induct)
  case (snoc b bs)
  have "(be_dec bs * 256 + unat b) div 256 = be_dec bs"
    and "(be_dec bs * 256 + unat b) mod 256 = unat b"
    using unat_byte_lt [of b] by simp_all
  with snoc show ?case by (auto simp add: mult.commute [of _ 256])
qed simp

definition to_be32 :: "u32 \<Rightarrow> bytes" where "to_be32 w = be_enc 4 (unat w)"
definition to_be64 :: "u64 \<Rightarrow> bytes" where "to_be64 w = be_enc 8 (unat w)"
definition to_be128 :: "u128 \<Rightarrow> bytes" where "to_be128 w = be_enc 16 (unat w)"
definition from_be32 :: "bytes \<Rightarrow> u32" where "from_be32 bs = of_nat (be_dec bs)"
definition from_be64 :: "bytes \<Rightarrow> u64" where "from_be64 bs = of_nat (be_dec bs)"
definition from_be128 :: "bytes \<Rightarrow> u128" where "from_be128 bs = of_nat (be_dec bs)"

lemma length_to_be [simp]:
  "length (to_be32 w) = 4" "length (to_be64 v) = 8" "length (to_be128 x) = 16"
  by (simp_all add: to_be32_def to_be64_def to_be128_def)

lemma from_to_be [simp]:
  "from_be32 (to_be32 w) = w" "from_be64 (to_be64 v) = v" "from_be128 (to_be128 x) = x"
  using unsigned_less [of w, where ?'a = nat] unsigned_less [of v, where ?'a = nat]
    unsigned_less [of x, where ?'a = nat]
  by (simp_all add: to_be32_def to_be64_def to_be128_def from_be32_def from_be64_def
      from_be128_def be_dec_enc)

lemma to_be_nonempty [simp]: "to_be32 w \<noteq> []" "to_be64 v \<noteq> []" "to_be128 x \<noteq> []"
  using length_to_be by (metis length_0_conv zero_neq_numeral)+

lemma to_be_inject [simp]:
  "to_be32 w = to_be32 w' \<longleftrightarrow> w = w'"
  "to_be64 v = to_be64 v' \<longleftrightarrow> v = v'"
  "to_be128 x = to_be128 x' \<longleftrightarrow> x = x'"
  by (metis from_to_be)+

text \<open>\<open>x.len() as u32\<close>: the truncating cast of a length.\<close>

definition len32 :: "'a list \<Rightarrow> u32" where "len32 xs = of_nat (length xs)"
definition len64 :: "'a list \<Rightarrow> u64" where "len64 xs = of_nat (length xs)"

lemma unat_len32 [simp]: "length xs < 2 ^ 32 \<Longrightarrow> unat (len32 xs) = length xs"
  by (simp add: len32_def unat_of_nat)

lemma unat_len64 [simp]: "length xs < 2 ^ 64 \<Longrightarrow> unat (len64 xs) = length xs"
  by (simp add: len64_def unat_of_nat)

lemma length_eq_len32: "length x = unat (w :: u32) \<longleftrightarrow> length x < 2 ^ 32 \<and> w = len32 x"
proof
  assume "length x = unat w"
  moreover have "unat w < 2 ^ 32" using unsigned_less [of w, where ?'a = nat] by simp
  ultimately show "length x < 2 ^ 32 \<and> w = len32 x" by (simp add: len32_def)
qed simp

lemma len32_inj: "length xs < 2 ^ 32 \<Longrightarrow> length ys < 2 ^ 32 \<Longrightarrow> len32 xs = len32 ys
    \<Longrightarrow> length xs = length ys"
  by (metis unat_len32)

lemma len64_inj: "length xs < 2 ^ 64 \<Longrightarrow> length ys < 2 ^ 64 \<Longrightarrow> len64 xs = len64 ys
    \<Longrightarrow> length xs = length ys"
  by (metis unat_len64)

section \<open>Readers and the wire-codec interface\<close>

text \<open>
  The sources read untrusted bytes through small cursors (\<open>Reader\<close>, \<open>SliceReader\<close>,
  \<open>ClaimReader\<close>): a buffer and a position that only moves forward. The model keeps the
  unread suffix of the buffer, so a reader maps the unread bytes to an error or to the value
  read and the bytes still unread; \<open>finished\<close> is that nothing is left.
\<close>

definition take_n :: "'e \<Rightarrow> nat \<Rightarrow> bytes \<Rightarrow> 'e + bytes \<times> bytes" where
  "take_n e n bs = (if n \<le> length bs then Inr (take n bs, drop n bs) else Inl e)"

lemma take_n_append [simp, wire_simps]:
  "length xs = n \<Longrightarrow> take_n e n (xs @ ys) = Inr (xs, ys)"
  by (simp add: take_n_def)

lemma take_n_exact [simp, wire_simps]: "length xs = n \<Longrightarrow> take_n e n xs = Inr (xs, [])"
  by (simp add: take_n_def)

lemma take_n_eq_Inr: "take_n e n bs = Inr (xs, ys) \<longleftrightarrow> bs = xs @ ys \<and> length xs = n"
  by (auto simp add: take_n_def)

text \<open>\<open>for _ in 0..n\<close> around one read: the values in order.\<close>

fun dec_n :: "(bytes \<Rightarrow> 'e + 'a \<times> bytes) \<Rightarrow> nat \<Rightarrow> bytes \<Rightarrow> 'e + 'a list \<times> bytes" where
  "dec_n d 0 bs = Inr ([], bs)"
| "dec_n d (Suc n) bs =
     andThen (d bs) (\<lambda>(x, bs'). andThen (dec_n d n bs') (\<lambda>(xs, bs''). Inr (x # xs, bs'')))"

lemma dec_n_length: "dec_n d n bs = Inr (xs, r) \<Longrightarrow> length xs = n"
  by (induction n arbitrary: bs xs) (auto simp: split_beta)

text \<open>
  The interface of an encoder and the decoder that reads it back: on the values the format can
  carry, decoding an encoding followed by anything returns the value and leaves the rest. The
  interface gives prefix-freeness, injectivity and the codec of a counted list.
\<close>

locale wire_codec =
  fixes enc :: "'a \<Rightarrow> bytes"
    and dec :: "bytes \<Rightarrow> 'e + 'a \<times> bytes"
    and ok :: "'a \<Rightarrow> bool"
  assumes dec_enc: "ok x \<Longrightarrow> dec (enc x @ rest) = Inr (x, rest)"
begin

lemma prefix_free:
  assumes "ok x" "ok y" "enc x @ r = enc y @ s"
  shows "x = y \<and> r = s"
proof -
  from assms have "dec (enc x @ r) = dec (enc y @ s)" by simp
  with assms(1,2) show ?thesis by (simp add: dec_enc)
qed

lemma inj: "ok x \<Longrightarrow> ok y \<Longrightarrow> enc x = enc y \<longleftrightarrow> x = y"
  using prefix_free [of x y "[]" "[]"] by auto

lemma dec_whole: "ok x \<Longrightarrow> dec (enc x) = Inr (x, [])"
  using dec_enc [of x "[]"] by simp

lemma dec_list:
  "list_all ok xs \<Longrightarrow> dec_n dec (length xs) (concat (map enc xs) @ rest) = Inr (xs, rest)"
  by (induction xs) (simp_all add: dec_enc)

lemma list_prefix_free:
  assumes "list_all ok xs" "list_all ok ys" "length xs = length ys"
    "concat (map enc xs) @ r = concat (map enc ys) @ s"
  shows "xs = ys \<and> r = s"
proof -
  from assms(3,4) have "dec_n dec (length xs) (concat (map enc xs) @ r)
      = dec_n dec (length ys) (concat (map enc ys) @ s)" by simp
  with assms(1,2) show ?thesis by (simp add: dec_list)
qed

end

text \<open>
  A codec with one encoding per value: the decoder accepts exactly the encodings of the values
  the format can carry. Bytes that decode can therefore be re-encoded to the same bytes, which
  is what makes a digest over them an identifier of the value.
\<close>

locale canonical_codec =
  fixes enc :: "'a \<Rightarrow> bytes"
    and dec :: "bytes \<Rightarrow> 'e + 'a \<times> bytes"
    and ok :: "'a \<Rightarrow> bool"
  assumes dec_iff: "dec bs = Inr (x, r) \<longleftrightarrow> ok x \<and> bs = enc x @ r"

sublocale canonical_codec \<subseteq> wire_codec enc dec ok
  by unfold_locales (simp add: dec_iff)

context canonical_codec
begin

lemma list_iff:
  "dec_n dec n bs = Inr (xs, r)
     \<longleftrightarrow> length xs = n \<and> list_all ok xs \<and> bs = concat (map enc xs) @ r"
proof (induction n arbitrary: bs xs)
  case (Suc n)
  show ?case
  proof (cases xs)
    case (Cons x ys)
    have "dec_n dec (Suc n) bs = Inr (x # ys, r)
        \<longleftrightarrow> (\<exists>bs'. dec bs = Inr (x, bs') \<and> dec_n dec n bs' = Inr (ys, r))"
      by (auto simp: split_beta)
    then show ?thesis by (auto simp: Cons dec_iff Suc.IH)
  qed (auto simp: split_beta)
qed auto

lemma recode: "dec bs = Inr (x, []) \<Longrightarrow> enc x = bs"
  by (simp add: dec_iff)

end

text \<open>Fixed-width integers are canonical codecs.\<close>

definition rd_u8 :: "'e \<Rightarrow> bytes \<Rightarrow> 'e + u8 \<times> bytes" where
  "rd_u8 e bs = (case bs of [] \<Rightarrow> Inl e | b # r \<Rightarrow> Inr (b, r))"

definition rd_u32 :: "'e \<Rightarrow> bytes \<Rightarrow> 'e + u32 \<times> bytes" where
  "rd_u32 e bs = andThen (take_n e 4 bs) (\<lambda>(x, r). Inr (from_be32 x, r))"

definition rd_u64 :: "'e \<Rightarrow> bytes \<Rightarrow> 'e + u64 \<times> bytes" where
  "rd_u64 e bs = andThen (take_n e 8 bs) (\<lambda>(x, r). Inr (from_be64 x, r))"

lemma rd_u8_Cons [simp, wire_simps]: "rd_u8 e (b # r) = Inr (b, r)"
  by (simp add: rd_u8_def)

lemma rd_u32_append [simp, wire_simps]: "rd_u32 e (to_be32 w @ r) = Inr (w, r)"
  by (simp add: rd_u32_def)

lemma rd_u64_append [simp, wire_simps]: "rd_u64 e (to_be64 w @ r) = Inr (w, r)"
  by (simp add: rd_u64_def)

lemma rd_u8_iff [wire_iff]: "rd_u8 e bs = Inr (b, r) \<longleftrightarrow> bs = b # r"
  by (auto simp: rd_u8_def split: list.splits)

lemma to_be_from_be:
  "length x = 4 \<Longrightarrow> to_be32 (from_be32 x) = x"
  "length x = 8 \<Longrightarrow> to_be64 (from_be64 x) = x"
  "length x = 16 \<Longrightarrow> to_be128 (from_be128 x) = x"
  using be_dec_lt [of x] be_enc_dec [of x]
  by (simp_all add: to_be32_def from_be32_def to_be64_def from_be64_def to_be128_def
      from_be128_def unat_of_nat)

lemma rd_u32_iff [wire_iff]: "rd_u32 e bs = Inr (w, r) \<longleftrightarrow> bs = to_be32 w @ r"
  by (auto simp: rd_u32_def take_n_eq_Inr to_be_from_be)

lemma rd_u64_iff [wire_iff]: "rd_u64 e bs = Inr (w, r) \<longleftrightarrow> bs = to_be64 w @ r"
  by (auto simp: rd_u64_def take_n_eq_Inr to_be_from_be)

interpretation u8_codec: canonical_codec "\<lambda>b. [b]" "rd_u8 e" "\<lambda>_. True" for e
  by unfold_locales (simp add: rd_u8_iff)

interpretation u32_codec: canonical_codec to_be32 "rd_u32 e" "\<lambda>_. True" for e
  by unfold_locales (simp add: rd_u32_iff)

interpretation u64_codec: canonical_codec to_be64 "rd_u64 e" "\<lambda>_. True" for e
  by unfold_locales (simp add: rd_u64_iff)

lemma list_all2_eq_map: "list_all2 (\<lambda>x y. f x = y) xs ys \<longleftrightarrow> map f xs = ys"
  by (auto simp: list_all2_map1 [symmetric] list.rel_eq [symmetric] simp del: list.rel_eq)

section \<open>Strings\<close>

text \<open>
  A Rust \<open>String\<close> is its UTF-8 bytes. \<open>utf8_next\<close> is one step of the standard library's decoder:
  the code point at the front and the bytes after it, or nothing when the front is not the
  shortest encoding of a Unicode scalar value. \<open>utf8_valid\<close> is \<open>str::from_utf8\<close> succeeding.
\<close>

definition in_range8 :: "nat \<Rightarrow> nat \<Rightarrow> u8 \<Rightarrow> bool" where
  "in_range8 lo hi b = (lo \<le> unat b \<and> unat b \<le> hi)"

definition cont8 :: "u8 \<Rightarrow> nat" where
  "cont8 b = unat b mod 64"

fun utf8_next :: "bytes \<Rightarrow> (nat \<times> bytes) option" where
  "utf8_next [] = None"
| "utf8_next (a # r) =
     (if unat a < 128 then Some (unat a, r)
      else if in_range8 0xC2 0xDF a then
        (case r of
           b # r' \<Rightarrow> if in_range8 0x80 0xBF b
             then Some ((unat a mod 32) * 64 + cont8 b, r') else None
         | _ \<Rightarrow> None)
      else if in_range8 0xE0 0xEF a then
        (case r of
           b # c # r' \<Rightarrow>
             if in_range8 (if a = 0xE0 then 0xA0 else 0x80) (if a = 0xED then 0x9F else 0xBF) b
                \<and> in_range8 0x80 0xBF c
             then Some ((unat a mod 16) * 4096 + cont8 b * 64 + cont8 c, r') else None
         | _ \<Rightarrow> None)
      else if in_range8 0xF0 0xF4 a then
        (case r of
           b # c # d # r' \<Rightarrow>
             if in_range8 (if a = 0xF0 then 0x90 else 0x80) (if a = 0xF4 then 0x8F else 0xBF) b
                \<and> in_range8 0x80 0xBF c \<and> in_range8 0x80 0xBF d
             then Some ((unat a mod 8) * 262144 + cont8 b * 4096 + cont8 c * 64 + cont8 d, r')
             else None
         | _ \<Rightarrow> None)
      else None)"

lemma utf8_next_shorter: "utf8_next bs = Some (c, r) \<Longrightarrow> length r < length bs"
  by (induction bs rule: utf8_next.induct) (auto split: if_splits list.splits)

function utf8_valid :: "bytes \<Rightarrow> bool" where
  "utf8_valid bs =
     (if bs = [] then True
      else case utf8_next bs of None \<Rightarrow> False | Some (c, r) \<Rightarrow> utf8_valid r)"
  by auto
termination
  by (relation "measure length") (auto dest: utf8_next_shorter)

declare utf8_valid.simps [simp del]

lemma utf8_valid_Nil [simp]: "utf8_valid []"
  by (simp add: utf8_valid.simps)

lemma utf8_valid_ascii_Cons [simp]: "unat a < 128 \<Longrightarrow> utf8_valid (a # r) = utf8_valid r"
  by (subst utf8_valid.simps) simp

lemma utf8_valid_ascii: "\<forall>b \<in> set bs. unat b < 128 \<Longrightarrow> utf8_valid bs"
  by (induction bs) auto

section \<open>Maps\<close>

text \<open>
  A \<open>HashMap\<close> is an association list with distinct keys, looked up with \<^const>\<open>map_of\<close> and
  written with \<^const>\<open>AList.update\<close>; where the source iterates over one, the model takes the
  iteration order as a parameter. A \<open>BTreeMap\<close> is an association list kept in strictly
  increasing key order, so that iteration is in key order.
\<close>

type_synonym ('k, 'v) hmap = "('k \<times> 'v) list"
type_synonym ('k, 'v) btree = "('k \<times> 'v) list"

definition get_or :: "'v \<Rightarrow> 'v option \<Rightarrow> 'v" where
  "get_or d v = (case v of None \<Rightarrow> d | Some x \<Rightarrow> x)"

lemma get_or_simps [simp]: "get_or d None = d" "get_or d (Some x) = x"
  by (simp_all add: get_or_def)

fun bt_insert :: "'k::linorder \<Rightarrow> 'v \<Rightarrow> ('k, 'v) btree \<Rightarrow> ('k, 'v) btree" where
  "bt_insert k v [] = [(k, v)]"
| "bt_insert k v ((k', v') # m) =
     (if k < k' then (k, v) # (k', v') # m
      else if k = k' then (k, v) # m
      else (k', v') # bt_insert k v m)"

definition bt_remove :: "'k \<Rightarrow> ('k, 'v) btree \<Rightarrow> ('k, 'v) btree" where
  "bt_remove k m = filter (\<lambda>e. fst e \<noteq> k) m"

definition bt_wf :: "('k::linorder, 'v) btree \<Rightarrow> bool" where
  "bt_wf m = sorted_wrt (<) (map fst m)"

lemma map_of_bt_insert [simp]: "map_of (bt_insert k v m) = (map_of m)(k \<mapsto> v)"
  by (induction m) (auto simp: fun_eq_iff)

lemma map_of_bt_remove [simp]: "map_of (bt_remove k m) = (map_of m)(k := None)"
  by (induction m) (auto simp: bt_remove_def fun_eq_iff)

lemma fst_set_bt_insert: "fst ` set (bt_insert k v m) = insert k (fst ` set m)"
  by (induction k v m rule: bt_insert.induct) (simp_all add: insert_commute)

lemma bt_wf_Nil [simp]: "bt_wf []"
  by (simp add: bt_wf_def)

lemma bt_wf_Cons: "bt_wf (e # m) \<longleftrightarrow> (\<forall>k \<in> fst ` set m. fst e < k) \<and> bt_wf m"
  by (simp add: bt_wf_def)

lemma bt_wf_insert [simp]: "bt_wf m \<Longrightarrow> bt_wf (bt_insert k v m)"
proof (induction m)
  case (Cons e m)
  then show ?case by (cases e) (auto simp: bt_wf_Cons fst_set_bt_insert)
qed (simp add: bt_wf_Cons)

lemma bt_wf_remove [simp]: "bt_wf m \<Longrightarrow> bt_wf (bt_remove k m)"
  by (induction m) (auto simp: bt_wf_Cons bt_remove_def)

lemma length_bt_insert: "length (bt_insert k v m) \<le> Suc (length m)"
  by (induction m) (auto split: if_splits)

lemma length_bt_remove: "length (bt_remove k m) \<le> length m"
  by (simp add: bt_remove_def)

lemma bt_wf_distinct: "bt_wf m \<Longrightarrow> distinct (map fst m)"
  by (induction m) (auto simp: bt_wf_Cons)

text \<open>The sum of a measure over the values of a map, and how one write changes it.\<close>

definition bt_total :: "('v \<Rightarrow> nat) \<Rightarrow> ('k, 'v) btree \<Rightarrow> nat" where
  "bt_total f m = sum_list (map (\<lambda>e. f (snd e)) m)"

definition val_or0 :: "('v \<Rightarrow> nat) \<Rightarrow> 'v option \<Rightarrow> nat" where
  "val_or0 f v = (case v of None \<Rightarrow> 0 | Some x \<Rightarrow> f x)"

lemma val_or0_simps [simp]: "val_or0 f None = 0" "val_or0 f (Some x) = f x"
  by (simp_all add: val_or0_def)

lemma bt_total_Nil [simp]: "bt_total f [] = 0"
  by (simp add: bt_total_def)

lemma bt_total_Cons [simp]: "bt_total f (e # m) = f (snd e) + bt_total f m"
  by (simp add: bt_total_def)

lemma map_of_below: "bt_wf m \<Longrightarrow> (\<forall>k' \<in> fst ` set m. k < k') \<Longrightarrow> map_of m k = None"
  by (auto simp: map_of_eq_None_iff)

lemma bt_total_insert:
  "bt_wf m \<Longrightarrow> bt_total f (bt_insert k v m) + val_or0 f (map_of m k) = bt_total f m + f v"
proof (induction m)
  case (Cons e m)
  obtain k' v' where e: "e = (k', v')" by (cases e)
  show ?case
  proof (cases "k < k'")
    case True
    have "map_of (e # m) k = None"
      using Cons.prems True by (intro map_of_below) (auto simp: bt_wf_Cons e)
    with True show ?thesis by (simp add: e)
  next
    case False
    with Cons show ?thesis by (auto simp: bt_wf_Cons e)
  qed
qed simp

lemma bt_total_remove:
  "bt_wf m \<Longrightarrow> bt_total f (bt_remove k m) + val_or0 f (map_of m k) = bt_total f m"
proof (induction m)
  case (Cons e m)
  show ?case
  proof (cases "fst e = k")
    case True
    with Cons.prems have "filter (\<lambda>e. fst e \<noteq> k) m = m"
      by (intro filter_True) (auto simp: bt_wf_Cons)
    with True show ?thesis by (cases e) (simp add: bt_remove_def)
  next
    case False
    with Cons show ?thesis by (cases e) (auto simp: bt_wf_Cons bt_remove_def)
  qed
qed (simp add: bt_remove_def)

lemma bt_total_ge: "map_of m k = Some v \<Longrightarrow> f v \<le> bt_total f m"
  by (induction m) (auto split: if_splits)

text \<open>Two sorted maps with the same lookups are the same list: comparing states compares maps.\<close>

lemma bt_ext:
  "bt_wf m \<Longrightarrow> bt_wf m' \<Longrightarrow> map_of m = map_of m' \<Longrightarrow> m = m'"
proof -
  assume wf: "bt_wf m" "bt_wf m'" and eq: "map_of m = map_of m'"
  then have "set m = set m'"
    by (metis bt_wf_distinct map_of_eq_Some_iff subset_antisym subsetI surj_pair)
  then have "map fst m = map fst m'"
    using wf by (intro strict_sorted_equal) (simp_all add: bt_wf_def)
  moreover have "map snd m = map snd m'"
  proof -
    have "map snd n = map (\<lambda>k. the (map_of n k)) (map fst n)" if "bt_wf n" for n :: "('a \<times> 'b) list"
      using bt_wf_distinct [OF that] by (auto simp: comp_def intro!: map_cong)
    with wf eq \<open>map fst m = map fst m'\<close> show ?thesis by metis
  qed
  ultimately show "m = m'" by (metis zip_map_fst_snd)
qed

end
