(* ===== verification/Crypto.thy ===== *)
theory Crypto
  imports Prelude
begin

text \<open>
  The crate \<open>mini-crypto\<close>: signature suites, hash algorithms, multibase and multihash encodings,
  keys and signatures. The primitives themselves (\<open>blake3\<close>, \<open>sha2\<close>, \<open>ed25519-dalek\<close>,
  \<open>fips204\<close>, \<open>bs58\<close>) are third-party crates: they are the fields of the record \<open>crypto\<close>, an
  argument of every definition that calls them.
\<close>

unbundle bit_operations_syntax

section \<open>The third-party primitives\<close>

record crypto =
  c_blake3 :: "bytes \<Rightarrow> bytes"
  c_sha256 :: "bytes \<Rightarrow> bytes"
  c_ed_public :: "bytes \<Rightarrow> bytes"
  c_ed_sign :: "bytes \<Rightarrow> bytes \<Rightarrow> bytes"
  c_ed_key_ok :: "bytes \<Rightarrow> bool"
  c_ed_verify :: "bytes \<Rightarrow> bytes \<Rightarrow> bytes \<Rightarrow> bool"
  c_pk_len :: nat
  c_sig_len :: nat
  c_mldsa_key_ok :: "bytes \<Rightarrow> bool"
  c_mldsa_verify :: "bytes \<Rightarrow> bytes \<Rightarrow> bytes \<Rightarrow> bool"
  c_mldsa_sign :: "bytes \<Rightarrow> bytes \<Rightarrow> bytes option"
  c_bs58_encode :: "bytes \<Rightarrow> bytes"
  c_bs58_decode :: "bytes \<Rightarrow> bytes option"

text \<open>
  What the code relies on: the digests of both algorithms have 32 bytes, Ed25519 keys, signatures
  and verification fit together, and base58 decodes what it encodes, in ASCII and in at most two
  characters per byte.
\<close>

definition digests_ok :: "crypto \<Rightarrow> bool" where
  "digests_ok C = (\<forall>m. length (c_blake3 C m) = 32 \<and> length (c_sha256 C m) = 32)"

definition ed25519_ok :: "crypto \<Rightarrow> bool" where
  "ed25519_ok C =
     (\<forall>seed m. length (c_ed_public C seed) = 32 \<and> c_ed_key_ok C (c_ed_public C seed)
        \<and> length (c_ed_sign C seed m) = 64
        \<and> c_ed_verify C (c_ed_public C seed) m (c_ed_sign C seed m))"

definition bs58_ok :: "crypto \<Rightarrow> bool" where
  "bs58_ok C =
     (\<forall>m. c_bs58_decode C (c_bs58_encode C m) = Some m
        \<and> (\<forall>b \<in> set (c_bs58_encode C m). unat b < 128)
        \<and> length (c_bs58_encode C m) \<le> 2 * length m)"

text \<open>A collision of the hash function at two given inputs.\<close>

definition collides :: "crypto \<Rightarrow> bytes \<Rightarrow> bytes \<Rightarrow> bool" where
  "collides C x y = (x \<noteq> y \<and> c_blake3 C x = c_blake3 C y)"

lemma blake3_eqD: "c_blake3 C x = c_blake3 C y \<Longrightarrow> x = y \<or> collides C x y"
  by (auto simp: collides_def)

section \<open>Errors (error.rs)\<close>

datatype CryptoError =
    BadLength nat nat
  | InvalidPublicKey
  | BadSignature
  | UnknownSuite u8
  | UnknownKeyAgreementSuite u8
  | UnknownAeadSuite u8
  | UnknownKdfSuite u8
  | KeyAgreementSuiteMismatch
  | Aead
  | Kdf
  | UnsupportedMultibase nat
  | EmptyMultibase
  | BadEncoding
  | UnknownOrForbiddenHashCode u64
  | BadVarint
  | Entropy
  | SignatureSuiteMismatch

section \<open>Signature suites (suite.rs)\<close>

datatype SignatureSuite = Ed25519 | MlDsa65

definition DEFAULT_SUITE :: SignatureSuite where
  "DEFAULT_SUITE = Ed25519"

fun suite_tag :: "SignatureSuite \<Rightarrow> u8" where
  "suite_tag Ed25519 = 0x01"
| "suite_tag MlDsa65 = 0x02"

definition suite_from_tag :: "u8 \<Rightarrow> CryptoError + SignatureSuite" where
  "suite_from_tag t =
     (if t = 0x01 then Inr Ed25519
      else if t = 0x02 then Inr MlDsa65
      else Inl (UnknownSuite t))"

fun public_key_len :: "crypto \<Rightarrow> SignatureSuite \<Rightarrow> nat" where
  "public_key_len C Ed25519 = 32"
| "public_key_len C MlDsa65 = c_pk_len C"

fun signature_len :: "crypto \<Rightarrow> SignatureSuite \<Rightarrow> nat" where
  "signature_len C Ed25519 = 64"
| "signature_len C MlDsa65 = c_sig_len C"

lemma suite_from_tag_tag [simp, wire_simps]: "suite_from_tag (suite_tag s) = Inr s"
  by (cases s) (simp_all add: suite_from_tag_def)

lemma suite_from_tag_Inr: "suite_from_tag t = Inr s \<longleftrightarrow> t = suite_tag s"
  by (cases s) (auto simp: suite_from_tag_def)

lemma suite_tag_inject [simp]: "suite_tag s = suite_tag s' \<longleftrightarrow> s = s'"
  by (cases s; cases s') simp_all

section \<open>Hash algorithms (hash.rs)\<close>

datatype HashAlgorithm = Blake3 | Sha256

fun multihash_code :: "HashAlgorithm \<Rightarrow> u64" where
  "multihash_code Blake3 = 0x1e"
| "multihash_code Sha256 = 0x12"

definition digest_len :: "HashAlgorithm \<Rightarrow> nat" where
  "digest_len a = 32"

fun hash_digest :: "crypto \<Rightarrow> HashAlgorithm \<Rightarrow> bytes \<Rightarrow> bytes" where
  "hash_digest C Blake3 data = c_blake3 C data"
| "hash_digest C Sha256 data = c_sha256 C data"

definition FORBIDDEN_SHA1_CODE :: u64 where
  "FORBIDDEN_SHA1_CODE = 0x11"

lemma length_hash_digest [simp]: "digests_ok C \<Longrightarrow> length (hash_digest C a data) = 32"
  by (cases a) (simp_all add: digests_ok_def)

lemma length_blake3 [simp]: "digests_ok C \<Longrightarrow> length (c_blake3 C m) = 32"
  by (simp add: digests_ok_def)

section \<open>Unsigned varints (multihash.rs)\<close>

lemma unat_drop_bit7: "unat (drop_bit 7 (v :: u64)) = unat v div 128"
  unfolding unat_drop_bit_eq by (simp add: drop_bit_eq_div)

lemma drop_bit7_less: "drop_bit 7 (v :: u64) \<noteq> 0 \<Longrightarrow> unat (drop_bit 7 v) < unat v"
proof -
  assume "drop_bit 7 v \<noteq> 0"
  then have "0 < unat v" by (metis drop_bit_of_0 unat_gt_0)
  then show ?thesis by (simp add: unat_drop_bit7)
qed

function write_uvarint :: "u64 \<Rightarrow> bytes" where
  "write_uvarint value =
     (let byte = ucast (value AND 0x7f) :: u8;
          value' = drop_bit 7 value
      in if value' \<noteq> 0 then (byte OR 0x80) # write_uvarint value' else [byte])"
  by auto
termination
  by (relation "measure unat") (auto intro: drop_bit7_less)

declare write_uvarint.simps [simp del]

fun read_uvarint_loop :: "nat \<Rightarrow> nat \<Rightarrow> u64 \<Rightarrow> bytes \<Rightarrow> CryptoError + u64 \<times> bytes" where
  "read_uvarint_loop i shift value [] = Inl BadVarint"
| "read_uvarint_loop i shift value (byte # rest) =
     (if i \<ge> 10 \<or> shift \<ge> 64 then Inl BadVarint
      else let payload = byte AND 0x7f in
        if shift = 63 \<and> payload > 1 then Inl BadVarint
        else let value' = value OR push_bit shift (ucast payload) in
          if byte AND 0x80 = 0 then Inr (value', rest)
          else read_uvarint_loop (i + 1) (shift + 7) value' rest)"

definition read_uvarint :: "bytes \<Rightarrow> CryptoError + u64 \<times> bytes" where
  "read_uvarint bs = read_uvarint_loop 0 0 0 bs"

lemma bit_7f: "bit (0x7f :: int) n \<longleftrightarrow> n < 7"
  using bit_mask_iff [of 7 n, where 'a = int] by (simp add: mask_eq_exp_minus_1)

lemma bit_80: "bit (0x80 :: int) n \<longleftrightarrow> n = 7"
  using bit_exp_iff [of 7 n, where 'a = int] by auto

lemmas bit_uvarint = bit_7f bit_80 bit_simps

lemma uvarint_split: "(v :: u64) = (v AND 0x7f) OR push_bit 7 (drop_bit 7 v)"
proof (rule bit_word_eqI)
  fix n assume "n < LENGTH(64)"
  then show "bit v n = bit ((v AND 0x7f) OR push_bit 7 (drop_bit 7 v)) n"
    by (cases "n < 7") (auto simp: bit_uvarint not_less)
qed

lemma uvarint_last_byte:
  fixes v :: u64
  shows "(ucast (v AND 0x7f) :: u8) AND 0x80 = 0"
    and "(ucast (v AND 0x7f) :: u8) AND 0x7f = ucast (v AND 0x7f)"
    and "ucast (ucast (v AND 0x7f) :: u8) = v AND 0x7f"
  by (rule bit_word_eqI, auto simp: bit_uvarint)+

lemma uvarint_more_byte:
  fixes v :: u64
  shows "((ucast (v AND 0x7f) :: u8) OR 0x80) AND 0x80 \<noteq> 0"
    and "((ucast (v AND 0x7f) :: u8) OR 0x80) AND 0x7f = ucast (v AND 0x7f)"
proof -
  have "bit (((ucast (v AND 0x7f) :: u8) OR 0x80) AND 0x80) 7" by (simp add: bit_uvarint)
  then show "((ucast (v AND 0x7f) :: u8) OR 0x80) AND 0x80 \<noteq> 0" by (metis bit_0_eq bot_apply bot_bool_def)
  show "((ucast (v AND 0x7f) :: u8) OR 0x80) AND 0x7f = ucast (v AND 0x7f)"
    by (rule bit_word_eqI) (auto simp: bit_uvarint)
qed

lemma uvarint_payload_small:
  assumes "unat (v :: u64) < 2"
  shows "\<not> (1 < (ucast (v AND 0x7f) :: u8))"
proof -
  from assms have "v = 0 \<or> v = 1"
    by (metis One_nat_def less_2_cases unat_0 unat_1 unat_eq_0 word_unat_eq_iff)
  then show ?thesis by auto
qed

lemma read_uvarint_loop_write:
  assumes "i \<le> 9" "unat v < 2 ^ (64 - 7 * i)"
  shows "read_uvarint_loop i (7 * i) acc (write_uvarint v @ rest)
    = Inr (acc OR push_bit (7 * i) v, rest)"
  using assms
proof (induction v arbitrary: i acc rule: write_uvarint.induct)
  case (1 v)
  have last: "\<not> (7 * i = 63 \<and> 1 < (ucast (v AND 0x7f) :: u8))"
  proof
    assume a: "7 * i = 63 \<and> 1 < (ucast (v AND 0x7f) :: u8)"
    then have "i = 9" by simp
    with "1.prems"(2) have "unat v < 2" by simp
    with a show False using uvarint_payload_small by blast
  qed
  show ?case
  proof (cases "drop_bit 7 v = 0")
    case True
    then have v: "v AND 0x7f = v" using uvarint_split [of v] by simp
    have "write_uvarint v = [ucast (v AND 0x7f)]"
      using True by (simp add: write_uvarint.simps [of v])
    with last "1.prems" show ?thesis
      by (simp add: Let_def uvarint_last_byte [of v, unfolded v] v)
  next
    case False
    then have "128 \<le> unat v"
      by (metis div_less not_less unat_0 unat_drop_bit7 word_unat_eq_iff)
    with "1.prems"(2) have "(2::nat) ^ 7 < 2 ^ (64 - 7 * i)" by simp
    then have "7 < 64 - 7 * i" by (subst (asm) power_strict_increasing_iff) simp_all
    then have i: "i \<le> 8" by simp
    have "(2::nat) ^ (64 - 7 * i) = 128 * 2 ^ (64 - 7 * (i + 1))"
    proof -
      from i have "64 - 7 * i = 7 + (64 - 7 * (i + 1))" by simp
      then show ?thesis by (simp only: power_add) simp
    qed
    with "1.prems"(2) have "unat (drop_bit 7 v) < 2 ^ (64 - 7 * (i + 1))"
      by (simp add: unat_drop_bit7 less_mult_imp_div_less mult.commute)
    from "1.IH" [OF refl refl False _ this, of "acc OR push_bit (7 * i) (v AND 0x7f)"] i
    have "read_uvarint_loop (i + 1) (7 * i + 7) (acc OR push_bit (7 * i) (v AND 0x7f))
        (write_uvarint (drop_bit 7 v) @ rest)
      = Inr ((acc OR push_bit (7 * i) (v AND 0x7f)) OR push_bit (7 * (i + 1)) (drop_bit 7 v), rest)"
      by (simp add: algebra_simps)
    moreover have "push_bit (7 * i) (v AND 0x7f) OR push_bit (7 * (i + 1)) (drop_bit 7 v)
        = push_bit (7 * i) v"
      by (subst (3) uvarint_split) (simp add: push_bit_or push_bit_push_bit algebra_simps)
    ultimately show ?thesis using False last i
      by (subst write_uvarint.simps)
         (simp add: Let_def uvarint_more_byte uvarint_last_byte or.assoc)
  qed
qed

lemma read_write_uvarint [wire_simps]: "read_uvarint (write_uvarint v @ rest) = Inr (v, rest)"
proof -
  have "unat v < 2 ^ (64 - 7 * 0)" using unsigned_less [of v, where ?'a = nat] by simp
  from read_uvarint_loop_write [OF _ this, of 0 rest] show ?thesis
    by (simp add: read_uvarint_def)
qed

interpretation uvarint_codec: wire_codec write_uvarint read_uvarint "\<lambda>_. True"
  by unfold_locales (simp add: read_write_uvarint)

section \<open>Multihashes (multihash.rs)\<close>

record Multihash =
  mh_algorithm :: HashAlgorithm
  mh_digest :: bytes

definition multihash_of :: "crypto \<Rightarrow> HashAlgorithm \<Rightarrow> bytes \<Rightarrow> Multihash" where
  "multihash_of C a data = \<lparr>mh_algorithm = a, mh_digest = hash_digest C a data\<rparr>"

definition multihash_to_bytes :: "Multihash \<Rightarrow> bytes" where
  "multihash_to_bytes m =
     write_uvarint (multihash_code (mh_algorithm m))
       @ write_uvarint (of_nat (length (mh_digest m))) @ mh_digest m"

definition multihash_from_bytes :: "bytes \<Rightarrow> CryptoError + Multihash" where
  "multihash_from_bytes bs =
     andThen (read_uvarint bs) (\<lambda>(code, rest).
     andThen (read_uvarint rest) (\<lambda>(len, rest).
     andThen (ensure (length rest = unat len) (BadLength (unat len) (length rest))) (\<lambda>_.
     andThen (ensure (code \<noteq> FORBIDDEN_SHA1_CODE) (UnknownOrForbiddenHashCode code)) (\<lambda>_.
     andThen (if code = 0x1e then Inr Blake3
              else if code = 0x12 then Inr Sha256
              else Inl (UnknownOrForbiddenHashCode code)) (\<lambda>a.
     andThen (ensure (length rest = digest_len a) (BadLength (digest_len a) (length rest))) (\<lambda>_.
     let parsed = \<lparr>mh_algorithm = a, mh_digest = rest\<rparr>
     in andThen (ensure (multihash_to_bytes parsed = bs) BadEncoding) (\<lambda>_. Inr parsed)))))))"

definition multihash_wf :: "Multihash \<Rightarrow> bool" where
  "multihash_wf m = (length (mh_digest m) = digest_len (mh_algorithm m))"

lemma multihash_of_wf: "digests_ok C \<Longrightarrow> multihash_wf (multihash_of C a data)"
  by (simp add: multihash_wf_def multihash_of_def digest_len_def)

lemma multihash_decode_iff:
  "multihash_from_bytes bs = Inr m \<longleftrightarrow> multihash_wf m \<and> bs = multihash_to_bytes m"
proof
  assume "multihash_from_bytes bs = Inr m"
  then show "multihash_wf m \<and> bs = multihash_to_bytes m"
    by (auto simp: multihash_from_bytes_def multihash_wf_def Let_def split: if_splits)
next
  assume wf: "multihash_wf m \<and> bs = multihash_to_bytes m"
  then have "read_uvarint bs = Inr (multihash_code (mh_algorithm m),
      write_uvarint (of_nat (length (mh_digest m))) @ mh_digest m)"
    by (simp add: multihash_to_bytes_def read_write_uvarint)
  with wf show "multihash_from_bytes bs = Inr m"
    by (cases m; cases "mh_algorithm m")
       (auto simp: multihash_from_bytes_def multihash_wf_def digest_len_def read_write_uvarint
         FORBIDDEN_SHA1_CODE_def Let_def)
qed

lemma multihash_roundtrip [simp]:
  "multihash_wf m \<Longrightarrow> multihash_from_bytes (multihash_to_bytes m) = Inr m"
  by (simp add: multihash_decode_iff)

section \<open>Multibase text (encoding.rs)\<close>

definition BASE58BTC :: nat where
  "BASE58BTC = 122"

definition BASE16 :: nat where
  "BASE16 = 102"

definition HEX :: bytes where
  "HEX = ascii ''0123456789abcdef''"

fun hex_lower :: "bytes \<Rightarrow> bytes" where
  "hex_lower [] = []"
| "hex_lower (b # bs) =
     HEX ! unat (drop_bit 4 b) # HEX ! unat (b AND 0x0f) # hex_lower bs"

definition hex_val :: "u8 \<Rightarrow> CryptoError + u8" where
  "hex_val c =
     (if 48 \<le> c \<and> c \<le> 57 then Inr (c - 48)
      else if 97 \<le> c \<and> c \<le> 102 then Inr (c - 97 + 10)
      else if 65 \<le> c \<and> c \<le> 70 then Inr (c - 65 + 10)
      else Inl BadEncoding)"

fun hex_decode_loop :: "bytes \<Rightarrow> CryptoError + bytes" where
  "hex_decode_loop (a # b # r) =
     andThen (hex_val a) (\<lambda>hi. andThen (hex_val b) (\<lambda>lo.
     andThen (hex_decode_loop r) (\<lambda>out. Inr ((push_bit 4 hi OR lo) # out))))"
| "hex_decode_loop r = Inr []"

definition hex_decode :: "bytes \<Rightarrow> CryptoError + bytes" where
  "hex_decode s = (if length s mod 2 \<noteq> 0 then Inl BadEncoding else hex_decode_loop s)"

definition mb_encode :: "crypto \<Rightarrow> nat \<Rightarrow> bytes \<Rightarrow> CryptoError + bytes" where
  "mb_encode C prefix data =
     (if prefix = BASE58BTC then Inr (of_nat BASE58BTC # c_bs58_encode C data)
      else if prefix = BASE16 then Inr (of_nat BASE16 # hex_lower data)
      else Inl (UnsupportedMultibase prefix))"

definition mb_decode :: "crypto \<Rightarrow> bytes \<Rightarrow> CryptoError + bytes" where
  "mb_decode C s =
     andThen (ok_or (utf8_next s) EmptyMultibase) (\<lambda>(prefix, body).
       if prefix = BASE58BTC then ok_or (c_bs58_decode C body) BadEncoding
       else if prefix = BASE16 then hex_decode body
       else Inl (UnsupportedMultibase prefix))"

lemma hex_digit: "i < 16 \<Longrightarrow> hex_val (HEX ! i) = Inr (of_nat i)"
proof -
  have "\<forall>i \<in> {0..<16}. hex_val (HEX ! i) = Inr (of_nat i)"
    by code_simp
  then show "i < 16 \<Longrightarrow> hex_val (HEX ! i) = Inr (of_nat i)" by simp
qed

lemma hex_halves: "unat (drop_bit 4 (b::u8)) < 16" "unat (b AND 0x0f) < 16"
  "push_bit 4 (drop_bit 4 b) OR (b AND 0x0f) = b"
proof -
  have b: "unat b < 256" by (rule unat_byte_lt)
  then show "unat (drop_bit 4 b) < 16" unfolding unat_drop_bit_eq
    by (simp add: drop_bit_eq_div less_mult_imp_div_less)
  have "b AND 0x0f = take_bit 4 b" by (simp add: take_bit_eq_mask mask_eq_exp_minus_1)
  moreover have "unat (take_bit 4 b) = unat b mod 16"
    unfolding unsigned_take_bit_eq by (simp add: take_bit_eq_mod)
  ultimately show "unat (b AND 0x0f) < 16" by simp
  show "push_bit 4 (drop_bit 4 b) OR (b AND 0x0f) = b"
    unfolding \<open>b AND 0x0f = take_bit 4 b\<close>
    by (rule bit_word_eqI) (auto simp: bit_simps not_less)
qed

lemma hex_decode_loop_lower: "hex_decode_loop (hex_lower bs) = Inr bs"
  by (induction bs) (simp_all add: hex_digit hex_halves)

lemma length_hex_lower [simp]: "length (hex_lower bs) = 2 * length bs"
  by (induction bs) simp_all

lemma hex_roundtrip: "hex_decode (hex_lower bs) = Inr bs"
  by (simp add: hex_decode_def hex_decode_loop_lower)

lemma mb_decode_encode:
  assumes "bs58_ok C" "mb_encode C prefix data = Inr s"
  shows "mb_decode C s = Inr data"
proof -
  from assms(2) consider "prefix = BASE58BTC" "s = of_nat BASE58BTC # c_bs58_encode C data"
    | "prefix = BASE16" "s = of_nat BASE16 # hex_lower data"
    by (auto simp: mb_encode_def split: if_splits)
  then show ?thesis
    using assms(1)
    by cases (simp_all add: mb_decode_def hex_roundtrip bs58_ok_def BASE58BTC_def BASE16_def)
qed

section \<open>Keys and signatures (keys.rs)\<close>

datatype KeyMaterial = KM_Ed25519 bytes | KM_MlDsa65 bytes

record VerifyingKey =
  vk_suite :: SignatureSuite
  vk_inner :: KeyMaterial

text \<open>An Ed25519 secret is its seed; an ML-DSA-65 key keeps the public and the secret half.\<close>

datatype SecretKeyMaterial = SK_Ed25519 bytes | SK_MlDsa65 bytes bytes

record SigningKey =
  sk_suite :: SignatureSuite
  sk_inner :: SecretKeyMaterial

record Signature =
  sig_suite :: SignatureSuite
  sig_bytes :: bytes

definition from_seed :: "bytes \<Rightarrow> SigningKey" where
  "from_seed seed = \<lparr>sk_suite = Ed25519, sk_inner = SK_Ed25519 seed\<rparr>"

definition verifying_key :: "crypto \<Rightarrow> SigningKey \<Rightarrow> VerifyingKey" where
  "verifying_key C k =
     (case sk_inner k of
        SK_Ed25519 seed \<Rightarrow> \<lparr>vk_suite = sk_suite k, vk_inner = KM_Ed25519 (c_ed_public C seed)\<rparr>
      | SK_MlDsa65 pub sec \<Rightarrow> \<lparr>vk_suite = sk_suite k, vk_inner = KM_MlDsa65 pub\<rparr>)"

text \<open>\<open>sign\<close> panics on an ML-DSA-65 key: no value.\<close>

definition sk_sign :: "crypto \<Rightarrow> SigningKey \<Rightarrow> bytes \<Rightarrow> Signature option" where
  "sk_sign C k message =
     (case sk_inner k of
        SK_Ed25519 seed \<Rightarrow> Some \<lparr>sig_suite = sk_suite k, sig_bytes = c_ed_sign C seed message\<rparr>
      | SK_MlDsa65 _ _ \<Rightarrow> None)"

definition sign_ml_dsa_65 :: "crypto \<Rightarrow> SigningKey \<Rightarrow> bytes \<Rightarrow> CryptoError + Signature" where
  "sign_ml_dsa_65 C k message =
     (case sk_inner k of
        SK_Ed25519 _ \<Rightarrow> Inl SignatureSuiteMismatch
      | SK_MlDsa65 pub sec \<Rightarrow>
          andThen (ok_or (c_mldsa_sign C sec message) Entropy) (\<lambda>b.
            Inr \<lparr>sig_suite = sk_suite k, sig_bytes = b\<rparr>))"

definition vk_to_bytes :: "VerifyingKey \<Rightarrow> bytes" where
  "vk_to_bytes k = (case vk_inner k of KM_Ed25519 b \<Rightarrow> b | KM_MlDsa65 b \<Rightarrow> b)"

definition vk_from_suite_bytes ::
  "crypto \<Rightarrow> SignatureSuite \<Rightarrow> bytes \<Rightarrow> CryptoError + VerifyingKey" where
  "vk_from_suite_bytes C suite bs =
     (case suite of
        Ed25519 \<Rightarrow>
          andThen (ensure (length bs = 32) (BadLength 32 (length bs))) (\<lambda>_.
          andThen (ensure (c_ed_key_ok C bs) InvalidPublicKey) (\<lambda>_.
            Inr \<lparr>vk_suite = suite, vk_inner = KM_Ed25519 bs\<rparr>))
      | MlDsa65 \<Rightarrow>
          andThen (ensure (length bs = c_pk_len C) (BadLength (c_pk_len C) (length bs))) (\<lambda>_.
          andThen (ensure (c_mldsa_key_ok C bs) InvalidPublicKey) (\<lambda>_.
            Inr \<lparr>vk_suite = suite, vk_inner = KM_MlDsa65 bs\<rparr>)))"

definition vk_verify :: "crypto \<Rightarrow> VerifyingKey \<Rightarrow> bytes \<Rightarrow> Signature \<Rightarrow> CryptoError + unit" where
  "vk_verify C k message signature =
     (if sig_suite signature \<noteq> vk_suite k then Inl BadSignature
      else case vk_inner k of
        KM_Ed25519 inner \<Rightarrow>
          andThen (ensure (length (sig_bytes signature) = 64) BadSignature) (\<lambda>_.
            ensure (c_ed_verify C inner message (sig_bytes signature)) BadSignature)
      | KM_MlDsa65 pk \<Rightarrow>
          andThen (ensure (c_mldsa_key_ok C pk) InvalidPublicKey) (\<lambda>_.
          andThen (ensure (length (sig_bytes signature) = c_sig_len C) BadSignature) (\<lambda>_.
            ensure (c_mldsa_verify C pk message (sig_bytes signature)) BadSignature)))"

definition sig_from_suite_bytes ::
  "crypto \<Rightarrow> SignatureSuite \<Rightarrow> bytes \<Rightarrow> CryptoError + Signature" where
  "sig_from_suite_bytes C suite bs =
     (let expected = signature_len C suite
      in if length bs \<noteq> expected then Inl (BadLength expected (length bs))
         else Inr \<lparr>sig_suite = suite, sig_bytes = bs\<rparr>)"

text \<open>A key as the decoder leaves it: material of its suite, of the suite's length, accepted.\<close>

definition vk_wf :: "crypto \<Rightarrow> VerifyingKey \<Rightarrow> bool" where
  "vk_wf C k =
     (case vk_inner k of
        KM_Ed25519 b \<Rightarrow> vk_suite k = Ed25519 \<and> length b = 32 \<and> c_ed_key_ok C b
      | KM_MlDsa65 b \<Rightarrow> vk_suite k = MlDsa65 \<and> length b = c_pk_len C \<and> c_mldsa_key_ok C b)"

definition sig_wf :: "crypto \<Rightarrow> Signature \<Rightarrow> bool" where
  "sig_wf C s = (length (sig_bytes s) = signature_len C (sig_suite s))"

lemma vk_decode_iff:
  "vk_from_suite_bytes C suite bs = Inr k
     \<longleftrightarrow> vk_wf C k \<and> suite = vk_suite k \<and> bs = vk_to_bytes k"
  by (cases k; cases suite)
     (auto simp: vk_from_suite_bytes_def vk_wf_def vk_to_bytes_def split: KeyMaterial.splits)

lemma vk_roundtrip [wire_simps]:
  "vk_wf C k \<Longrightarrow> vk_from_suite_bytes C (vk_suite k) (vk_to_bytes k) = Inr k"
  by (simp add: vk_decode_iff)

lemma sig_decode_iff:
  "sig_from_suite_bytes C suite bs = Inr s
     \<longleftrightarrow> sig_wf C s \<and> suite = sig_suite s \<and> bs = sig_bytes s"
  by (cases s) (auto simp: sig_from_suite_bytes_def sig_wf_def Let_def)

lemma sig_roundtrip [wire_simps]:
  "sig_wf C s \<Longrightarrow> sig_from_suite_bytes C (sig_suite s) (sig_bytes s) = Inr s"
  by (simp add: sig_decode_iff)

lemma vk_verify_suite: "vk_verify C k m s = Inr () \<Longrightarrow> sig_suite s = vk_suite k"
  by (simp add: vk_verify_def split: if_splits)

lemma ed25519_sign_verify:
  assumes "ed25519_ok C"
  shows "\<exists>s. sk_sign C (from_seed seed) m = Some s \<and> sig_wf C s
    \<and> vk_wf C (verifying_key C (from_seed seed))
    \<and> vk_verify C (verifying_key C (from_seed seed)) m s = Inr ()"
  using assms
  by (simp add: ed25519_ok_def sk_sign_def from_seed_def verifying_key_def vk_verify_def vk_wf_def
      sig_wf_def)

section \<open>A concrete instance of the primitives\<close>

text \<open>
  Functions that meet every law above, on which the witnesses evaluate. The digest keeps the
  last 32 bytes, the signature repeats the signer's key, verification compares them.
\<close>

definition toy_digest :: "bytes \<Rightarrow> bytes" where
  "toy_digest m = take 32 (rev m @ replicate 32 0)"

definition toy_crypto :: crypto where
  "toy_crypto =
     \<lparr>c_blake3 = toy_digest, c_sha256 = toy_digest,
      c_ed_public = (\<lambda>seed. take 32 (seed @ replicate 32 0)),
      c_ed_sign = (\<lambda>seed m. take 32 (seed @ replicate 32 0) @ toy_digest m),
      c_ed_key_ok = (\<lambda>k. length k = 32),
      c_ed_verify = (\<lambda>k m s. s = k @ toy_digest m),
      c_pk_len = 1952, c_sig_len = 3309,
      c_mldsa_key_ok = (\<lambda>k. True),
      c_mldsa_verify = (\<lambda>k m s. False),
      c_mldsa_sign = (\<lambda>k m. None),
      c_bs58_encode = hex_lower,
      c_bs58_decode = (\<lambda>s. case hex_decode s of Inl _ \<Rightarrow> None | Inr m \<Rightarrow> Some m)\<rparr>"

lemma length_toy_digest [simp]: "length (toy_digest m) = 32"
  by (simp add: toy_digest_def)

lemma HEX_ascii: "i < 16 \<Longrightarrow> unat (HEX ! i) < 128"
proof -
  have "\<forall>i \<in> {0..<16}. unat (HEX ! i) < 128" by code_simp
  then show "i < 16 \<Longrightarrow> unat (HEX ! i) < 128" by simp
qed

lemma hex_lower_ascii: "b \<in> set (hex_lower m) \<Longrightarrow> unat b < 128"
  by (induction m) (auto simp: HEX_ascii hex_halves)

lemma toy_crypto_ok: "digests_ok toy_crypto" "ed25519_ok toy_crypto" "bs58_ok toy_crypto"
  by (simp_all add: digests_ok_def ed25519_ok_def bs58_ok_def toy_crypto_def hex_roundtrip
      hex_lower_ascii min_def)

end
