(* ===== verification/KeyEvent.thy ===== *)
theory KeyEvent
  imports Crypto
begin

text \<open>
  The crate \<open>did-mini\<close>, up to single events: the length-prefixed codec, the \<open>did:mini\<close>
  identifiers, device capabilities and delegation seals, and key events with their canonical
  byte layout, their structural validation and their signature thresholds.
\<close>

unbundle bit_operations_syntax

section \<open>Limits and errors (limits.rs, error.rs)\<close>

definition MAX_SCID_BYTES :: nat where "MAX_SCID_BYTES = 128"
definition MAX_DID_BYTES :: nat where "MAX_DID_BYTES = 256"
definition MAX_PRIOR_BYTES :: nat where "MAX_PRIOR_BYTES = 128"
definition MAX_MULTIHASH_BYTES :: nat where "MAX_MULTIHASH_BYTES = 128"
definition MAX_KEY_BYTES :: nat where "MAX_KEY_BYTES = 256"
definition MAX_SIGNATURE_BYTES :: nat where "MAX_SIGNATURE_BYTES = 4096"
definition MAX_KEYS :: nat where "MAX_KEYS = 32"
definition MAX_NEXT :: nat where "MAX_NEXT = 32"
definition MAX_WITNESSES :: nat where "MAX_WITNESSES = 64"
definition MAX_SIGNATURES :: nat where "MAX_SIGNATURES = 64"
definition MAX_ANCHORS :: nat where "MAX_ANCHORS = 128"
definition MAX_SEALS :: nat where "MAX_SEALS = 128"

lemmas max_defs = MAX_SCID_BYTES_def MAX_DID_BYTES_def MAX_PRIOR_BYTES_def
  MAX_MULTIHASH_BYTES_def MAX_KEY_BYTES_def MAX_SIGNATURE_BYTES_def MAX_KEYS_def MAX_NEXT_def
  MAX_WITNESSES_def MAX_SIGNATURES_def MAX_ANCHORS_def MAX_SEALS_def

text \<open>The errors the modelled part of the crate returns, with the source's payloads.\<close>

datatype IdentityError =
    CryptoErr CryptoError
  | Truncated
  | TrailingBytes
  | UnknownEventTag u8
  | EmptyKel
  | NotInception
  | WrongSequence u64 u64
  | ScidMismatch
  | BrokenChain u64
  | PreRotationMismatch u64
  | ThresholdNotMet u64 u32 u32
  | BadEvent
  | FieldTooLarge string nat nat
  | TooManyItems string nat nat
  | EmptyKeySet
  | InvalidThreshold u32 nat
  | DuplicateKey
  | InvalidNextThreshold u32 nat
  | DidFormat
  | NotDelegated
  | SignatureThresholdNotMet u32 u32
  | RootIsDelegated
  | RecoveryKeysMismatch
  | RestoreKeysMismatch
  | StaleKel u64 u64
  | UnknownSequence u64 u64
  | EmptyWitnessSet
  | InvalidWitnessThreshold u16 nat
  | DuplicateWitness

section \<open>The length-prefixed codec (codec.rs)\<close>

definition w_bytes :: "bytes \<Rightarrow> bytes" where
  "w_bytes b = to_be32 (len32 b) @ b"

definition r_u8 :: "bytes \<Rightarrow> IdentityError + u8 \<times> bytes" where
  "r_u8 = rd_u8 Truncated"

definition r_u32 :: "bytes \<Rightarrow> IdentityError + u32 \<times> bytes" where
  "r_u32 = rd_u32 Truncated"

definition r_u64 :: "bytes \<Rightarrow> IdentityError + u64 \<times> bytes" where
  "r_u64 = rd_u64 Truncated"

definition bytes_limited :: "string \<Rightarrow> nat \<Rightarrow> bytes \<Rightarrow> IdentityError + bytes \<times> bytes" where
  "bytes_limited field lim bs =
     andThen (r_u32 bs) (\<lambda>(len, r).
       if unat len > lim then Inl (FieldTooLarge field lim (unat len))
       else take_n Truncated (unat len) r)"

lemma r_iff [wire_iff]:
  "r_u8 bs = Inr (b, r) \<longleftrightarrow> bs = b # r"
  "r_u32 bs = Inr (w, r) \<longleftrightarrow> bs = to_be32 w @ r"
  "r_u64 bs = Inr (x, r) \<longleftrightarrow> bs = to_be64 x @ r"
  by (simp_all add: r_u8_def r_u32_def r_u64_def rd_u8_iff rd_u32_iff rd_u64_iff)

lemma r_eval [simp]:
  "r_u8 [] = Inl Truncated"
  "r_u8 (b # r) = Inr (b, r)"
  "r_u32 (to_be32 w @ r) = Inr (w, r)"
  "r_u64 (to_be64 x @ r) = Inr (x, r)"
  by (simp_all add: r_u8_def r_u32_def r_u64_def rd_u8_def)

definition fits :: "nat \<Rightarrow> bytes \<Rightarrow> bool" where
  "fits lim b = (length b \<le> lim \<and> length b < 2 ^ 32)"

lemma bytes_limited_iff [wire_iff]:
  "bytes_limited field lim bs = Inr (b, r) \<longleftrightarrow> fits lim b \<and> bs = w_bytes b @ r"
proof
  assume "bytes_limited field lim bs = Inr (b, r)"
  then obtain len where "bs = to_be32 len @ b @ r" "length b = unat len" "unat len \<le> lim"
    by (auto simp: bytes_limited_def wire_iff take_n_eq_Inr split: if_splits)
  moreover from this have "len32 b = len" by (simp add: len32_def)
  moreover have "unat len < 2 ^ 32" using unsigned_less [of len, where ?'a = nat] by simp
  ultimately show "fits lim b \<and> bs = w_bytes b @ r" by (simp add: fits_def w_bytes_def)
next
  assume a: "fits lim b \<and> bs = w_bytes b @ r"
  then have "r_u32 bs = Inr (len32 b, b @ r)" by (simp add: wire_iff w_bytes_def)
  with a show "bytes_limited field lim bs = Inr (b, r)"
    by (simp add: bytes_limited_def fits_def)
qed

interpretation field_codec: canonical_codec w_bytes "bytes_limited field lim" "fits lim" for field lim
  by unfold_locales (simp add: bytes_limited_iff)

definition checked_count :: "nat \<Rightarrow> nat \<Rightarrow> string \<Rightarrow> IdentityError + nat" where
  "checked_count n lim field = (if n > lim then Inl (TooManyItems field lim n) else Inr n)"

text \<open>
  The layout of every vector: a \<open>u32\<close> count and the items. The reader checks the count against
  the field's limit before it reads the first item.
\<close>

definition w_vec :: "('a \<Rightarrow> bytes) \<Rightarrow> 'a list \<Rightarrow> bytes" where
  "w_vec enc xs = to_be32 (len32 xs) @ concat (map enc xs)"

definition r_vec ::
  "(bytes \<Rightarrow> IdentityError + 'a \<times> bytes) \<Rightarrow> nat \<Rightarrow> string \<Rightarrow> bytes \<Rightarrow> IdentityError + 'a list \<times> bytes"
  where
  "r_vec dec lim field bs =
     andThen (r_u32 bs) (\<lambda>(n, r).
     andThen (checked_count (unat n) lim field) (\<lambda>n. dec_n dec n r))"

definition vec_ok :: "('a \<Rightarrow> bool) \<Rightarrow> nat \<Rightarrow> 'a list \<Rightarrow> bool" where
  "vec_ok ok lim xs = (list_all ok xs \<and> length xs \<le> lim \<and> length xs < 2 ^ 32)"

lemma r_vec_iff:
  assumes "canonical_codec enc dec ok"
  shows "r_vec dec lim field bs = Inr (xs, r) \<longleftrightarrow> vec_ok ok lim xs \<and> bs = w_vec enc xs @ r"
proof
  assume "r_vec dec lim field bs = Inr (xs, r)"
  then obtain n where "bs = to_be32 n @ concat (map enc xs) @ r" "length xs = unat n"
      "unat n \<le> lim" "list_all ok xs"
    by (auto simp: r_vec_def wire_iff checked_count_def canonical_codec.list_iff [OF assms]
        split: if_splits)
  moreover from this have "len32 xs = n" by (simp add: len32_def)
  moreover have "unat n < 2 ^ 32" using unsigned_less [of n, where ?'a = nat] by simp
  ultimately show "vec_ok ok lim xs \<and> bs = w_vec enc xs @ r" by (simp add: vec_ok_def w_vec_def)
next
  assume a: "vec_ok ok lim xs \<and> bs = w_vec enc xs @ r"
  then have "r_u32 bs = Inr (len32 xs, concat (map enc xs) @ r)" by (simp add: wire_iff w_vec_def)
  with a show "r_vec dec lim field bs = Inr (xs, r)"
    by (simp add: r_vec_def vec_ok_def checked_count_def canonical_codec.list_iff [OF assms])
qed

section \<open>Identifiers (lib.rs)\<close>

type_synonym Did = bytes
  \<comment> \<open>the newtype \<open>Did(String)\<close>: the whole \<open>did:mini:<scid>\<close> string\<close>

definition METHOD :: bytes where
  "METHOD = ascii ''did:mini:''"

definition validate_scid :: "crypto \<Rightarrow> bytes \<Rightarrow> IdentityError + unit" where
  "validate_scid C scid =
     andThen (map_err CryptoErr (mb_decode C scid)) (\<lambda>bs.
     andThen (map_err CryptoErr (multihash_from_bytes bs)) (\<lambda>_. Inr ()))"

definition from_scid_unchecked :: "bytes \<Rightarrow> Did" where
  "from_scid_unchecked scid = METHOD @ scid"

definition did_from_scid :: "crypto \<Rightarrow> bytes \<Rightarrow> IdentityError + Did" where
  "did_from_scid C scid =
     andThen (validate_scid C scid) (\<lambda>_. Inr (from_scid_unchecked scid))"

definition strip_prefix :: "bytes \<Rightarrow> bytes \<Rightarrow> bytes option" where
  "strip_prefix s p = (if take (length p) s = p then Some (drop (length p) s) else None)"

definition did_parse :: "crypto \<Rightarrow> bytes \<Rightarrow> IdentityError + Did" where
  "did_parse C s =
     (case strip_prefix s METHOD of
        Some scid \<Rightarrow>
          if scid \<noteq> [] then andThen (validate_scid C scid) (\<lambda>_. Inr s) else Inl DidFormat
      | None \<Rightarrow> Inl DidFormat)"

definition did_scid :: "Did \<Rightarrow> bytes" where
  "did_scid d = drop (length METHOD) d"

lemma length_METHOD [simp]: "length METHOD = 9"
  by (simp add: METHOD_def)

lemma strip_prefix_append [simp]: "strip_prefix (p @ s) p = Some s"
  by (simp add: strip_prefix_def)

lemma strip_prefix_Some: "strip_prefix s p = Some x \<longleftrightarrow> s = p @ x"
  by (auto simp: strip_prefix_def) (metis append_take_drop_id)

lemma did_scid_of [simp]: "did_scid (from_scid_unchecked scid) = scid"
  using length_METHOD by (simp add: did_scid_def from_scid_unchecked_def)

lemma validate_scid_iff:
  "validate_scid C scid = Inr () \<longleftrightarrow>
     (\<exists>m. multihash_wf m \<and> mb_decode C scid = Inr (multihash_to_bytes m))"
  by (auto simp: validate_scid_def map_err_def multihash_decode_iff split: sum.splits)

lemma validate_scid_nonempty: "validate_scid C scid = Inr () \<Longrightarrow> scid \<noteq> []"
  by (auto simp: validate_scid_def mb_decode_def map_err_def)

lemma did_parse_iff:
  "did_parse C s = Inr d \<longleftrightarrow>
     d = s \<and> s = from_scid_unchecked (did_scid s) \<and> validate_scid C (did_scid s) = Inr ()"
proof -
  have "did_parse C s = Inr d
      \<longleftrightarrow> (\<exists>scid. s = METHOD @ scid \<and> validate_scid C scid = Inr () \<and> d = s)"
    by (auto simp: did_parse_def strip_prefix_Some dest: validate_scid_nonempty
        split: option.splits if_splits)
  then show ?thesis
    by (auto simp: did_scid_def from_scid_unchecked_def)
qed

section \<open>Capabilities and delegation seals (delegation.rs)\<close>

type_synonym Capabilities = u32
  \<comment> \<open>the newtype \<open>Capabilities(u32)\<close>\<close>

definition CAP_SIGN :: Capabilities where "CAP_SIGN = 1"
definition CAP_PAY :: Capabilities where "CAP_PAY = push_bit 1 1"
definition CAP_POST :: Capabilities where "CAP_POST = push_bit 2 1"
definition CAP_ATTEST :: Capabilities where "CAP_ATTEST = push_bit 3 1"
definition CAP_VOTE :: Capabilities where "CAP_VOTE = push_bit 4 1"
definition CAP_MANAGE_DEVICES :: Capabilities where "CAP_MANAGE_DEVICES = push_bit 5 1"
definition CAP_STORE :: Capabilities where "CAP_STORE = push_bit 6 1"
definition CAP_AI_DISCLOSE :: Capabilities where "CAP_AI_DISCLOSE = push_bit 7 1"

definition CAP_ALL :: Capabilities where
  "CAP_ALL = CAP_SIGN OR CAP_PAY OR CAP_POST OR CAP_ATTEST OR CAP_VOTE OR CAP_MANAGE_DEVICES
     OR CAP_STORE OR CAP_AI_DISCLOSE"

lemmas cap_defs = CAP_SIGN_def CAP_PAY_def CAP_POST_def CAP_ATTEST_def CAP_VOTE_def
  CAP_MANAGE_DEVICES_def CAP_STORE_def CAP_AI_DISCLOSE_def

definition from_bits :: "u32 \<Rightarrow> IdentityError + Capabilities" where
  "from_bits bits = (if bits AND (NOT CAP_ALL) \<noteq> 0 then Inl BadEvent else Inr bits)"

definition cap_with :: "Capabilities \<Rightarrow> Capabilities \<Rightarrow> Capabilities" where
  "cap_with a b = a OR b"

definition cap_contains :: "Capabilities \<Rightarrow> Capabilities \<Rightarrow> bool" where
  "cap_contains a b = (a AND b = b)"

definition cap_primary :: Capabilities where
  "cap_primary =
     cap_with (cap_with (cap_with (cap_with CAP_SIGN CAP_PAY) CAP_POST) CAP_ATTEST) CAP_VOTE"

definition cap_secondary :: Capabilities where
  "cap_secondary = cap_with (cap_with CAP_SIGN CAP_PAY) CAP_POST"

datatype DeviceTier = ColdRoot | HardwareToken | DailyDevice | Emerging

fun for_tier :: "DeviceTier \<Rightarrow> Capabilities" where
  "for_tier ColdRoot =
     cap_with (cap_with (cap_with (cap_with (cap_with (cap_with CAP_SIGN CAP_PAY) CAP_POST)
       CAP_ATTEST) CAP_VOTE) CAP_MANAGE_DEVICES) CAP_STORE"
| "for_tier HardwareToken = CAP_SIGN"
| "for_tier DailyDevice = cap_primary"
| "for_tier Emerging = cap_secondary"

datatype Seal = Delegate bytes Capabilities | Revoke bytes

fun encode_seal :: "Seal \<Rightarrow> bytes" where
  "encode_seal (Delegate device caps) = [0x01] @ w_bytes device @ to_be32 caps"
| "encode_seal (Revoke device) = [0x02] @ w_bytes device"

text \<open>A length-limited string that must be UTF-8 and a \<open>did:mini\<close> identifier.\<close>

definition r_did :: "crypto \<Rightarrow> string \<Rightarrow> bytes \<Rightarrow> IdentityError + bytes \<times> bytes" where
  "r_did C field bs =
     andThen (bytes_limited field MAX_DID_BYTES bs) (\<lambda>(s, r).
     andThen (ensure (utf8_valid s) BadEvent) (\<lambda>_.
     andThen (did_parse C s) (\<lambda>_. Inr (s, r))))"

definition decode_seal :: "crypto \<Rightarrow> bytes \<Rightarrow> IdentityError + Seal \<times> bytes" where
  "decode_seal C bs =
     andThen (r_u8 bs) (\<lambda>(tag, r).
       if tag = 0x01 then
         andThen (r_did C ''seal.device'' r) (\<lambda>(device, r).
         andThen (r_u32 r) (\<lambda>(bits, r).
         andThen (from_bits bits) (\<lambda>caps. Inr (Delegate device caps, r))))
       else if tag = 0x02 then
         andThen (r_did C ''seal.device'' r) (\<lambda>(device, r). Inr (Revoke device, r))
       else Inl BadEvent)"

definition did_ok :: "crypto \<Rightarrow> bytes \<Rightarrow> bool" where
  "did_ok C s = (fits MAX_DID_BYTES s \<and> utf8_valid s \<and> is_ok (did_parse C s))"

fun seal_ok :: "crypto \<Rightarrow> Seal \<Rightarrow> bool" where
  "seal_ok C (Delegate device caps) = (did_ok C device \<and> caps AND (NOT CAP_ALL) = 0)"
| "seal_ok C (Revoke device) = did_ok C device"

lemma r_did_iff [wire_iff]: "r_did C field bs = Inr (s, r) \<longleftrightarrow> did_ok C s \<and> bs = w_bytes s @ r"
  by (auto simp: r_did_def wire_iff did_ok_def is_ok_iff)

lemma from_bits_iff: "from_bits bits = Inr c \<longleftrightarrow> c = bits \<and> bits AND (NOT CAP_ALL) = 0"
  by (auto simp: from_bits_def)

lemma decode_seal_iff [wire_iff]:
  "decode_seal C bs = Inr (s, r) \<longleftrightarrow> seal_ok C s \<and> bs = encode_seal s @ r"
  by (cases s; cases bs) (auto simp: decode_seal_def wire_iff from_bits_iff split: if_splits)

interpretation seal_codec: canonical_codec encode_seal "decode_seal C" "seal_ok C" for C
  by unfold_locales (rule decode_seal_iff)

section \<open>Key events (event.rs)\<close>

definition TAG_ICP :: u8 where "TAG_ICP = 0x01"
definition TAG_ROT :: u8 where "TAG_ROT = 0x02"
definition TAG_IXN :: u8 where "TAG_IXN = 0x03"
definition TAG_SEAL :: u8 where "TAG_SEAL = 0x04"
definition TAG_DIP :: u8 where "TAG_DIP = 0x05"

lemmas tag_defs = TAG_ICP_def TAG_ROT_def TAG_IXN_def TAG_SEAL_def TAG_DIP_def

record Establishment =
  est_keys :: "VerifyingKey list"
  est_threshold :: u32
  est_next :: "bytes list"
  est_next_threshold :: u32
  est_witnesses :: "bytes list"
  est_witness_threshold :: u32

datatype EventKind =
    Inception Establishment
  | DelegatedInception Establishment bytes
  | Rotation Establishment
  | Interaction "bytes list"
  | SealEvent "Seal list"

record IndexedSig =
  is_index :: u32
  is_signature :: Signature

record Event =
  ev_suite :: SignatureSuite
  ev_scid :: bytes
  ev_sn :: u64
  ev_prior :: bytes
  ev_kind :: EventKind
  ev_signatures :: "IndexedSig list"

datatype Mode = ScidInput | Signing | Full

definition w_key :: "VerifyingKey \<Rightarrow> bytes" where
  "w_key k = [suite_tag (vk_suite k)] @ w_bytes (vk_to_bytes k)"

definition encode_establishment :: "Establishment \<Rightarrow> bytes" where
  "encode_establishment est =
     w_vec w_key (est_keys est) @ to_be32 (est_threshold est)
       @ w_vec w_bytes (est_next est) @ to_be32 (est_next_threshold est)
       @ w_vec w_bytes (est_witnesses est)
       @ (if est_witnesses est \<noteq> [] then to_be32 (est_witness_threshold est) else [])"

fun encode_kind :: "EventKind \<Rightarrow> bytes" where
  "encode_kind (Inception est) = encode_establishment est"
| "encode_kind (Rotation est) = encode_establishment est"
| "encode_kind (DelegatedInception est delegator) = encode_establishment est @ w_bytes delegator"
| "encode_kind (Interaction anchors) = w_vec w_bytes anchors"
| "encode_kind (SealEvent seals) = w_vec encode_seal seals"

fun kind_tag :: "EventKind \<Rightarrow> u8" where
  "kind_tag (Inception _) = TAG_ICP"
| "kind_tag (DelegatedInception _ _) = TAG_DIP"
| "kind_tag (Rotation _) = TAG_ROT"
| "kind_tag (Interaction _) = TAG_IXN"
| "kind_tag (SealEvent _) = TAG_SEAL"

definition w_sig :: "IndexedSig \<Rightarrow> bytes" where
  "w_sig s =
     to_be32 (is_index s) @ [suite_tag (sig_suite (is_signature s))]
       @ w_bytes (sig_bytes (is_signature s))"

definition event_encode :: "Mode \<Rightarrow> Event \<Rightarrow> bytes" where
  "event_encode mode e =
     [kind_tag (ev_kind e)] @ [suite_tag (ev_suite e)]
       @ (if mode = ScidInput then w_bytes [] else w_bytes (ev_scid e))
       @ to_be64 (ev_sn e) @ w_bytes (ev_prior e) @ encode_kind (ev_kind e)
       @ (if mode = Full then w_vec w_sig (ev_signatures e) else [])"

definition signing_bytes :: "Event \<Rightarrow> bytes" where
  "signing_bytes e = event_encode Signing e"

definition full_bytes :: "Event \<Rightarrow> bytes" where
  "full_bytes e = event_encode Full e"

definition event_digest :: "crypto \<Rightarrow> Event \<Rightarrow> bytes" where
  "event_digest C e = multihash_to_bytes (multihash_of C Blake3 (full_bytes e))"

definition key_fingerprint :: "VerifyingKey \<Rightarrow> bytes" where
  "key_fingerprint vk = suite_tag (vk_suite vk) # vk_to_bytes vk"

definition key_commitment :: "crypto \<Rightarrow> VerifyingKey \<Rightarrow> bytes" where
  "key_commitment C vk = multihash_to_bytes (multihash_of C Blake3 (key_fingerprint vk))"

text \<open>\<open>encode(BASE58BTC, ..)\<close> cannot fail; the source's \<open>expect\<close> never panics.\<close>

definition derive_scid :: "crypto \<Rightarrow> Event \<Rightarrow> bytes" where
  "derive_scid C icp =
     (case mb_encode C BASE58BTC
        (multihash_to_bytes (multihash_of C Blake3 (event_encode ScidInput icp))) of
        Inr s \<Rightarrow> s | Inl _ \<Rightarrow> [])"

subsection \<open>Structural validation\<close>

text \<open>The loop that refuses the first element already seen.\<close>

fun first_dup :: "'a list \<Rightarrow> 'a list \<Rightarrow> bool" where
  "first_dup seen [] = False"
| "first_dup seen (x # xs) = (if x \<in> set seen then True else first_dup (x # seen) xs)"

fun check_next :: "bytes list \<Rightarrow> bytes list \<Rightarrow> IdentityError + unit" where
  "check_next seen [] = Inr ()"
| "check_next seen (c # cs) =
     andThen (map_err CryptoErr (multihash_from_bytes c)) (\<lambda>_.
       if c \<in> set seen then Inl BadEvent else check_next (c # seen) cs)"

definition sat16 :: "u32 \<Rightarrow> u16" where
  "sat16 w = (if unat w \<le> 65535 then ucast w else 65535)"

definition validate_establishment :: "Establishment \<Rightarrow> IdentityError + unit" where
  "validate_establishment est =
     andThen (ensure (est_keys est \<noteq> []) EmptyKeySet) (\<lambda>_.
     andThen
       (if est_witnesses est = [] then
          ensure (est_witness_threshold est = 0)
            (InvalidWitnessThreshold (sat16 (est_witness_threshold est)) 0)
        else
          andThen (ensure (est_witness_threshold est \<noteq> 0
              \<and> unat (est_witness_threshold est) \<le> length (est_witnesses est))
            (InvalidWitnessThreshold (sat16 (est_witness_threshold est))
              (length (est_witnesses est)))) (\<lambda>_.
          ensure (\<not> first_dup [] (est_witnesses est)) DuplicateWitness)) (\<lambda>_.
     andThen (ensure (est_threshold est \<noteq> 0 \<and> unat (est_threshold est) \<le> length (est_keys est))
       (InvalidThreshold (est_threshold est) (length (est_keys est)))) (\<lambda>_.
     andThen (ensure (\<not> first_dup [] (map key_fingerprint (est_keys est))) DuplicateKey) (\<lambda>_.
     andThen (ensure (est_next est \<noteq> [] \<and> est_next_threshold est \<noteq> 0
         \<and> unat (est_next_threshold est) \<le> length (est_next est))
       (InvalidNextThreshold (est_next_threshold est) (length (est_next est)))) (\<lambda>_.
     check_next [] (est_next est))))))"

subsection \<open>Decoding\<close>

definition r_key :: "crypto \<Rightarrow> bytes \<Rightarrow> IdentityError + VerifyingKey \<times> bytes" where
  "r_key C bs =
     andThen (r_u8 bs) (\<lambda>(t, r).
     andThen (map_err CryptoErr (suite_from_tag t)) (\<lambda>suite.
     andThen (bytes_limited ''key'' MAX_KEY_BYTES r) (\<lambda>(b, r).
     andThen (map_err CryptoErr (vk_from_suite_bytes C suite b)) (\<lambda>k. Inr (k, r)))))"

definition r_commitment :: "bytes \<Rightarrow> IdentityError + bytes \<times> bytes" where
  "r_commitment bs =
     andThen (bytes_limited ''next commitment'' MAX_MULTIHASH_BYTES bs) (\<lambda>(c, r).
     andThen (map_err CryptoErr (multihash_from_bytes c)) (\<lambda>_. Inr (c, r)))"

definition r_anchor :: "bytes \<Rightarrow> IdentityError + bytes \<times> bytes" where
  "r_anchor bs =
     andThen (bytes_limited ''anchor'' 32 bs) (\<lambda>(a, r).
     andThen (ensure (length a = 32) BadEvent) (\<lambda>_. Inr (a, r)))"

definition r_sig :: "crypto \<Rightarrow> bytes \<Rightarrow> IdentityError + IndexedSig \<times> bytes" where
  "r_sig C bs =
     andThen (r_u32 bs) (\<lambda>(index, r).
     andThen (r_u8 r) (\<lambda>(t, r).
     andThen (map_err CryptoErr (suite_from_tag t)) (\<lambda>suite.
     andThen (bytes_limited ''signature'' MAX_SIGNATURE_BYTES r) (\<lambda>(b, r).
     andThen (map_err CryptoErr (sig_from_suite_bytes C suite b)) (\<lambda>s.
       Inr (\<lparr>is_index = index, is_signature = s\<rparr>, r))))))"

definition decode_establishment :: "crypto \<Rightarrow> bytes \<Rightarrow> IdentityError + Establishment \<times> bytes" where
  "decode_establishment C bs =
     andThen (r_vec (r_key C) MAX_KEYS ''keys'' bs) (\<lambda>(keys, r).
     andThen (r_u32 r) (\<lambda>(threshold, r).
     andThen (r_vec r_commitment MAX_NEXT ''next commitments'' r) (\<lambda>(nxt, r).
     andThen (r_u32 r) (\<lambda>(next_threshold, r).
     andThen (r_vec (bytes_limited ''witness'' MAX_DID_BYTES) MAX_WITNESSES ''witnesses'' r)
       (\<lambda>(witnesses, r).
     andThen (if witnesses = [] then Inr (0, r) else r_u32 r) (\<lambda>(witness_threshold, r).
     let est = \<lparr>est_keys = keys, est_threshold = threshold, est_next = nxt,
                est_next_threshold = next_threshold, est_witnesses = witnesses,
                est_witness_threshold = witness_threshold\<rparr>
     in andThen (validate_establishment est) (\<lambda>_. Inr (est, r))))))))"

definition decode_kind :: "crypto \<Rightarrow> u8 \<Rightarrow> bytes \<Rightarrow> IdentityError + EventKind \<times> bytes" where
  "decode_kind C tag bs =
     (if tag = TAG_ICP then
        andThen (decode_establishment C bs) (\<lambda>(est, r). Inr (Inception est, r))
      else if tag = TAG_DIP then
        andThen (decode_establishment C bs) (\<lambda>(est, r).
        andThen (r_did C ''event.delegator'' r) (\<lambda>(d, r). Inr (DelegatedInception est d, r)))
      else if tag = TAG_ROT then
        andThen (decode_establishment C bs) (\<lambda>(est, r). Inr (Rotation est, r))
      else if tag = TAG_IXN then
        andThen (r_vec r_anchor MAX_ANCHORS ''anchors'' bs) (\<lambda>(a, r). Inr (Interaction a, r))
      else if tag = TAG_SEAL then
        andThen (r_vec (decode_seal C) MAX_SEALS ''seals'' bs) (\<lambda>(s, r). Inr (SealEvent s, r))
      else Inl (UnknownEventTag tag))"

definition event_decode :: "crypto \<Rightarrow> bytes \<Rightarrow> IdentityError + Event \<times> bytes" where
  "event_decode C bs =
     andThen (r_u8 bs) (\<lambda>(tag, r).
     andThen (r_u8 r) (\<lambda>(t, r).
     andThen (map_err CryptoErr (suite_from_tag t)) (\<lambda>suite.
     andThen (bytes_limited ''event.scid'' MAX_SCID_BYTES r) (\<lambda>(scid, r).
     andThen (ensure (utf8_valid scid) BadEvent) (\<lambda>_.
     andThen (r_u64 r) (\<lambda>(sn, r).
     andThen (bytes_limited ''event.prior'' MAX_PRIOR_BYTES r) (\<lambda>(prior, r).
     andThen (decode_kind C tag r) (\<lambda>(kind, r).
     andThen (r_vec (r_sig C) MAX_SIGNATURES ''signatures'' r) (\<lambda>(sigs, r).
       Inr (\<lparr>ev_suite = suite, ev_scid = scid, ev_sn = sn, ev_prior = prior, ev_kind = kind,
             ev_signatures = sigs\<rparr>, r))))))))))"

subsection \<open>The codec is canonical\<close>

definition key_ok :: "crypto \<Rightarrow> VerifyingKey \<Rightarrow> bool" where
  "key_ok C k = (vk_wf C k \<and> fits MAX_KEY_BYTES (vk_to_bytes k))"

definition commitment_ok :: "bytes \<Rightarrow> bool" where
  "commitment_ok c = (fits MAX_MULTIHASH_BYTES c \<and> is_ok (multihash_from_bytes c))"

definition anchor_ok :: "bytes \<Rightarrow> bool" where
  "anchor_ok a = (length a = 32)"

definition isig_ok :: "crypto \<Rightarrow> IndexedSig \<Rightarrow> bool" where
  "isig_ok C s =
     (sig_wf C (is_signature s) \<and> fits MAX_SIGNATURE_BYTES (sig_bytes (is_signature s)))"

definition est_ok :: "crypto \<Rightarrow> Establishment \<Rightarrow> bool" where
  "est_ok C est =
     (vec_ok (key_ok C) MAX_KEYS (est_keys est) \<and> vec_ok commitment_ok MAX_NEXT (est_next est)
      \<and> vec_ok (fits MAX_DID_BYTES) MAX_WITNESSES (est_witnesses est)
      \<and> validate_establishment est = Inr ())"

fun kind_ok :: "crypto \<Rightarrow> EventKind \<Rightarrow> bool" where
  "kind_ok C (Inception est) = est_ok C est"
| "kind_ok C (Rotation est) = est_ok C est"
| "kind_ok C (DelegatedInception est d) = (est_ok C est \<and> did_ok C d)"
| "kind_ok C (Interaction a) = vec_ok anchor_ok MAX_ANCHORS a"
| "kind_ok C (SealEvent s) = vec_ok (seal_ok C) MAX_SEALS s"

definition event_ok :: "crypto \<Rightarrow> Event \<Rightarrow> bool" where
  "event_ok C e =
     (fits MAX_SCID_BYTES (ev_scid e) \<and> utf8_valid (ev_scid e) \<and> fits MAX_PRIOR_BYTES (ev_prior e)
      \<and> kind_ok C (ev_kind e) \<and> vec_ok (isig_ok C) MAX_SIGNATURES (ev_signatures e))"

lemma r_key_iff [wire_iff]: "r_key C bs = Inr (k, r) \<longleftrightarrow> key_ok C k \<and> bs = w_key k @ r"
  by (cases bs) (auto simp: r_key_def wire_iff suite_from_tag_Inr vk_decode_iff key_ok_def w_key_def)

lemma r_commitment_iff [wire_iff]:
  "r_commitment bs = Inr (c, r) \<longleftrightarrow> commitment_ok c \<and> bs = w_bytes c @ r"
  by (auto simp: r_commitment_def wire_iff commitment_ok_def is_ok_iff)

lemma r_anchor_iff [wire_iff]: "r_anchor bs = Inr (a, r) \<longleftrightarrow> anchor_ok a \<and> bs = w_bytes a @ r"
  by (auto simp: r_anchor_def wire_iff anchor_ok_def fits_def)

lemma r_sig_iff [wire_iff]: "r_sig C bs = Inr (s, r) \<longleftrightarrow> isig_ok C s \<and> bs = w_sig s @ r"
  by (cases s) (auto simp: r_sig_def wire_iff suite_from_tag_Inr sig_decode_iff isig_ok_def w_sig_def)

interpretation key_codec: canonical_codec w_key "r_key C" "key_ok C" for C
  by unfold_locales (rule r_key_iff)

interpretation commitment_codec: canonical_codec w_bytes r_commitment commitment_ok
  by unfold_locales (rule r_commitment_iff)

interpretation anchor_codec: canonical_codec w_bytes r_anchor anchor_ok
  by unfold_locales (rule r_anchor_iff)

interpretation sig_codec: canonical_codec w_sig "r_sig C" "isig_ok C" for C
  by unfold_locales (rule r_sig_iff)

lemmas vec_iffs [wire_iff] =
  r_vec_iff [OF key_codec.canonical_codec_axioms]
  r_vec_iff [OF commitment_codec.canonical_codec_axioms]
  r_vec_iff [OF anchor_codec.canonical_codec_axioms]
  r_vec_iff [OF sig_codec.canonical_codec_axioms]
  r_vec_iff [OF field_codec.canonical_codec_axioms]
  r_vec_iff [OF seal_codec.canonical_codec_axioms]

lemma r_vec_eval:
  "canonical_codec enc dec ok \<Longrightarrow> vec_ok ok lim xs
     \<Longrightarrow> r_vec dec lim field (w_vec enc xs @ r) = Inr (xs, r)"
  by (simp add: r_vec_iff)

lemmas vec_evals =
  r_vec_eval [OF key_codec.canonical_codec_axioms]
  r_vec_eval [OF commitment_codec.canonical_codec_axioms]
  r_vec_eval [OF field_codec.canonical_codec_axioms]

lemma validate_no_witnesses:
  "validate_establishment est = Inr () \<Longrightarrow> est_witnesses est = [] \<Longrightarrow> est_witness_threshold est = 0"
  by (auto simp: validate_establishment_def)

lemma decode_establishment_iff [wire_iff]:
  "decode_establishment C bs = Inr (est, r) \<longleftrightarrow> est_ok C est \<and> bs = encode_establishment est @ r"
proof
  assume "decode_establishment C bs = Inr (est, r)"
  then show "est_ok C est \<and> bs = encode_establishment est @ r"
    by (auto simp: decode_establishment_def wire_iff Let_def est_ok_def encode_establishment_def
        split: if_splits)
next
  assume a: "est_ok C est \<and> bs = encode_establishment est @ r"
  then have w: "est_witnesses est = [] \<Longrightarrow> est_witness_threshold est = 0"
    by (simp add: est_ok_def validate_no_witnesses)
  from a w show "decode_establishment C bs = Inr (est, r)"
    by (cases est)
       (simp add: decode_establishment_def vec_evals Let_def est_ok_def encode_establishment_def)
qed

lemma decode_kind_iff:
  "decode_kind C tag bs = Inr (k, r) \<longleftrightarrow> tag = kind_tag k \<and> kind_ok C k \<and> bs = encode_kind k @ r"
  by (cases k) (auto simp: decode_kind_def wire_iff tag_defs split: if_splits)

lemma event_decode_iff [wire_iff]:
  "event_decode C bs = Inr (e, r) \<longleftrightarrow> event_ok C e \<and> bs = full_bytes e @ r"
proof
  assume "event_decode C bs = Inr (e, r)"
  then show "event_ok C e \<and> bs = full_bytes e @ r"
    by (auto simp: event_decode_def wire_iff decode_kind_iff suite_from_tag_Inr event_ok_def
        full_bytes_def event_encode_def)
next
  assume "event_ok C e \<and> bs = full_bytes e @ r"
  moreover obtain su sc sn pr kd sg where "e = \<lparr>ev_suite = su, ev_scid = sc, ev_sn = sn,
      ev_prior = pr, ev_kind = kd, ev_signatures = sg\<rparr>"
    by (cases e)
  ultimately show "event_decode C bs = Inr (e, r)"
    by (auto simp: event_decode_def wire_iff decode_kind_iff event_ok_def full_bytes_def
        event_encode_def)
qed

interpretation event_codec: canonical_codec full_bytes "event_decode C" "event_ok C" for C
  by unfold_locales (rule event_decode_iff)

subsection \<open>What signatures and identifiers commit to\<close>

definition unsigned_event :: "Event \<Rightarrow> Event" where
  "unsigned_event e = e\<lparr>ev_signatures := []\<rparr>"

definition scid_view :: "Event \<Rightarrow> Event" where
  "scid_view e = e\<lparr>ev_scid := [], ev_signatures := []\<rparr>"

lemma event_ok_views: "event_ok C e \<Longrightarrow> event_ok C (unsigned_event e) \<and> event_ok C (scid_view e)"
  by (simp add: event_ok_def unsigned_event_def scid_view_def vec_ok_def fits_def)

lemma views_full_bytes:
  "full_bytes (unsigned_event e) = event_encode Signing e @ w_vec w_sig []"
  "full_bytes (scid_view e) = event_encode ScidInput e @ w_vec w_sig []"
  by (simp_all add: full_bytes_def event_encode_def unsigned_event_def scid_view_def)

lemma signing_bytes_inj:
  assumes "event_ok C e" "event_ok C e'" "signing_bytes e = signing_bytes e'"
  shows "unsigned_event e = unsigned_event e'"
proof -
  from assms(3) have "full_bytes (unsigned_event e) = full_bytes (unsigned_event e')"
    by (simp add: views_full_bytes signing_bytes_def)
  then show ?thesis using event_codec.inj event_ok_views assms(1,2) by metis
qed

lemma scid_input_inj:
  assumes "event_ok C e" "event_ok C e'" "event_encode ScidInput e = event_encode ScidInput e'"
  shows "scid_view e = scid_view e'"
proof -
  from assms(3) have "full_bytes (scid_view e) = full_bytes (scid_view e')"
    by (simp add: views_full_bytes)
  then show ?thesis using event_codec.inj event_ok_views assms(1,2) by metis
qed

lemma multihash_blake3_eq:
  assumes "digests_ok C"
    "multihash_to_bytes (multihash_of C Blake3 x) = multihash_to_bytes (multihash_of C Blake3 y)"
  shows "x = y \<or> collides C x y"
proof -
  have "multihash_from_bytes (multihash_to_bytes (multihash_of C Blake3 x))
      = multihash_from_bytes (multihash_to_bytes (multihash_of C Blake3 y))"
    using assms(2) by simp
  then have "multihash_of C Blake3 x = multihash_of C Blake3 y"
    by (simp add: multihash_of_wf [OF assms(1)])
  then show ?thesis by (intro blake3_eqD) (simp add: multihash_of_def)
qed

lemma event_digest_eq:
  assumes "digests_ok C" "event_ok C e" "event_ok C e'" "event_digest C e = event_digest C e'"
  shows "e = e' \<or> collides C (full_bytes e) (full_bytes e')"
  using multihash_blake3_eq [OF assms(1)] assms event_codec.inj by (metis event_digest_def)

lemma key_fingerprint_inj:
  "vk_wf C k \<Longrightarrow> vk_wf C k' \<Longrightarrow> key_fingerprint k = key_fingerprint k' \<Longrightarrow> k = k'"
  by (metis key_fingerprint_def list.inject suite_tag_inject sum.inject(2) vk_roundtrip)

lemma key_commitment_eq:
  assumes "digests_ok C" "vk_wf C k" "vk_wf C k'" "key_commitment C k = key_commitment C k'"
  shows "k = k' \<or> collides C (key_fingerprint k) (key_fingerprint k')"
  using multihash_blake3_eq [OF assms(1)] assms key_fingerprint_inj by (metis key_commitment_def)

lemma derive_scid_eq:
  assumes "digests_ok C" "bs58_ok C" "event_ok C e" "event_ok C e'"
    "derive_scid C e = derive_scid C e'"
  shows "scid_view e = scid_view e'
    \<or> collides C (event_encode ScidInput e) (event_encode ScidInput e')"
proof -
  have "\<And>x y. c_bs58_encode C x = c_bs58_encode C y \<Longrightarrow> x = y"
    using assms(2) by (metis bs58_ok_def option.inject)
  with assms(5) have "multihash_to_bytes (multihash_of C Blake3 (event_encode ScidInput e))
      = multihash_to_bytes (multihash_of C Blake3 (event_encode ScidInput e'))"
    by (simp add: derive_scid_def mb_encode_def)
  from multihash_blake3_eq [OF assms(1) this] show ?thesis
    using scid_input_inj assms(3,4) by blast
qed

subsection \<open>Signature thresholds\<close>

fun count_loop ::
  "crypto \<Rightarrow> bytes \<Rightarrow> VerifyingKey list \<Rightarrow> u32 list \<Rightarrow> bytes list \<Rightarrow> u32 \<Rightarrow> IndexedSig list \<Rightarrow> u32" where
  "count_loop C msg keys seen_indices seen_keys count [] = count"
| "count_loop C msg keys seen_indices seen_keys count (s # sigs) =
     (let idx = unat (is_index s) in
      if idx \<ge> length keys \<or> is_index s \<in> set seen_indices then
        count_loop C msg keys seen_indices seen_keys count sigs
      else let fp = key_fingerprint (keys ! idx) in
        if fp \<in> set seen_keys then count_loop C msg keys seen_indices seen_keys count sigs
        else if is_ok (vk_verify C (keys ! idx) msg (is_signature s)) then
          count_loop C msg keys (is_index s # seen_indices) (fp # seen_keys) (count + 1) sigs
        else count_loop C msg keys seen_indices seen_keys count sigs)"

definition count_valid_signers ::
  "crypto \<Rightarrow> bytes \<Rightarrow> VerifyingKey list \<Rightarrow> IndexedSig list \<Rightarrow> u32" where
  "count_valid_signers C msg keys sigs = count_loop C msg keys [] [] 0 sigs"

definition verify_threshold ::
  "crypto \<Rightarrow> Event \<Rightarrow> VerifyingKey list \<Rightarrow> u32 \<Rightarrow> IdentityError + unit" where
  "verify_threshold C event keys threshold =
     (if threshold = 0 then Inl (ThresholdNotMet (ev_sn event) threshold 0)
      else let count = count_valid_signers C (signing_bytes event) keys (ev_signatures event) in
        if count \<ge> threshold then Inr ()
        else Inl (ThresholdNotMet (ev_sn event) threshold count))"

text \<open>The keys that really signed: those with a valid signature at their own index.\<close>

definition valid_signers :: "crypto \<Rightarrow> bytes \<Rightarrow> VerifyingKey list \<Rightarrow> IndexedSig list \<Rightarrow> bytes set" where
  "valid_signers C msg keys sigs =
     {key_fingerprint (keys ! unat (is_index s)) | s.
        s \<in> set sigs \<and> unat (is_index s) < length keys
        \<and> is_ok (vk_verify C (keys ! unat (is_index s)) msg (is_signature s))}"

lemma valid_signers_Nil [simp]: "valid_signers C msg keys [] = {}"
  by (simp add: valid_signers_def)

lemma valid_signers_Cons:
  "valid_signers C msg keys (s # sigs) =
     (if unat (is_index s) < length keys
          \<and> is_ok (vk_verify C (keys ! unat (is_index s)) msg (is_signature s))
      then insert (key_fingerprint (keys ! unat (is_index s))) (valid_signers C msg keys sigs)
      else valid_signers C msg keys sigs)"
  by (auto simp: valid_signers_def)

lemma valid_signers_sub: "valid_signers C msg keys sigs \<subseteq> key_fingerprint ` set keys"
  by (auto simp: valid_signers_def)

lemma finite_valid_signers [simp]: "finite (valid_signers C msg keys sigs)"
  using valid_signers_sub finite_surj by (metis finite_imageI finite_set finite_subset)

lemma count_loop_card:
  assumes "\<forall>i \<in> set si. unat i < length keys \<and> key_fingerprint (keys ! unat i) \<in> set sk"
    "n = of_nat (card (set sk))"
  shows "count_loop C msg keys si sk n sigs
    = of_nat (card (set sk \<union> valid_signers C msg keys sigs))"
  using assms
proof (induction C msg keys si sk n sigs rule: count_loop.induct)
  case (2 C msg keys si sk n s sigs)
  let ?fp = "key_fingerprint (keys ! unat (is_index s))"
  consider "unat (is_index s) \<ge> length keys" | "is_index s \<in> set si" "unat (is_index s) < length keys"
    | "unat (is_index s) < length keys" "is_index s \<notin> set si" "?fp \<in> set sk"
    | "unat (is_index s) < length keys" "is_index s \<notin> set si" "?fp \<notin> set sk"
    by linarith
  then show ?case
  proof cases
    case 2
    with "2.prems" have "?fp \<in> set sk" by blast
    with 2 "2.IH"(1) "2.prems" show ?thesis
      by (simp add: Let_def valid_signers_Cons insert_absorb)
  next
    case 3
    with "2.IH"(2) "2.prems" show ?thesis
      by (simp add: Let_def valid_signers_Cons insert_absorb not_le)
  next
    case 4
    with "2.IH"(3,4) "2.prems" show ?thesis
      by (auto simp: Let_def valid_signers_Cons not_le)
  qed (use "2.IH"(1) "2.prems" in \<open>simp add: valid_signers_Cons\<close>)
qed simp

lemma count_valid_signers_card:
  "length keys < 2 ^ 32 \<Longrightarrow>
     unat (count_valid_signers C msg keys sigs) = card (valid_signers C msg keys sigs)"
proof -
  assume "length keys < 2 ^ 32"
  moreover have "card (valid_signers C msg keys sigs) \<le> length keys"
    by (metis card_image_le card_length card_mono finite_imageI finite_set le_trans valid_signers_sub)
  ultimately show ?thesis
    by (simp add: count_valid_signers_def count_loop_card unat_of_nat)
qed

lemma verify_threshold_iff:
  "length keys < 2 ^ 32 \<Longrightarrow>
     verify_threshold C e keys t = Inr () \<longleftrightarrow>
       t \<noteq> 0 \<and> unat t \<le> card (valid_signers C (signing_bytes e) keys (ev_signatures e))"
  by (simp add: verify_threshold_def Let_def word_le_nat_alt count_valid_signers_card)

subsection \<open>Canonical signature lists\<close>

text \<open>\<open>windows(2).all(..)\<close> over the indices.\<close>

fun signatures_are_canonical :: "IndexedSig list \<Rightarrow> bool" where
  "signatures_are_canonical (a # b # r) =
     (is_index a < is_index b \<and> signatures_are_canonical (b # r))"
| "signatures_are_canonical _ = True"

text \<open>\<open>dedup_by_key\<close>: of a run of equal keys the first element stays.\<close>

fun dedup_by_index :: "IndexedSig list \<Rightarrow> IndexedSig list" where
  "dedup_by_index (a # b # r) =
     (if is_index a = is_index b then dedup_by_index (a # r) else a # dedup_by_index (b # r))"
| "dedup_by_index r = r"

definition canonicalize_signatures :: "IndexedSig list \<Rightarrow> IndexedSig list" where
  "canonicalize_signatures sigs = dedup_by_index (sort_key is_index sigs)"

lemma signatures_are_canonical_iff:
  "signatures_are_canonical s \<longleftrightarrow> sorted_wrt (<) (map is_index s)"
proof (induction s rule: signatures_are_canonical.induct)
  case (1 a b r)
  then show ?case by (auto intro: less_trans)
qed auto

lemma dedup_set: "set (dedup_by_index s) \<subseteq> set s"
  by (induction s rule: dedup_by_index.induct) auto

lemma dedup_head: "s \<noteq> [] \<Longrightarrow> \<exists>r. dedup_by_index s = hd s # r"
  by (induction s rule: dedup_by_index.induct) auto

lemma dedup_indices: "is_index ` set (dedup_by_index s) = is_index ` set s"
  by (induction s rule: dedup_by_index.induct) auto

lemma dedup_canonical: "sorted (map is_index s) \<Longrightarrow> sorted_wrt (<) (map is_index (dedup_by_index s))"
proof (induction s rule: dedup_by_index.induct)
  case (1 a b r)
  have "\<forall>x \<in> set (dedup_by_index (b # r)). is_index b \<le> is_index x"
    using "1.prems" dedup_set [of "b # r"] by auto
  with 1 show ?case by (auto simp: order.strict_iff_order)
qed auto

lemma dedup_fixed: "sorted_wrt (<) (map is_index s) \<Longrightarrow> dedup_by_index s = s"
  by (induction s rule: dedup_by_index.induct) auto

lemma canonicalize_canonical: "signatures_are_canonical (canonicalize_signatures s)"
  by (simp add: signatures_are_canonical_iff canonicalize_signatures_def dedup_canonical)

lemma canonicalize_fixed: "signatures_are_canonical s \<Longrightarrow> canonicalize_signatures s = s"
  by (simp add: signatures_are_canonical_iff canonicalize_signatures_def dedup_fixed
      sort_key_id_if_sorted strict_sorted_imp_sorted)

lemma canonicalize_indices:
  "is_index ` set (canonicalize_signatures s) = is_index ` set s"
  "set (canonicalize_signatures s) \<subseteq> set s"
  using dedup_set [of "sort_key is_index s"]
  by (simp_all add: canonicalize_signatures_def dedup_indices)

end
