(* ===== verification/Kel.thy ===== *)
theory Kel
  imports KeyEvent
begin

text \<open>
  The key event log of \<open>did-mini\<close> (kel.rs, freshness.rs): the hash-chained history of one
  identity, its verification walk, the key state at every sequence number, detached signatures,
  device delegation and the freshness pins.
\<close>

section \<open>Data\<close>

definition MAX_KEL_EVENTS :: nat where "MAX_KEL_EVENTS = 1024"
definition MAX_EVENT_BYTES :: nat where "MAX_EVENT_BYTES = 64 * 1024"

record KeyState =
  ks_keys :: "VerifyingKey list"
  ks_threshold :: u32
  ks_sn :: u64
  ks_next_commitments :: "bytes list"
  ks_next_threshold :: u32

record Kel =
  kel_scid :: bytes
  kel_events :: "Event list"

definition kel_did :: "Kel \<Rightarrow> Did" where
  "kel_did k = from_scid_unchecked (kel_scid k)"

section \<open>Wire form\<close>

definition w_event :: "Event \<Rightarrow> bytes" where
  "w_event e = w_bytes (full_bytes e)"

definition kel_to_bytes :: "Kel \<Rightarrow> bytes" where
  "kel_to_bytes k = w_bytes (kel_scid k) @ w_vec w_event (kel_events k)"

definition r_event :: "crypto \<Rightarrow> bytes \<Rightarrow> IdentityError + Event \<times> bytes" where
  "r_event C bs =
     andThen (bytes_limited ''kel.event'' MAX_EVENT_BYTES bs) (\<lambda>(b, r).
     andThen (event_decode C b) (\<lambda>(ev, left).
     andThen (ensure (left = []) TrailingBytes) (\<lambda>_. Inr (ev, r))))"

definition kel_from_bytes :: "crypto \<Rightarrow> bytes \<Rightarrow> IdentityError + Kel" where
  "kel_from_bytes C bs =
     andThen (bytes_limited ''kel.scid'' MAX_SCID_BYTES bs) (\<lambda>(scid, r).
     andThen (ensure (utf8_valid scid) BadEvent) (\<lambda>_.
     andThen (did_parse C (METHOD @ scid)) (\<lambda>_.
     andThen (r_vec (r_event C) MAX_KEL_EVENTS ''kel.events'' r) (\<lambda>(events, r).
     andThen (ensure (r = []) TrailingBytes) (\<lambda>_.
       Inr \<lparr>kel_scid = scid, kel_events = events\<rparr>)))))"

definition wire_event_ok :: "crypto \<Rightarrow> Event \<Rightarrow> bool" where
  "wire_event_ok C e = (event_ok C e \<and> fits MAX_EVENT_BYTES (full_bytes e))"

definition kel_ok :: "crypto \<Rightarrow> Kel \<Rightarrow> bool" where
  "kel_ok C k =
     (fits MAX_SCID_BYTES (kel_scid k) \<and> utf8_valid (kel_scid k)
      \<and> is_ok (did_parse C (METHOD @ kel_scid k))
      \<and> vec_ok (wire_event_ok C) MAX_KEL_EVENTS (kel_events k))"

lemma r_event_iff [wire_iff]:
  "r_event C bs = Inr (e, r) \<longleftrightarrow> wire_event_ok C e \<and> bs = w_event e @ r"
  by (auto simp: r_event_def wire_iff wire_event_ok_def w_event_def)

interpretation log_codec: canonical_codec w_event "r_event C" "wire_event_ok C" for C
  by unfold_locales (rule r_event_iff)

lemma kel_from_bytes_iff:
  "kel_from_bytes C bs = Inr k \<longleftrightarrow> kel_ok C k \<and> bs = kel_to_bytes k"
  by (cases k)
     (auto simp: kel_from_bytes_def wire_iff r_vec_iff [OF log_codec.canonical_codec_axioms]
       kel_ok_def kel_to_bytes_def is_ok_iff)

section \<open>Verification\<close>

text \<open>The loop variables of \<open>verify_through\<close>.\<close>

record Walk =
  wk_keys :: "VerifyingKey list"
  wk_threshold :: u32
  wk_next :: "bytes list"
  wk_next_threshold :: u32
  wk_digest :: bytes

definition walk_step :: "crypto \<Rightarrow> bytes \<Rightarrow> nat \<Rightarrow> Walk \<Rightarrow> Event \<Rightarrow> IdentityError + Walk" where
  "walk_step C scid i w ev =
     andThen (ensure (ev_scid ev = scid) ScidMismatch) (\<lambda>_.
     andThen (ensure (ev_sn ev = of_nat i) (WrongSequence (of_nat i) (ev_sn ev))) (\<lambda>_.
     andThen (ensure (ev_prior ev = wk_digest w) (BrokenChain (of_nat i))) (\<lambda>_.
     andThen
       (case ev_kind ev of
          Inception _ \<Rightarrow> Inl NotInception
        | DelegatedInception _ _ \<Rightarrow> Inl NotInception
        | Rotation est \<Rightarrow>
            andThen (validate_establishment est) (\<lambda>_.
            andThen (ensure (length (est_keys est) = length (wk_next w)
                \<and> est_threshold est = wk_next_threshold w) (PreRotationMismatch (of_nat i))) (\<lambda>_.
            andThen (ensure (list_all2 (\<lambda>k c. key_commitment C k = c) (est_keys est) (wk_next w))
                (PreRotationMismatch (of_nat i))) (\<lambda>_.
            andThen (verify_threshold C ev (est_keys est) (est_threshold est)) (\<lambda>_.
              Inr (w\<lparr>wk_keys := est_keys est, wk_threshold := est_threshold est,
                     wk_next := est_next est, wk_next_threshold := est_next_threshold est\<rparr>)))))
        | Interaction _ \<Rightarrow>
            andThen (verify_threshold C ev (wk_keys w) (wk_threshold w)) (\<lambda>_. Inr w)
        | SealEvent _ \<Rightarrow>
            andThen (verify_threshold C ev (wk_keys w) (wk_threshold w)) (\<lambda>_. Inr w))
       (\<lambda>w'. Inr (w'\<lparr>wk_digest := event_digest C ev\<rparr>)))))"

fun walk :: "crypto \<Rightarrow> bytes \<Rightarrow> nat \<Rightarrow> Walk \<Rightarrow> Event list \<Rightarrow> IdentityError + Walk" where
  "walk C scid i w [] = Inr w"
| "walk C scid i w (ev # evs) =
     andThen (walk_step C scid i w ev) (\<lambda>w'. walk C scid (i + 1) w' evs)"

definition verify_inception :: "crypto \<Rightarrow> bytes \<Rightarrow> Event \<Rightarrow> IdentityError + Walk" where
  "verify_inception C scid first =
     andThen
       (case ev_kind first of
          Inception est \<Rightarrow> Inr est
        | DelegatedInception est _ \<Rightarrow> Inr est
        | _ \<Rightarrow> Inl NotInception) (\<lambda>icp.
     andThen (ensure (ev_sn first = 0 \<and> ev_prior first = []) NotInception) (\<lambda>_.
     andThen (validate_establishment icp) (\<lambda>_.
     andThen (did_parse C (METHOD @ scid)) (\<lambda>_.
     andThen
       (case ev_kind first of
          DelegatedInception _ delegator \<Rightarrow>
            andThen (did_parse C delegator) (\<lambda>did. ensure (did_scid did \<noteq> scid) BadEvent)
        | _ \<Rightarrow> Inr ()) (\<lambda>_.
     andThen (ensure (derive_scid C first = ev_scid first \<and> ev_scid first = scid) ScidMismatch) (\<lambda>_.
     andThen (verify_threshold C first (est_keys icp) (est_threshold icp)) (\<lambda>_.
       Inr \<lparr>wk_keys = est_keys icp, wk_threshold = est_threshold icp, wk_next = est_next icp,
            wk_next_threshold = est_next_threshold icp, wk_digest = event_digest C first\<rparr>)))))))"

definition walk_state :: "nat \<Rightarrow> Walk \<Rightarrow> KeyState" where
  "walk_state last_i w =
     \<lparr>ks_keys = wk_keys w, ks_threshold = wk_threshold w, ks_sn = of_nat last_i,
      ks_next_commitments = wk_next w, ks_next_threshold = wk_next_threshold w\<rparr>"

definition verify_through :: "crypto \<Rightarrow> Kel \<Rightarrow> nat \<Rightarrow> IdentityError + KeyState" where
  "verify_through C k last_i =
     (case kel_events k of
        [] \<Rightarrow> Inl EmptyKel
      | first # rest \<Rightarrow>
          andThen (verify_inception C (kel_scid k) first) (\<lambda>w.
          andThen (walk C (kel_scid k) 1 w (take last_i rest)) (\<lambda>w.
            Inr (walk_state last_i w))))"

definition kel_verify :: "crypto \<Rightarrow> Kel \<Rightarrow> IdentityError + KeyState" where
  "kel_verify C k = verify_through C k (length (kel_events k) - 1)"

definition key_state_at :: "crypto \<Rightarrow> Kel \<Rightarrow> u64 \<Rightarrow> IdentityError + KeyState" where
  "key_state_at C k sn =
     andThen (kel_verify C k) (\<lambda>st.
       if sn > ks_sn st then Inl (UnknownSequence sn (ks_sn st))
       else verify_through C k (unat sn))"

definition event_digest_at :: "crypto \<Rightarrow> Kel \<Rightarrow> u64 \<Rightarrow> IdentityError + bytes" where
  "event_digest_at C k sn =
     (if unat sn < length (kel_events k) then Inr (event_digest C (kel_events k ! unat sn))
      else Inl (UnknownSequence sn (of_nat (length (kel_events k) - 1))))"

definition head_digest :: "crypto \<Rightarrow> Kel \<Rightarrow> IdentityError + bytes" where
  "head_digest C k =
     (if kel_events k = [] then Inl EmptyKel else Inr (event_digest C (last (kel_events k))))"

section \<open>Detached signatures\<close>

definition check_detached ::
  "crypto \<Rightarrow> bytes \<Rightarrow> IndexedSig list \<Rightarrow> KeyState \<Rightarrow> IdentityError + unit" where
  "check_detached C msg sigs st =
     (let count = count_valid_signers C msg (ks_keys st) sigs in
      if count \<ge> ks_threshold st then Inr ()
      else Inl (SignatureThresholdNotMet (ks_threshold st) count))"

definition verify_message :: "crypto \<Rightarrow> Kel \<Rightarrow> bytes \<Rightarrow> IndexedSig list \<Rightarrow> IdentityError + unit" where
  "verify_message C k msg sigs = andThen (kel_verify C k) (\<lambda>st. check_detached C msg sigs st)"

definition verify_message_at ::
  "crypto \<Rightarrow> Kel \<Rightarrow> u64 \<Rightarrow> bytes \<Rightarrow> IndexedSig list \<Rightarrow> IdentityError + unit" where
  "verify_message_at C k sn msg sigs =
     andThen (key_state_at C k sn) (\<lambda>st. check_detached C msg sigs st)"

section \<open>Delegation\<close>

definition kel_delegator :: "crypto \<Rightarrow> Kel \<Rightarrow> Did option" where
  "kel_delegator C k =
     (case kel_events k of
        e # _ \<Rightarrow> (case ev_kind e of
            DelegatedInception _ d \<Rightarrow> (case did_parse C d of Inr did \<Rightarrow> Some did | Inl _ \<Rightarrow> None)
          | _ \<Rightarrow> None)
      | [] \<Rightarrow> None)"

definition kel_seals :: "Kel \<Rightarrow> Seal list" where
  "kel_seals k =
     concat (map (\<lambda>e. case ev_kind e of SealEvent s \<Rightarrow> s | _ \<Rightarrow> []) (kel_events k))"

fun apply_seal :: "(bytes \<times> Capabilities) list \<Rightarrow> Seal \<Rightarrow> (bytes \<times> Capabilities) list" where
  "apply_seal acc (Delegate device caps) =
     (if device \<in> fst ` set acc then AList.update device caps acc else acc @ [(device, caps)])"
| "apply_seal acc (Revoke device) = filter (\<lambda>(d, _). d \<noteq> device) acc"

definition delegated_devices :: "crypto \<Rightarrow> Kel \<Rightarrow> (Did \<times> Capabilities) list" where
  "delegated_devices C k =
     concat (map (\<lambda>(d, c). case did_parse C d of Inr did \<Rightarrow> [(did, c)] | Inl _ \<Rightarrow> [])
       (foldl apply_seal [] (kel_seals k)))"

definition verify_delegation :: "crypto \<Rightarrow> Kel \<Rightarrow> Kel \<Rightarrow> IdentityError + Capabilities" where
  "verify_delegation C root device =
     andThen (kel_verify C root) (\<lambda>_.
     andThen (kel_verify C device) (\<lambda>_.
     andThen (ensure (kel_delegator C root = None) RootIsDelegated) (\<lambda>_.
     andThen (ok_or (kel_delegator C device) NotDelegated) (\<lambda>delegator.
     andThen (ensure (did_scid delegator = kel_scid root) NotDelegated) (\<lambda>_.
       ok_or (map_option snd (List.find (\<lambda>(dev, _). dev = kel_did device) (delegated_devices C root)))
         NotDelegated)))))"

section \<open>Declared witnesses\<close>

record WitnessPolicy =
  wp_generation :: u64
  wp_witnesses :: "Did list"
  wp_threshold :: u16

definition witness_policy_new :: "u64 \<Rightarrow> Did list \<Rightarrow> u16 \<Rightarrow> IdentityError + WitnessPolicy" where
  "witness_policy_new generation witnesses threshold =
     andThen (ensure (witnesses \<noteq> []) EmptyWitnessSet) (\<lambda>_.
     andThen (ensure (length witnesses \<le> MAX_WITNESSES)
       (TooManyItems ''witnesses'' MAX_WITNESSES (length witnesses))) (\<lambda>_.
     andThen (ensure (threshold \<noteq> 0 \<and> unat threshold \<le> length witnesses)
       (InvalidWitnessThreshold threshold (length witnesses))) (\<lambda>_.
     andThen (ensure (\<not> first_dup [] witnesses) DuplicateWitness) (\<lambda>_.
       Inr \<lparr>wp_generation = generation, wp_witnesses = witnesses, wp_threshold = threshold\<rparr>))))"

fun kind_establishment :: "EventKind \<Rightarrow> Establishment option" where
  "kind_establishment (Inception est) = Some est"
| "kind_establishment (Rotation est) = Some est"
| "kind_establishment (DelegatedInception est _) = Some est"
| "kind_establishment _ = None"

fun parse_witnesses :: "crypto \<Rightarrow> bytes list \<Rightarrow> Did list option" where
  "parse_witnesses C [] = Some []"
| "parse_witnesses C (b # bs) =
     (if utf8_valid b then
        (case did_parse C b of
           Inr d \<Rightarrow> map_option (\<lambda>ds. d # ds) (parse_witnesses C bs)
         | Inl _ \<Rightarrow> None)
      else None)"

fun declared_policy_loop :: "crypto \<Rightarrow> Event list \<Rightarrow> WitnessPolicy option" where
  "declared_policy_loop C [] = None"
| "declared_policy_loop C (e # es) =
     (case kind_establishment (ev_kind e) of
        None \<Rightarrow> declared_policy_loop C es
      | Some est \<Rightarrow>
          if est_witnesses est = [] then None
          else (case parse_witnesses C (est_witnesses est) of
              None \<Rightarrow> None
            | Some ws \<Rightarrow>
                if unat (est_witness_threshold est) \<le> 65535 then
                  (case witness_policy_new (ev_sn e) ws (ucast (est_witness_threshold est)) of
                     Inr p \<Rightarrow> Some p | Inl _ \<Rightarrow> None)
                else None))"

definition declared_witness_policy :: "crypto \<Rightarrow> Kel \<Rightarrow> WitnessPolicy option" where
  "declared_witness_policy C k = declared_policy_loop C (rev (kel_events k))"

section \<open>Freshness pins (freshness.rs)\<close>

type_synonym FreshnessPins = "(bytes, u64) hmap"

definition check_and_pin ::
  "crypto \<Rightarrow> FreshnessPins \<Rightarrow> Kel \<Rightarrow> (IdentityError + u64) \<times> FreshnessPins" where
  "check_and_pin C pins k =
     (case kel_verify C k of
        Inl e \<Rightarrow> (Inl e, pins)
      | Inr st \<Rightarrow>
          (case map_of pins (kel_scid k) of
             Some pinned \<Rightarrow>
               if ks_sn st < pinned then (Inl (StaleKel pinned (ks_sn st)), pins)
               else (Inr (ks_sn st), AList.update (kel_scid k) (max pinned (ks_sn st)) pins)
           | None \<Rightarrow> (Inr (ks_sn st), AList.update (kel_scid k) (ks_sn st) pins)))"

section \<open>The verification walk\<close>

lemma walk_append:
  "walk C scid i w (xs @ ys) = andThen (walk C scid i w xs) (\<lambda>w'. walk C scid (i + length xs) w' ys)"
  by (induction xs arbitrary: i w) (auto simp: andThen_def split: sum.splits)

lemma walk_prefix: "walk C scid i w (xs @ ys) = Inr w' \<Longrightarrow> \<exists>w1. walk C scid i w xs = Inr w1"
  by (auto simp: walk_append)

text \<open>What one accepted step establishes about its event.\<close>

lemma walk_step_linked:
  "walk_step C scid i w ev = Inr w' \<Longrightarrow>
     ev_scid ev = scid \<and> ev_sn ev = of_nat i \<and> ev_prior ev = wk_digest w
       \<and> wk_digest w' = event_digest C ev"
  by (auto simp: walk_step_def)

lemma walk_step_signed:
  "walk_step C scid i w ev = Inr w' \<Longrightarrow> verify_threshold C ev (wk_keys w') (wk_threshold w') = Inr ()"
  by (auto simp: walk_step_def split: EventKind.splits)

lemma walk_step_rotation:
  "walk_step C scid i w ev = Inr w' \<Longrightarrow> ev_kind ev = Rotation est \<Longrightarrow>
     map (key_commitment C) (est_keys est) = wk_next w \<and> est_threshold est = wk_next_threshold w
       \<and> wk_keys w' = est_keys est \<and> wk_next w' = est_next est"
  by (auto simp: walk_step_def list_all2_eq_map)

text \<open>The state of the loop after the event at index \<open>i\<close>.\<close>

definition walk_at :: "crypto \<Rightarrow> Kel \<Rightarrow> nat \<Rightarrow> IdentityError + Walk" where
  "walk_at C k i =
     (case kel_events k of
        [] \<Rightarrow> Inl EmptyKel
      | first # rest \<Rightarrow>
          andThen (verify_inception C (kel_scid k) first) (\<lambda>w. walk C (kel_scid k) 1 w (take i rest)))"

lemma verify_through_walk_at:
  "verify_through C k i = andThen (walk_at C k i) (\<lambda>w. Inr (walk_state i w))"
  by (auto simp: verify_through_def walk_at_def andThen_def split: list.splits sum.splits)

lemma walk_at_Suc:
  assumes "Suc i < length (kel_events k)"
  shows "walk_at C k (Suc i)
    = andThen (walk_at C k i) (\<lambda>w. walk_step C (kel_scid k) (Suc i) w (kel_events k ! Suc i))"
proof -
  from assms obtain first rest where e: "kel_events k = first # rest" "i < length rest"
    by (cases "kel_events k") auto
  then have "take (Suc i) rest = take i rest @ [rest ! i]" by (simp add: take_Suc_conv_app_nth)
  with e show ?thesis
    by (auto simp: walk_at_def walk_append andThen_def split: sum.splits)
qed

lemma walk_at_down:
  assumes "walk_at C k n = Inr w" "i \<le> n"
  shows "\<exists>w'. walk_at C k i = Inr w'"
proof -
  obtain first rest where e: "kel_events k = first # rest"
    using assms(1) by (cases "kel_events k") (auto simp: walk_at_def)
  have "take n rest = take i rest @ take (n - i) (drop i rest)"
    using assms(2) by (metis le_add_diff_inverse take_add)
  with assms(1) e show ?thesis by (auto simp: walk_at_def walk_append)
qed

lemma kel_verify_walk:
  assumes "kel_verify C k = Inr st" "i < length (kel_events k)"
  obtains w where "walk_at C k i = Inr w"
proof -
  from assms(1) obtain w where "walk_at C k (length (kel_events k) - 1) = Inr w"
    by (auto simp: kel_verify_def verify_through_walk_at)
  moreover have "i \<le> length (kel_events k) - 1" using assms(2) by simp
  ultimately show thesis using walk_at_down that by blast
qed

lemma kel_verify_nonempty: "kel_verify C k = Inr st \<Longrightarrow> kel_events k \<noteq> []"
  by (auto simp: kel_verify_def verify_through_def)

lemma kel_verify_sn: "kel_verify C k = Inr st \<Longrightarrow> ks_sn st = of_nat (length (kel_events k) - 1)"
  by (auto simp: kel_verify_def verify_through_walk_at walk_state_def)

text \<open>Inversion of the inception check.\<close>

lemma verify_inception_Inr:
  assumes "verify_inception C scid first = Inr w"
  shows "ev_scid first = scid \<and> derive_scid C first = scid \<and> ev_sn first = 0 \<and> ev_prior first = []
    \<and> wk_digest w = event_digest C first
    \<and> verify_threshold C first (wk_keys w) (wk_threshold w) = Inr ()
    \<and> is_ok (did_parse C (METHOD @ scid))"
  using assms by (auto simp: verify_inception_def is_ok_iff split: EventKind.splits)

lemma walk_at_0:
  assumes "walk_at C k 0 = Inr w"
  shows "kel_events k \<noteq> [] \<and> verify_inception C (kel_scid k) (kel_events k ! 0) = Inr w"
  using assms by (cases "kel_events k") (auto simp: walk_at_def)

lemma walk_at_digest:
  assumes "walk_at C k i = Inr w" "i < length (kel_events k)"
  shows "wk_digest w = event_digest C (kel_events k ! i)"
proof (cases i)
  case 0
  with assms walk_at_0 verify_inception_Inr show ?thesis by metis
next
  case (Suc j)
  with assms show ?thesis by (auto simp: walk_at_Suc dest: walk_step_linked)
qed

text \<open>Every accepted event is signed by the key state it leaves in force.\<close>

lemma walk_at_signed:
  assumes "walk_at C k i = Inr w" "i < length (kel_events k)"
  shows "verify_threshold C (kel_events k ! i) (wk_keys w) (wk_threshold w) = Inr ()"
proof (cases i)
  case 0
  with assms walk_at_0 verify_inception_Inr show ?thesis by metis
next
  case (Suc j)
  with assms show ?thesis by (auto simp: walk_at_Suc dest: walk_step_signed)
qed

lemma kel_linked:
  assumes "kel_verify C k = Inr st" "i < length (kel_events k)"
  shows "ev_scid (kel_events k ! i) = kel_scid k" "ev_sn (kel_events k ! i) = of_nat i"
    "ev_prior (kel_events k ! i) = (if i = 0 then [] else event_digest C (kel_events k ! (i - 1)))"
proof -
  obtain w where w: "walk_at C k i = Inr w" using kel_verify_walk [OF assms] .
  have "ev_scid (kel_events k ! i) = kel_scid k \<and> ev_sn (kel_events k ! i) = of_nat i
    \<and> ev_prior (kel_events k ! i) = (if i = 0 then [] else event_digest C (kel_events k ! (i - 1)))"
  proof (cases i)
    case 0
    with w walk_at_0 verify_inception_Inr show ?thesis by fastforce
  next
    case (Suc j)
    with w assms(2) obtain w0 where "walk_at C k j = Inr w0"
        "walk_step C (kel_scid k) (Suc j) w0 (kel_events k ! Suc j) = Inr w"
      by (auto simp: walk_at_Suc)
    with Suc assms(2) walk_at_digest [of C k j w0] walk_step_linked show ?thesis by fastforce
  qed
  then show "ev_scid (kel_events k ! i) = kel_scid k" "ev_sn (kel_events k ! i) = of_nat i"
    "ev_prior (kel_events k ! i) = (if i = 0 then [] else event_digest C (kel_events k ! (i - 1)))"
    by auto
qed

lemma kel_ok_event: "kel_ok C k \<Longrightarrow> i < length (kel_events k) \<Longrightarrow> event_ok C (kel_events k ! i)"
  by (simp add: kel_ok_def vec_ok_def list_all_length wire_event_ok_def)

lemma kel_ok_length: "kel_ok C k \<Longrightarrow> length (kel_events k) \<le> 1024"
  by (simp add: kel_ok_def vec_ok_def MAX_KEL_EVENTS_def)

lemma of_nat_u64_inj:
  assumes "i < 2 ^ 64" "j < 2 ^ 64" "(of_nat i :: u64) = of_nat j"
  shows "i = j"
proof -
  from assms(3) have "unat (of_nat i :: u64) = unat (of_nat j :: u64)" by simp
  with assms(1,2) show ?thesis by (simp add: unat_of_nat)
qed

lemma kel_verify_snoc:
  assumes "kel_verify C k = Inr st"
  shows "\<exists>w. walk_at C k (length (kel_events k) - 1) = Inr w
    \<and> walk_state (length (kel_events k) - 1) w = st
    \<and> wk_digest w = event_digest C (last (kel_events k))
    \<and> kel_verify C (k\<lparr>kel_events := kel_events k @ [ev]\<rparr>)
        = andThen (walk_step C (kel_scid k) (length (kel_events k)) w ev)
            (\<lambda>w'. Inr (walk_state (length (kel_events k)) w'))"
proof -
  obtain first rest where e: "kel_events k = first # rest"
    using kel_verify_nonempty [OF assms] by (cases "kel_events k") auto
  from assms obtain w where w: "walk_at C k (length (kel_events k) - 1) = Inr w"
      "walk_state (length (kel_events k) - 1) w = st"
    by (auto simp: kel_verify_def verify_through_walk_at)
  moreover have "wk_digest w = event_digest C (last (kel_events k))"
    using walk_at_digest [OF w(1)] e by (simp add: last_conv_nth)
  moreover have "kel_verify C (k\<lparr>kel_events := kel_events k @ [ev]\<rparr>)
      = andThen (walk_step C (kel_scid k) (length (kel_events k)) w ev)
          (\<lambda>w'. Inr (walk_state (length (kel_events k)) w'))"
    using w(1) by (auto simp: kel_verify_def verify_through_def walk_at_def e walk_append andThen_def
        split: sum.splits)
  ultimately show ?thesis by blast
qed

section \<open>Delegation as a specification\<close>

text \<open>
  What the seals of a log grant to one device: the capabilities of the last \<open>Delegate\<close> that no
  \<open>Revoke\<close> follows. The accumulating loop of \<open>delegated_devices\<close> implements it for every device.
\<close>

fun grant_step :: "bytes \<Rightarrow> Capabilities option \<Rightarrow> Seal \<Rightarrow> Capabilities option" where
  "grant_step d g (Delegate x c) = (if x = d then Some c else g)"
| "grant_step d g (Revoke x) = (if x = d then None else g)"

definition device_grant :: "bytes \<Rightarrow> Seal list \<Rightarrow> Capabilities option" where
  "device_grant d seals = foldl (grant_step d) None seals"

lemma map_of_filter_key: "map_of (filter (\<lambda>(k, _). k \<noteq> d) m) x = (if x = d then None else map_of m x)"
  by (induction m) auto

lemma map_of_snoc_new:
  "k \<notin> fst ` set m \<Longrightarrow> map_of (m @ [(k, v)]) x = (if x = k then Some v else map_of m x)"
  by (induction m) (auto simp del: map_of_append)

lemma apply_seal_map_of: "map_of (apply_seal acc s) d = grant_step d (map_of acc d) s"
  by (cases s) (auto simp: update_conv' map_of_filter_key map_of_snoc_new simp del: map_of_append)

lemma foldl_apply_seal_map_of:
  "map_of (foldl apply_seal acc seals) d = foldl (grant_step d) (map_of acc d) seals"
  by (induction seals arbitrary: acc) (simp_all add: apply_seal_map_of)

lemma find_parsed:
  assumes "did_parse C d = Inr d"
  shows "map_option snd (List.find (\<lambda>(dev, _). dev = d)
      (concat (map (\<lambda>(x, c). case did_parse C x of Inr did \<Rightarrow> [(did, c)] | Inl _ \<Rightarrow> []) acc)))
    = map_of acc d"
  by (induction acc) (auto simp: assms did_parse_iff split: sum.splits)

lemma delegated_devices_grant:
  "did_parse C d = Inr d \<Longrightarrow>
     map_option snd (List.find (\<lambda>(dev, _). dev = d) (delegated_devices C k))
       = device_grant d (kel_seals k)"
  by (simp add: delegated_devices_def find_parsed foldl_apply_seal_map_of device_grant_def)

lemma kel_verify_did: "kel_verify C k = Inr st \<Longrightarrow> did_parse C (kel_did k) = Inr (kel_did k)"
proof -
  assume v: "kel_verify C k = Inr st"
  then have "0 < length (kel_events k)" using kel_verify_nonempty by blast
  from kel_verify_walk [OF v this] obtain w where "walk_at C k 0 = Inr w" .
  from walk_at_0 [OF this] verify_inception_Inr
  have "is_ok (did_parse C (kel_did k))" by (fastforce simp: kel_did_def from_scid_unchecked_def)
  then show ?thesis by (auto simp: is_ok_iff did_parse_iff)
qed

section \<open>Properties\<close>

lemma key_state_at_cut:
  assumes "kel_verify C k = Inr st" "length (kel_events k) \<le> 2 ^ 64" "sn \<le> ks_sn st"
  shows "\<exists>st'. key_state_at C k sn = Inr st' \<and> ks_sn st' = sn
    \<and> kel_verify C (k\<lparr>kel_events := take (Suc (unat sn)) (kel_events k)\<rparr>) = Inr st'"
proof -
  have "unat (ks_sn st) < length (kel_events k)"
    using assms(2) kel_verify_nonempty [OF assms(1)] kel_verify_sn [OF assms(1)]
    by (simp add: unat_of_nat)
  with assms(3) have n: "unat sn < length (kel_events k)" by (simp add: word_le_nat_alt)
  then obtain w where w: "walk_at C k (unat sn) = Inr w" using kel_verify_walk [OF assms(1)] by blast
  obtain first rest where e: "kel_events k = first # rest"
    using n by (cases "kel_events k") auto
  let ?k' = "k\<lparr>kel_events := take (Suc (unat sn)) (kel_events k)\<rparr>"
  have "walk_at C ?k' (unat sn) = Inr w" using w by (simp add: walk_at_def e)
  moreover have "length (kel_events ?k') - 1 = unat sn" using n by simp
  ultimately have "kel_verify C ?k' = Inr (walk_state (unat sn) w)"
    by (simp add: kel_verify_def verify_through_walk_at)
  moreover have "key_state_at C k sn = Inr (walk_state (unat sn) w)"
    using assms(1,3) w by (simp add: key_state_at_def verify_through_walk_at not_less)
  ultimately show ?thesis by (simp add: walk_state_def)
qed

text \<open>
  Property (C27): every prefix of a verified log is the history it was. When the whole log verifies,
  the key state at any sequence number up to the head exists, carries that number, and is the one
  the log cut off there verifies to.
\<close>

theorem key_state_at_history:
  assumes "kel_verify C k = Inr st" "length (kel_events k) \<le> 2 ^ 64" "sn \<le> ks_sn st"
  shows "\<exists>st'. key_state_at C k sn = Inr st' \<and> ks_sn st' = sn
    \<and> kel_verify C (k\<lparr>kel_events := take (Suc (unat sn)) (kel_events k)\<rparr>) = Inr st'"
  by (rule key_state_at_cut [OF assms])

lemma kel_equal_below:
  assumes v: "kel_verify C k = Inr st" "kel_verify C k' = Inr st'" and d: "digests_ok C"
    and ok: "kel_ok C k" "kel_ok C k'"
    and nc: "\<And>i j. i < length (kel_events k) \<Longrightarrow> j < length (kel_events k') \<Longrightarrow>
      \<not> collides C (full_bytes (kel_events k ! i)) (full_bytes (kel_events k' ! j))"
    and top: "n < length (kel_events k)" "n < length (kel_events k')"
      "kel_events k ! n = kel_events k' ! n"
  shows "m \<le> n \<Longrightarrow> kel_events k ! (n - m) = kel_events k' ! (n - m)"
proof (induction m)
  case (Suc m)
  let ?i = "n - m"
  from Suc.prems have i: "?i \<noteq> 0" "n - Suc m = ?i - 1" "?i \<le> n" by auto
  from Suc have "kel_events k ! ?i = kel_events k' ! ?i" by simp
  with kel_linked(3) [OF v(1), of ?i] kel_linked(3) [OF v(2), of ?i] i top
  have "event_digest C (kel_events k ! (?i - 1)) = event_digest C (kel_events k' ! (?i - 1))"
    by simp
  moreover have "?i - 1 < length (kel_events k)" "?i - 1 < length (kel_events k')"
    using i top by auto
  ultimately show ?case
    using event_digest_eq [OF d kel_ok_event [OF ok(1)] kel_ok_event [OF ok(2)]] nc i(2) by metis
qed (simp add: top)

text \<open>
  Property (C14): the head digest commits to the whole history. Two decodable logs that verify and
  whose head digests are equal are the same log, signatures included, unless two of their events
  exhibit a collision of BLAKE3.
\<close>

theorem head_digest_commits_history:
  assumes "digests_ok C" "kel_ok C k" "kel_ok C k'"
    "kel_verify C k = Inr st" "kel_verify C k' = Inr st'" "head_digest C k = head_digest C k'"
  shows "k = k' \<or> (\<exists>i < length (kel_events k). \<exists>j < length (kel_events k').
    collides C (full_bytes (kel_events k ! i)) (full_bytes (kel_events k' ! j)))"
proof (rule disjCI)
  assume "\<not> (\<exists>i < length (kel_events k). \<exists>j < length (kel_events k').
    collides C (full_bytes (kel_events k ! i)) (full_bytes (kel_events k' ! j)))"
  then have nc: "\<And>i j. i < length (kel_events k) \<Longrightarrow> j < length (kel_events k') \<Longrightarrow>
      \<not> collides C (full_bytes (kel_events k ! i)) (full_bytes (kel_events k' ! j))" by blast
  let ?n = "length (kel_events k) - 1" and ?n' = "length (kel_events k') - 1"
  have ne: "kel_events k \<noteq> []" "kel_events k' \<noteq> []"
    using assms(4,5) kel_verify_nonempty by auto
  then have n: "?n < length (kel_events k)" "?n' < length (kel_events k')" by simp_all
  have "event_digest C (kel_events k ! ?n) = event_digest C (kel_events k' ! ?n')"
    using assms(6) ne by (simp add: head_digest_def last_conv_nth)
  then have top: "kel_events k ! ?n = kel_events k' ! ?n'"
    using event_digest_eq [OF assms(1) kel_ok_event [OF assms(2) n(1)] kel_ok_event [OF assms(3) n(2)]]
      nc n by blast
  have "(of_nat ?n :: u64) = of_nat ?n'"
    using top kel_linked(2) [OF assms(4) n(1)] kel_linked(2) [OF assms(5) n(2)] by simp
  then have "?n = ?n'"
    using kel_ok_length [OF assms(2)] kel_ok_length [OF assms(3)] by (intro of_nat_u64_inj) auto
  moreover have "0 < length (kel_events k)" "0 < length (kel_events k')" using ne by simp_all
  ultimately have len: "length (kel_events k) = length (kel_events k')" by linarith
  have "kel_events k ! i = kel_events k' ! i" if "i < length (kel_events k)" for i
    using kel_equal_below [OF assms(4,5,1,2,3) nc, of ?n "?n - i"] that top len n by auto
  with len have "kel_events k = kel_events k'" by (simp add: list_eq_iff_nth_eq)
  moreover have "kel_scid k = kel_scid k'"
    using top kel_linked(1) [OF assms(4) n(1)] kel_linked(1) [OF assms(5) n(2)] by simp
  ultimately show "k = k'" by simp
qed

text \<open>
  Property (C25): the identifier certifies its inception. Two decodable logs that verify under the
  same identifier have the same inception event up to its signatures, unless the two inceptions
  exhibit a collision of BLAKE3.
\<close>

theorem scid_certifies_inception:
  assumes "digests_ok C" "bs58_ok C" "kel_ok C k" "kel_ok C k'"
    "kel_verify C k = Inr st" "kel_verify C k' = Inr st'" "kel_scid k = kel_scid k'"
  shows "unsigned_event (kel_events k ! 0) = unsigned_event (kel_events k' ! 0)
    \<or> collides C (event_encode ScidInput (kel_events k ! 0)) (event_encode ScidInput (kel_events k' ! 0))"
proof -
  have len: "0 < length (kel_events k)" "0 < length (kel_events k')"
    using kel_verify_nonempty assms(5,6) by blast+
  obtain w w' where "walk_at C k 0 = Inr w" "walk_at C k' 0 = Inr w'"
    using kel_verify_walk [OF assms(5) len(1)] kel_verify_walk [OF assms(6) len(2)] by metis
  then have d: "derive_scid C (kel_events k ! 0) = kel_scid k"
      "derive_scid C (kel_events k' ! 0) = kel_scid k'"
    using walk_at_0 verify_inception_Inr by metis+
  from derive_scid_eq [OF assms(1,2) kel_ok_event [OF assms(3) len(1)] kel_ok_event [OF assms(4) len(2)]]
  have "scid_view (kel_events k ! 0) = scid_view (kel_events k' ! 0)
    \<or> collides C (event_encode ScidInput (kel_events k ! 0)) (event_encode ScidInput (kel_events k' ! 0))"
    using d assms(7) by simp
  moreover have "ev_scid (kel_events k ! 0) = ev_scid (kel_events k' ! 0)"
    using kel_linked(1) [OF assms(5) len(1)] kel_linked(1) [OF assms(6) len(2)] assms(7) by simp
  ultimately show ?thesis
    by (cases "kel_events k ! 0"; cases "kel_events k' ! 0")
       (auto simp: scid_view_def unsigned_event_def)
qed

text \<open>
  Property (C24): pre-rotation. Two decodable, verifying logs that share their first \<open>n\<close> events and
  both rotate at position \<open>n\<close> rotate to the same keys with the same threshold, unless two revealed
  keys exhibit a collision of BLAKE3. A holder of the current keys alone cannot rotate elsewhere.
\<close>

theorem prerotation_unique:
  assumes "digests_ok C" "kel_ok C k" "kel_ok C k'"
    "kel_verify C k = Inr st" "kel_verify C k' = Inr st'" "kel_scid k = kel_scid k'"
    "0 < n" "n < length (kel_events k)" "n < length (kel_events k')"
    "take n (kel_events k) = take n (kel_events k')"
    "ev_kind (kel_events k ! n) = Rotation est" "ev_kind (kel_events k' ! n) = Rotation est'"
  shows "(est_keys est = est_keys est' \<and> est_threshold est = est_threshold est')
    \<or> (\<exists>x \<in> set (est_keys est). \<exists>y \<in> set (est_keys est').
        collides C (key_fingerprint x) (key_fingerprint y))"
proof (rule disjCI)
  assume nc: "\<not> (\<exists>x \<in> set (est_keys est). \<exists>y \<in> set (est_keys est').
        collides C (key_fingerprint x) (key_fingerprint y))"
  obtain m where m: "n = Suc m" using assms(7) by (cases n) auto
  obtain f r r' where e: "kel_events k = f # r" "kel_events k' = f # r'" "take m r = take m r'"
    using assms(8-10) m by (cases "kel_events k"; cases "kel_events k'") auto
  have same: "walk_at C k m = walk_at C k' m" by (simp add: walk_at_def e assms(6))
  obtain w1 w2 where "walk_at C k n = Inr w1" "walk_at C k' n = Inr w2"
    using kel_verify_walk [OF assms(4,8)] kel_verify_walk [OF assms(5,9)] by metis
  then obtain w where
      w: "walk_step C (kel_scid k) n w (kel_events k ! n) = Inr w1"
         "walk_step C (kel_scid k') n w (kel_events k' ! n) = Inr w2"
    using assms(8,9) same by (auto simp: m walk_at_Suc)
  have cm: "map (key_commitment C) (est_keys est) = map (key_commitment C) (est_keys est')"
      "est_threshold est = est_threshold est'"
    using walk_step_rotation [OF w(1) assms(11)] walk_step_rotation [OF w(2) assms(12)] by auto
  have wf: "\<forall>x \<in> set (est_keys est). vk_wf C x" "\<forall>x \<in> set (est_keys est'). vk_wf C x"
    using kel_ok_event [OF assms(2,8)] kel_ok_event [OF assms(3,9)] assms(11,12)
    by (auto simp: event_ok_def est_ok_def vec_ok_def key_ok_def list_all_iff)
  have "est_keys est ! i = est_keys est' ! i" if "i < length (est_keys est)" for i
  proof -
    have len: "i < length (est_keys est')" using cm(1) that map_eq_imp_length_eq by metis
    have "key_commitment C (est_keys est ! i) = key_commitment C (est_keys est' ! i)"
      using cm(1) that len by (metis nth_map)
    with key_commitment_eq [OF assms(1)] wf nc that len show ?thesis by (meson nth_mem)
  qed
  with cm show "est_keys est = est_keys est' \<and> est_threshold est = est_threshold est'"
    using map_eq_imp_length_eq [OF cm(1)] by (simp add: list_eq_iff_nth_eq)
qed

text \<open>
  Property (C26): every event of a verified log is authorised. At every sequence number the event
  carries at least the threshold of signatures, by distinct keys of the key state in force after
  it, over its own signing bytes, and the threshold is not zero.
\<close>

theorem every_event_authorised:
  assumes "kel_verify C k = Inr st" "i < length (kel_events k)" "verify_through C k i = Inr sti"
    "length (ks_keys sti) < 2 ^ 32"
  shows "ks_threshold sti \<noteq> 0 \<and> unat (ks_threshold sti)
    \<le> card (valid_signers C (signing_bytes (kel_events k ! i)) (ks_keys sti)
        (ev_signatures (kel_events k ! i)))"
proof -
  obtain w where w: "walk_at C k i = Inr w" using kel_verify_walk [OF assms(1,2)] .
  with assms(3) have "sti = walk_state i w" by (simp add: verify_through_walk_at)
  then have "ks_keys sti = wk_keys w" "ks_threshold sti = wk_threshold w"
    by (simp_all add: walk_state_def)
  with walk_at_signed [OF w assms(2)] assms(4) show ?thesis by (simp add: verify_threshold_iff)
qed

text \<open>
  Property (C28): delegation is mutual and the last seal decides. A device is accepted with
  capabilities \<open>caps\<close> exactly when both logs verify, the root is not itself delegated, the device's
  inception names the root, and the last seal of the root's log about the device grants \<open>caps\<close>.
\<close>

theorem verify_delegation_iff:
  "verify_delegation C root device = Inr caps \<longleftrightarrow>
     is_ok (kel_verify C root) \<and> is_ok (kel_verify C device) \<and> kel_delegator C root = None
     \<and> (\<exists>d. kel_delegator C device = Some d \<and> did_scid d = kel_scid root)
     \<and> device_grant (kel_did device) (kel_seals root) = Some caps"
  by (cases "kel_verify C device")
     (auto simp: verify_delegation_def is_ok_iff ok_or_def delegated_devices_grant kel_verify_did
       split: option.splits)

text \<open>
  Freshness pins never go back. Checking a log never lowers a pin of any identity;
  an accepted log leaves its own sequence number pinned, and it was not below the pin before.
\<close>

lemma pins_monotone:
  assumes "check_and_pin C pins k = (res, pins')"
  shows "(\<forall>s p. map_of pins s = Some p \<longrightarrow> (\<exists>p'. map_of pins' s = Some p' \<and> p \<le> p'))
    \<and> (\<forall>sn. res = Inr sn \<longrightarrow> map_of pins' (kel_scid k) = Some sn
        \<and> (\<forall>p. map_of pins (kel_scid k) = Some p \<longrightarrow> p \<le> sn))
    \<and> (is_ok res \<or> pins' = pins)"
  using assms
  by (auto simp: check_and_pin_def update_conv' is_ok_iff max_def split: sum.splits option.splits if_splits)

end
