(* ===== verification/Controller.thy ===== *)
theory Controller
  imports Kel
begin

text \<open>
  The secret-holding half of an identity (controller.rs): inception, rotation, witness
  appointment, recovery, restore, interactions and device seals. Operating-system entropy is an
  argument: a rotation takes the freshly generated next keys.
\<close>

section \<open>Results that can also be a panic\<close>

type_synonym 'a ctrl = "IdentityError fault + 'a"

definition returned :: "IdentityError + 'a \<Rightarrow> 'a ctrl" where
  "returned r = map_err Fail r"

lemma returned_simps [simp]: "returned (Inl e) = Inl (Fail e)" "returned (Inr x) = Inr x"
  "returned r = Inr y \<longleftrightarrow> r = Inr y"
  by (simp_all add: returned_def)

section \<open>State\<close>

record Controller =
  ct_scid :: bytes
  ct_suite :: SignatureSuite
  ct_current :: "SigningKey list"
  ct_current_threshold :: u32
  ct_next :: "SigningKey list"
  ct_next_threshold :: u32
  ct_delegator :: "Did option"
  ct_events :: "Event list"

definition ctrl_kel :: "Controller \<Rightarrow> Kel" where
  "ctrl_kel c = \<lparr>kel_scid = ct_scid c, kel_events = ct_events c\<rparr>"

definition ctrl_did :: "Controller \<Rightarrow> Did" where
  "ctrl_did c = from_scid_unchecked (ct_scid c)"

definition key_state :: "crypto \<Rightarrow> Controller \<Rightarrow> KeyState" where
  "key_state C c =
     \<lparr>ks_keys = map (verifying_key C) (ct_current c), ks_threshold = ct_current_threshold c,
      ks_sn = of_nat (length (ct_events c)) - 1,
      ks_next_commitments = map (\<lambda>k. key_commitment C (verifying_key C k)) (ct_next c),
      ks_next_threshold = ct_next_threshold c\<rparr>"

section \<open>Signing\<close>

definition sign_all :: "crypto \<Rightarrow> SigningKey list \<Rightarrow> bytes \<Rightarrow> IndexedSig list ctrl" where
  "sign_all C signers msg =
     (case those (map (\<lambda>sk. sk_sign C sk msg) signers) of
        None \<Rightarrow> Inl Panic
      | Some ss \<Rightarrow> Inr (map (\<lambda>(i, s). \<lparr>is_index = of_nat i, is_signature = s\<rparr>) (enumerate 0 ss)))"

definition sign_event :: "crypto \<Rightarrow> Event \<Rightarrow> SigningKey list \<Rightarrow> Event ctrl" where
  "sign_event C event signers =
     andThen (sign_all C signers (signing_bytes event)) (\<lambda>sigs.
       Inr (event\<lparr>ev_signatures := sigs\<rparr>))"

definition sign_message :: "crypto \<Rightarrow> Controller \<Rightarrow> bytes \<Rightarrow> IndexedSig list ctrl" where
  "sign_message C c msg = sign_all C (ct_current c) msg"

section \<open>Inception\<close>

definition establish ::
  "crypto \<Rightarrow> SigningKey list \<Rightarrow> u32 \<Rightarrow> SigningKey list \<Rightarrow> u32 \<Rightarrow> Did list \<Rightarrow> u32 \<Rightarrow> Establishment" where
  "establish C keys threshold nxt next_threshold witnesses witness_threshold =
     \<lparr>est_keys = map (verifying_key C) keys, est_threshold = threshold,
      est_next = map (\<lambda>k. key_commitment C (verifying_key C k)) nxt,
      est_next_threshold = next_threshold, est_witnesses = witnesses,
      est_witness_threshold = witness_threshold\<rparr>"

definition incept_inner ::
  "crypto \<Rightarrow> SigningKey list \<Rightarrow> u32 \<Rightarrow> SigningKey list \<Rightarrow> u32 \<Rightarrow> Did option \<Rightarrow> Controller ctrl" where
  "incept_inner C current current_threshold nxt next_threshold delegator =
     andThen (ensure (current \<noteq> [] \<and> nxt \<noteq> []) (Fail EmptyKeySet)) (\<lambda>_.
     let suite = sk_suite (hd current);
         est = establish C current current_threshold nxt next_threshold [] 0
     in andThen (returned (validate_establishment est)) (\<lambda>_.
        let kind = (case delegator of None \<Rightarrow> Inception est | Some d \<Rightarrow> DelegatedInception est d);
            icp = \<lparr>ev_suite = suite, ev_scid = [], ev_sn = 0, ev_prior = [], ev_kind = kind,
                   ev_signatures = []\<rparr>;
            scid = derive_scid C icp
        in andThen (sign_event C (icp\<lparr>ev_scid := scid\<rparr>) current) (\<lambda>icp.
           Inr \<lparr>ct_scid = scid, ct_suite = suite, ct_current = current,
                ct_current_threshold = current_threshold, ct_next = nxt,
                ct_next_threshold = next_threshold, ct_delegator = delegator,
                ct_events = [icp]\<rparr>)))"

definition incept ::
  "crypto \<Rightarrow> SigningKey list \<Rightarrow> u32 \<Rightarrow> SigningKey list \<Rightarrow> u32 \<Rightarrow> Controller ctrl" where
  "incept C current current_threshold nxt next_threshold =
     incept_inner C current current_threshold nxt next_threshold None"

definition incept_device ::
  "crypto \<Rightarrow> Did \<Rightarrow> SigningKey list \<Rightarrow> u32 \<Rightarrow> SigningKey list \<Rightarrow> u32 \<Rightarrow> Controller ctrl" where
  "incept_device C delegator current current_threshold nxt next_threshold =
     incept_inner C current current_threshold nxt next_threshold (Some delegator)"

definition incept_single_from_seeds :: "crypto \<Rightarrow> bytes \<Rightarrow> bytes \<Rightarrow> Controller ctrl" where
  "incept_single_from_seeds C current_seed next_seed =
     incept C [from_seed current_seed] 1 [from_seed next_seed] 1"

definition incept_device_single_from_seeds :: "crypto \<Rightarrow> Did \<Rightarrow> bytes \<Rightarrow> bytes \<Rightarrow> Controller ctrl" where
  "incept_device_single_from_seeds C delegator current_seed next_seed =
     incept_device C delegator [from_seed current_seed] 1 [from_seed next_seed] 1"

section \<open>Appending events\<close>

definition append_event ::
  "crypto \<Rightarrow> Controller \<Rightarrow> EventKind \<Rightarrow> SigningKey list \<Rightarrow> Controller ctrl" where
  "append_event C c kind signers =
     (if ct_events c = [] then Inl Panic
      else andThen (sign_event C
          \<lparr>ev_suite = ct_suite c, ev_scid = ct_scid c, ev_sn = of_nat (length (ct_events c)),
           ev_prior = event_digest C (last (ct_events c)), ev_kind = kind, ev_signatures = []\<rparr>
          signers) (\<lambda>ev. Inr (c\<lparr>ct_events := ct_events c @ [ev]\<rparr>)))"

definition rotate_with_next_and_threshold ::
  "crypto \<Rightarrow> Controller \<Rightarrow> SigningKey list \<Rightarrow> u32 \<Rightarrow> Controller ctrl" where
  "rotate_with_next_and_threshold C c new_next new_next_threshold =
     andThen (ensure (new_next \<noteq> []) (Fail EmptyKeySet)) (\<lambda>_.
     let est = establish C (ct_next c) (ct_next_threshold c) new_next new_next_threshold [] 0
     in andThen (returned (validate_establishment est)) (\<lambda>_.
        andThen (append_event C c (Rotation est) (ct_next c)) (\<lambda>c'.
          Inr (c'\<lparr>ct_current := ct_next c, ct_current_threshold := ct_next_threshold c,
                  ct_next := new_next, ct_next_threshold := new_next_threshold\<rparr>))))"

definition rotate_with_next :: "crypto \<Rightarrow> Controller \<Rightarrow> SigningKey list \<Rightarrow> Controller ctrl" where
  "rotate_with_next C c new_next =
     rotate_with_next_and_threshold C c new_next (ct_next_threshold c)"

text \<open>\<open>fresh\<close> is what \<open>generate_like\<close> returned: keys from entropy, or the entropy error.\<close>

definition rotate :: "crypto \<Rightarrow> Controller \<Rightarrow> CryptoError + SigningKey list \<Rightarrow> Controller ctrl" where
  "rotate C c fresh =
     andThen (returned (map_err CryptoErr fresh)) (\<lambda>new_next.
       rotate_with_next_and_threshold C c new_next (ct_next_threshold c))"

definition rotate_appointing ::
  "crypto \<Rightarrow> Controller \<Rightarrow> CryptoError + SigningKey list \<Rightarrow> Did list \<Rightarrow> u32 \<Rightarrow> Controller ctrl" where
  "rotate_appointing C c fresh witnesses threshold =
     andThen (returned (map_err CryptoErr fresh)) (\<lambda>new_next.
     let est = establish C (ct_next c) (ct_next_threshold c) new_next (ct_next_threshold c)
           witnesses threshold
     in andThen (returned (validate_establishment est)) (\<lambda>_.
        andThen (append_event C c (Rotation est) (ct_next c)) (\<lambda>c'.
          Inr (c'\<lparr>ct_current := ct_next c, ct_current_threshold := ct_next_threshold c,
                  ct_next := new_next\<rparr>))))"

definition appoint_witnesses ::
  "crypto \<Rightarrow> Controller \<Rightarrow> CryptoError + SigningKey list \<Rightarrow> Did list \<Rightarrow> u32 \<Rightarrow> Controller ctrl" where
  "appoint_witnesses C c fresh witnesses threshold = rotate_appointing C c fresh witnesses threshold"

definition retire_witnesses ::
  "crypto \<Rightarrow> Controller \<Rightarrow> CryptoError + SigningKey list \<Rightarrow> Controller ctrl" where
  "retire_witnesses C c fresh = rotate_appointing C c fresh [] 0"

definition interact :: "crypto \<Rightarrow> Controller \<Rightarrow> bytes list \<Rightarrow> Controller ctrl" where
  "interact C c anchors =
     andThen (ensure (length anchors \<le> MAX_ANCHORS)
       (Fail (TooManyItems ''anchors'' MAX_ANCHORS (length anchors)))) (\<lambda>_.
       append_event C c (Interaction anchors) (ct_current c))"

fun seal_device :: "Seal \<Rightarrow> bytes" where
  "seal_device (Delegate device _) = device"
| "seal_device (Revoke device) = device"

fun check_seals :: "crypto \<Rightarrow> Seal list \<Rightarrow> IdentityError + unit" where
  "check_seals C [] = Inr ()"
| "check_seals C (s # ss) = andThen (did_parse C (seal_device s)) (\<lambda>_. check_seals C ss)"

definition seal :: "crypto \<Rightarrow> Controller \<Rightarrow> Seal list \<Rightarrow> Controller ctrl" where
  "seal C c seals =
     andThen (ensure (length seals \<le> MAX_SEALS)
       (Fail (TooManyItems ''seals'' MAX_SEALS (length seals)))) (\<lambda>_.
     andThen (returned (check_seals C seals)) (\<lambda>_.
       append_event C c (SealEvent seals) (ct_current c)))"

definition delegate_device :: "crypto \<Rightarrow> Controller \<Rightarrow> Did \<Rightarrow> Capabilities \<Rightarrow> Controller ctrl" where
  "delegate_device C c device caps = seal C c [Delegate device caps]"

definition revoke_device :: "crypto \<Rightarrow> Controller \<Rightarrow> Did \<Rightarrow> Controller ctrl" where
  "revoke_device C c device = seal C c [Revoke device]"

definition delegate_device_tier :: "crypto \<Rightarrow> Controller \<Rightarrow> Did \<Rightarrow> DeviceTier \<Rightarrow> Controller ctrl" where
  "delegate_device_tier C c device tier = delegate_device C c device (for_tier tier)"

text \<open>
  \<open>chunks(MAX_SEALS)\<close>, sealed one after the other. An error keeps the events appended before
  it, so the result is paired with the controller as it stands.
\<close>

function seal_chunks :: "crypto \<Rightarrow> Controller \<Rightarrow> Seal list \<Rightarrow> unit ctrl \<times> Controller" where
  "seal_chunks C c seals =
     (if seals = [] then (Inr (), c)
      else case seal C c (take MAX_SEALS seals) of
        Inl e \<Rightarrow> (Inl e, c)
      | Inr c' \<Rightarrow> seal_chunks C c' (drop MAX_SEALS seals))"
  by auto
termination
  by (relation "measure (\<lambda>(_, _, seals). length seals)") (auto simp: MAX_SEALS_def)

declare seal_chunks.simps [simp del]

definition revoke_devices_except ::
  "crypto \<Rightarrow> Controller \<Rightarrow> Did list \<Rightarrow> unit ctrl \<times> Controller" where
  "revoke_devices_except C c keep =
     seal_chunks C c (map (\<lambda>(d, _). Revoke d)
       (filter (\<lambda>(d, _). d \<notin> set keep) (delegated_devices C (ctrl_kel c))))"

definition revoke_all_devices :: "crypto \<Rightarrow> Controller \<Rightarrow> unit ctrl \<times> Controller" where
  "revoke_all_devices C c = revoke_devices_except C c []"

section \<open>Recovery and restore\<close>

definition recover_from_kel ::
  "crypto \<Rightarrow> Kel \<Rightarrow> SigningKey list \<Rightarrow> SigningKey list \<Rightarrow> u32 \<Rightarrow> Controller ctrl" where
  "recover_from_kel C k recovered_next new_next new_next_threshold =
     andThen (ensure (recovered_next \<noteq> [] \<and> new_next \<noteq> []) (Fail EmptyKeySet)) (\<lambda>_.
     andThen (returned (kel_verify C k)) (\<lambda>st.
     andThen (ensure (length recovered_next = length (ks_next_commitments st))
       (Fail RecoveryKeysMismatch)) (\<lambda>_.
     andThen (ensure (list_all2 (\<lambda>sk c. key_commitment C (verifying_key C sk) = c)
         recovered_next (ks_next_commitments st)) (Fail RecoveryKeysMismatch)) (\<lambda>_.
     let ctrl = \<lparr>ct_scid = kel_scid k, ct_suite = sk_suite (hd recovered_next),
           ct_current = recovered_next, ct_current_threshold = ks_next_threshold st,
           ct_next = new_next, ct_next_threshold = new_next_threshold,
           ct_delegator = kel_delegator C k, ct_events = kel_events k\<rparr>;
         est = establish C recovered_next (ks_next_threshold st) new_next new_next_threshold [] 0
     in andThen (returned (validate_establishment est)) (\<lambda>_.
        andThen (append_event C ctrl (Rotation est) recovered_next) (\<lambda>ctrl.
        andThen (returned (kel_verify C (ctrl_kel ctrl))) (\<lambda>_. Inr ctrl)))))))"

definition restore ::
  "crypto \<Rightarrow> Kel \<Rightarrow> SigningKey list \<Rightarrow> SigningKey list \<Rightarrow> Controller ctrl" where
  "restore C k current nxt =
     andThen (ensure (current \<noteq> [] \<and> nxt \<noteq> []) (Fail EmptyKeySet)) (\<lambda>_.
     andThen (returned (kel_verify C k)) (\<lambda>st.
     andThen (ensure (map (verifying_key C) current = ks_keys st) (Fail RestoreKeysMismatch)) (\<lambda>_.
     andThen (ensure (map (\<lambda>sk. key_commitment C (verifying_key C sk)) nxt = ks_next_commitments st)
       (Fail RestoreKeysMismatch)) (\<lambda>_.
       Inr \<lparr>ct_scid = kel_scid k, ct_suite = sk_suite (hd current), ct_current = current,
            ct_current_threshold = ks_threshold st, ct_next = nxt,
            ct_next_threshold = ks_next_threshold st, ct_delegator = kel_delegator C k,
            ct_events = kel_events k\<rparr>))))"

section \<open>Signing with every key meets every threshold\<close>

definition is_ed :: "SigningKey \<Rightarrow> bool" where
  "is_ed k = (case sk_inner k of SK_Ed25519 _ \<Rightarrow> sk_suite k = Ed25519 | SK_MlDsa65 _ _ \<Rightarrow> False)"

definition ed_sig :: "crypto \<Rightarrow> bytes \<Rightarrow> SigningKey \<Rightarrow> Signature" where
  "ed_sig C msg k = the (sk_sign C k msg)"

lemma is_ed_from_seed [simp]: "is_ed (from_seed seed)"
  by (simp add: is_ed_def from_seed_def)

lemma is_ed_seed: "is_ed k \<Longrightarrow> \<exists>seed. k = from_seed seed"
  by (cases k) (auto simp: is_ed_def from_seed_def split: SecretKeyMaterial.splits)

lemma is_ed_sign:
  "ed25519_ok C \<Longrightarrow> is_ed k \<Longrightarrow>
     sk_sign C k msg = Some (ed_sig C msg k) \<and> sig_wf C (ed_sig C msg k)
       \<and> vk_wf C (verifying_key C k) \<and> vk_verify C (verifying_key C k) msg (ed_sig C msg k) = Inr ()"
  using ed25519_sign_verify is_ed_seed by (metis ed_sig_def option.sel)

lemma those_signs:
  "ed25519_ok C \<Longrightarrow> list_all is_ed ks \<Longrightarrow>
     those (map (\<lambda>sk. sk_sign C sk msg) ks) = Some (map (ed_sig C msg) ks)"
  by (induction ks) (simp_all add: is_ed_sign)

definition full_sigs :: "crypto \<Rightarrow> bytes \<Rightarrow> SigningKey list \<Rightarrow> IndexedSig list" where
  "full_sigs C msg ks =
     map (\<lambda>(i, s). \<lparr>is_index = of_nat i, is_signature = s\<rparr>) (enumerate 0 (map (ed_sig C msg) ks))"

lemma sign_all_full:
  "ed25519_ok C \<Longrightarrow> list_all is_ed ks \<Longrightarrow> sign_all C ks msg = Inr (full_sigs C msg ks)"
  by (simp add: sign_all_def those_signs full_sigs_def)

lemma set_full_sigs:
  "set (full_sigs C msg ks)
     = {\<lparr>is_index = of_nat i, is_signature = ed_sig C msg (ks ! i)\<rparr> | i. i < length ks}"
  by (force simp: full_sigs_def set_zip enumerate_eq_zip)

lemma full_sigs_valid:
  assumes "ed25519_ok C" "list_all is_ed ks" "length ks < 2 ^ 32"
  shows "valid_signers C msg (map (verifying_key C) ks) (full_sigs C msg ks)
    = key_fingerprint ` set (map (verifying_key C) ks)"
proof (intro subset_antisym valid_signers_sub subsetI)
  fix f assume "f \<in> key_fingerprint ` set (map (verifying_key C) ks)"
  then obtain i where i: "i < length ks" "f = key_fingerprint (verifying_key C (ks ! i))"
    by (auto simp: in_set_conv_nth)
  let ?s = "\<lparr>is_index = of_nat i :: u32, is_signature = ed_sig C msg (ks ! i)\<rparr>"
  have u: "unat (of_nat i :: u32) = i" using i assms(3) by (simp add: unat_of_nat)
  have "is_ed (ks ! i)" using assms(2) i(1) by (simp add: list_all_length)
  from is_ed_sign [OF assms(1) this, of msg] u i assms(3)
  show "f \<in> valid_signers C msg (map (verifying_key C) ks) (full_sigs C msg ks)"
    unfolding valid_signers_def
    by (intro CollectI exI [of _ ?s]) (auto simp: set_full_sigs is_ok_iff)
qed

lemma first_dup_iff: "first_dup seen xs \<longleftrightarrow> \<not> (distinct xs \<and> set xs \<inter> set seen = {})"
  by (induction seen xs rule: first_dup.induct) auto

lemma validate_establishmentD:
  assumes "validate_establishment est = Inr ()"
  shows "est_keys est \<noteq> []" "est_threshold est \<noteq> 0"
    "unat (est_threshold est) \<le> length (est_keys est)"
    "distinct (map key_fingerprint (est_keys est))"
    "est_next_threshold est \<noteq> 0" "est_next est \<noteq> []"
    "unat (est_next_threshold est) \<le> length (est_next est)"
  using assms by (auto simp: validate_establishment_def first_dup_iff split: if_splits)

lemma signing_bytes_sigs [simp]: "signing_bytes (e\<lparr>ev_signatures := s\<rparr>) = signing_bytes e"
  by (simp add: signing_bytes_def event_encode_def)

lemma full_sigs_threshold:
  assumes "ed25519_ok C" "list_all is_ed ks" "length ks < 2 ^ 32"
    "t \<noteq> 0" "unat t \<le> length ks" "distinct (map key_fingerprint (map (verifying_key C) ks))"
  shows "verify_threshold C (e\<lparr>ev_signatures := full_sigs C (signing_bytes e) ks\<rparr>)
    (map (verifying_key C) ks) t = Inr ()"
proof -
  have "card (key_fingerprint ` set (map (verifying_key C) ks)) = length ks"
    using distinct_card [OF assms(6)] by (simp add: image_image)
  with assms full_sigs_valid [OF assms(1-3)] show ?thesis by (simp add: verify_threshold_iff)
qed

lemma sign_event_full:
  "ed25519_ok C \<Longrightarrow> list_all is_ed ks \<Longrightarrow>
     sign_event C e ks = Inr (e\<lparr>ev_signatures := full_sigs C (signing_bytes e) ks\<rparr>)"
  by (simp add: sign_event_def sign_all_full)

section \<open>The controller invariant\<close>

definition ctrl_inv :: "crypto \<Rightarrow> Controller \<Rightarrow> bool" where
  "ctrl_inv C c =
     (kel_verify C (ctrl_kel c) = Inr (key_state C c)
      \<and> list_all is_ed (ct_current c) \<and> list_all is_ed (ct_next c)
      \<and> length (ct_current c) < 2 ^ 32 \<and> length (ct_next c) < 2 ^ 32
      \<and> ct_current_threshold c \<noteq> 0 \<and> unat (ct_current_threshold c) \<le> length (ct_current c)
      \<and> distinct (map key_fingerprint (map (verifying_key C) (ct_current c))))"

lemma ctrl_inv_events: "ctrl_inv C c \<Longrightarrow> ct_events c \<noteq> []"
  using kel_verify_nonempty by (fastforce simp: ctrl_inv_def ctrl_kel_def)

lemma derive_scid_views [simp]:
  "derive_scid C (e\<lparr>ev_scid := s\<rparr>) = derive_scid C e"
  "derive_scid C (e\<lparr>ev_signatures := g\<rparr>) = derive_scid C e"
  by (simp_all add: derive_scid_def event_encode_def)

lemma derive_scid_parses:
  assumes "digests_ok C" "bs58_ok C"
  shows "did_parse C (METHOD @ derive_scid C e) = Inr (METHOD @ derive_scid C e)"
proof -
  let ?m = "multihash_of C Blake3 (event_encode ScidInput e)"
  have "mb_encode C BASE58BTC (multihash_to_bytes ?m) = Inr (derive_scid C e)"
    by (simp add: derive_scid_def mb_encode_def)
  from mb_decode_encode [OF assms(2) this]
  have "validate_scid C (derive_scid C e) = Inr ()"
    using multihash_of_wf [OF assms(1)] by (auto simp: validate_scid_iff)
  then show ?thesis
    using did_parse_iff [of C "METHOD @ derive_scid C e"]
    by (simp add: from_scid_unchecked_def did_scid_def)
qed

lemma incept_inner_inv:
  assumes C: "ed25519_ok C" "digests_ok C" "bs58_ok C"
    and keys: "list_all is_ed cur" "list_all is_ed nxt" "length cur < 2 ^ 32" "length nxt < 2 ^ 32"
    and c: "incept_inner C cur ct nxt nt del = Inr c"
    and del: "\<And>d. del = Some d \<Longrightarrow> did_parse C d = Inr d \<and> did_scid d \<noteq> ct_scid c"
  shows "ctrl_inv C c"
proof -
  let ?est = "establish C cur ct nxt nt [] 0"
  let ?kind = "case del of None \<Rightarrow> Inception ?est | Some d \<Rightarrow> DelegatedInception ?est d"
  let ?icp = "\<lparr>ev_suite = sk_suite (hd cur), ev_scid = [], ev_sn = 0, ev_prior = [],
    ev_kind = ?kind, ev_signatures = []\<rparr>"
  let ?e = "?icp\<lparr>ev_scid := derive_scid C ?icp\<rparr>"
  let ?ev = "?e\<lparr>ev_signatures := full_sigs C (signing_bytes ?e) cur\<rparr>"
  obtain ev where ev: "ev = ?ev" by blast
  obtain S where S: "S = derive_scid C ?icp" by blast
  from c have v: "validate_establishment ?est = Inr ()" and cc: "c = \<lparr>ct_scid = S,
      ct_suite = sk_suite (hd cur), ct_current = cur, ct_current_threshold = ct, ct_next = nxt,
      ct_next_threshold = nt, ct_delegator = del, ct_events = [ev]\<rparr>"
    by (auto simp: incept_inner_def Let_def sign_event_full [OF C(1) keys(1)] ev S)
  have est: "est_keys ?est = map (verifying_key C) cur" "est_threshold ?est = ct"
    "est_next ?est = map (\<lambda>k. key_commitment C (verifying_key C k)) nxt" "est_next_threshold ?est = nt"
    by (simp_all add: establish_def)
  note D = validate_establishmentD [OF v, unfolded est]
  have thr: "verify_threshold C ev (map (verifying_key C) cur) ct = Inr ()"
    unfolding ev by (rule full_sigs_threshold [OF C(1) keys(1,3)]) (use D in simp_all)
  have "derive_scid C ev = S" unfolding ev S by (simp only: derive_scid_views)
  moreover have "ev_kind ev = ?kind" "ev_sn ev = 0" "ev_prior ev = []" "ev_scid ev = S"
    by (simp_all add: ev S)
  moreover have "did_parse C (METHOD @ S) = Inr (METHOD @ S)"
    unfolding S by (rule derive_scid_parses [OF C(2,3)])
  ultimately have "kel_verify C (ctrl_kel c) = Inr (key_state C c)"
    using v thr del
    by (cases del) (auto simp: kel_verify_def verify_through_def ctrl_kel_def cc verify_inception_def
        key_state_def walk_state_def est)
  with keys D show ?thesis by (simp add: ctrl_inv_def cc)
qed

lemma append_event_verify:
  assumes C: "ed25519_ok C" and ks: "list_all is_ed ks" "length ks < 2 ^ 32"
    and v: "kel_verify C (ctrl_kel c) = Inr st"
    and a: "append_event C c kind ks = Inr c'"
    and t: "t \<noteq> 0" "unat t \<le> length ks" "distinct (map key_fingerprint (map (verifying_key C) ks))"
    and kind: "(case kind of
        Rotation est \<Rightarrow> validate_establishment est = Inr () \<and> est_keys est = map (verifying_key C) ks
          \<and> est_threshold est = t \<and> ks_next_threshold st = t
          \<and> map (key_commitment C) (est_keys est) = ks_next_commitments st
      | Interaction _ \<Rightarrow> ks_keys st = map (verifying_key C) ks \<and> ks_threshold st = t
      | SealEvent _ \<Rightarrow> ks_keys st = map (verifying_key C) ks \<and> ks_threshold st = t
      | _ \<Rightarrow> False)"
  shows "\<exists>ev. c' = c\<lparr>ct_events := ct_events c @ [ev]\<rparr> \<and> ev_kind ev = kind
    \<and> kel_verify C (ctrl_kel c') = Inr (case kind of
        Rotation est \<Rightarrow> \<lparr>ks_keys = est_keys est, ks_threshold = est_threshold est,
          ks_sn = of_nat (length (ct_events c)), ks_next_commitments = est_next est,
          ks_next_threshold = est_next_threshold est\<rparr>
      | _ \<Rightarrow> st\<lparr>ks_sn := of_nat (length (ct_events c))\<rparr>)"
proof -
  let ?e = "\<lparr>ev_suite = ct_suite c, ev_scid = ct_scid c, ev_sn = of_nat (length (ct_events c)),
    ev_prior = event_digest C (last (ct_events c)), ev_kind = kind, ev_signatures = []\<rparr>"
  obtain ev where ev: "ev = ?e\<lparr>ev_signatures := full_sigs C (signing_bytes ?e) ks\<rparr>" by blast
  from a have c': "c' = c\<lparr>ct_events := ct_events c @ [ev]\<rparr>"
    by (auto simp: append_event_def sign_event_full [OF C ks(1)] ev split: if_splits)
  have thr: "verify_threshold C ev (map (verifying_key C) ks) t = Inr ()"
    unfolding ev by (rule full_sigs_threshold [OF C ks t])
  have f: "ev_scid ev = ct_scid c" "ev_sn ev = of_nat (length (ct_events c))"
    "ev_prior ev = event_digest C (last (ct_events c))" "ev_kind ev = kind"
    by (simp_all add: ev)
  have k: "kel_events (ctrl_kel c) = ct_events c" "kel_scid (ctrl_kel c) = ct_scid c"
    "(ctrl_kel c)\<lparr>kel_events := ct_events c @ [ev]\<rparr> = ctrl_kel c'"
    by (simp_all add: ctrl_kel_def c')
  from kel_verify_snoc [OF v, of ev] obtain w where
      w: "walk_state (length (ct_events c) - 1) w = st" "wk_digest w = event_digest C (last (ct_events c))"
    and snoc: "kel_verify C (ctrl_kel c') = andThen (walk_step C (ct_scid c) (length (ct_events c)) w ev)
      (\<lambda>w'. Inr (walk_state (length (ct_events c)) w'))"
    by (auto simp: k)
  have ws: "ks_keys st = wk_keys w" "ks_threshold st = wk_threshold w"
    "ks_next_commitments st = wk_next w" "ks_next_threshold st = wk_next_threshold w"
    using w(1) by (auto simp: walk_state_def)
  have "list_all2 (\<lambda>k c. key_commitment C k = c) (est_keys est) (wk_next w)
      \<and> length (est_keys est) = length (wk_next w)" if "kind = Rotation est" for est
  proof -
    from kind that ws have "wk_next w = map (key_commitment C) (est_keys est)" by auto
    then show ?thesis by (simp add: list_all2_map2 list.rel_refl)
  qed
  with kind thr ws have "kel_verify C (ctrl_kel c') = Inr (case kind of
        Rotation est \<Rightarrow> \<lparr>ks_keys = est_keys est, ks_threshold = est_threshold est,
          ks_sn = of_nat (length (ct_events c)), ks_next_commitments = est_next est,
          ks_next_threshold = est_next_threshold est\<rparr>
      | _ \<Rightarrow> st\<lparr>ks_sn := of_nat (length (ct_events c))\<rparr>)"
    unfolding snoc w(1) [symmetric]
    by (cases kind) (auto simp: walk_step_def f w(2) walk_state_def)
  with c' f(4) show ?thesis by blast
qed

text \<open>How the operations change the state, over the invariant.\<close>

lemma rotation_inv:
  assumes C: "ed25519_ok C" and inv: "ctrl_inv C c"
    and fresh: "list_all is_ed new_next" "length new_next < 2 ^ 32"
    and est: "est = establish C (ct_next c) (ct_next_threshold c) new_next nt ws wt"
    and v: "validate_establishment est = Inr ()"
    and a: "append_event C c (Rotation est) (ct_next c) = Inr c1"
    and c': "c' = c1\<lparr>ct_current := ct_next c, ct_current_threshold := ct_next_threshold c,
      ct_next := new_next, ct_next_threshold := nt\<rparr>"
  shows "ctrl_inv C c'"
proof -
  note D = validate_establishmentD [OF v]
  have e: "est_keys est = map (verifying_key C) (ct_next c)" "est_threshold est = ct_next_threshold c"
    "est_next est = map (\<lambda>k. key_commitment C (verifying_key C k)) new_next"
    "est_next_threshold est = nt"
    by (simp_all add: est establish_def)
  have kv: "kel_verify C (ctrl_kel c) = Inr (key_state C c)"
    and n: "list_all is_ed (ct_next c)" "length (ct_next c) < 2 ^ 32"
    using inv by (simp_all add: ctrl_inv_def)
  from append_event_verify [OF C n kv a, of "ct_next_threshold c"] D e v
  obtain ev where c1: "c1 = c\<lparr>ct_events := ct_events c @ [ev]\<rparr>"
    and k1: "kel_verify C (ctrl_kel c1) = Inr \<lparr>ks_keys = est_keys est,
      ks_threshold = est_threshold est, ks_sn = of_nat (length (ct_events c)),
      ks_next_commitments = est_next est, ks_next_threshold = est_next_threshold est\<rparr>"
    by (auto simp: key_state_def comp_def)
  have "ctrl_kel c' = ctrl_kel c1" by (simp add: c' ctrl_kel_def)
  with k1 have "kel_verify C (ctrl_kel c') = Inr (key_state C c')"
    by (simp add: key_state_def c' c1 e)
  with D e n fresh show ?thesis by (simp add: ctrl_inv_def c')
qed

lemma non_establishment_inv:
  assumes C: "ed25519_ok C" and inv: "ctrl_inv C c"
    and kind: "kind_establishment kind = None"
    and a: "append_event C c kind (ct_current c) = Inr c'"
  shows "ctrl_inv C c' \<and> (\<exists>ev. c' = c\<lparr>ct_events := ct_events c @ [ev]\<rparr> \<and> ev_kind ev = kind)"
proof -
  have kv: "kel_verify C (ctrl_kel c) = Inr (key_state C c)"
    and n: "list_all is_ed (ct_current c)" "length (ct_current c) < 2 ^ 32"
    and t: "ct_current_threshold c \<noteq> 0" "unat (ct_current_threshold c) \<le> length (ct_current c)"
      "distinct (map key_fingerprint (map (verifying_key C) (ct_current c)))"
    using inv by (simp_all add: ctrl_inv_def)
  from append_event_verify [OF C n kv a t] kind
  obtain ev where c': "c' = c\<lparr>ct_events := ct_events c @ [ev]\<rparr>" "ev_kind ev = kind"
    and k1: "kel_verify C (ctrl_kel c')
      = Inr ((key_state C c)\<lparr>ks_sn := of_nat (length (ct_events c))\<rparr>)"
    by (cases kind) (auto simp: key_state_def)
  then have "kel_verify C (ctrl_kel c') = Inr (key_state C c')" by (simp add: key_state_def)
  with inv c' show ?thesis by (auto simp: ctrl_inv_def)
qed

section \<open>Reachable controllers\<close>

text \<open>
  The controllers a program can hold: incepted or restored, then driven by the operations, with
  Ed25519 keys (the only suite \<open>sign\<close> accepts) and key sets that fit the index type.
\<close>

definition fresh_keys :: "SigningKey list \<Rightarrow> bool" where
  "fresh_keys ks = (list_all is_ed ks \<and> length ks < 2 ^ 32)"

inductive ctrl_reach :: "crypto \<Rightarrow> Controller \<Rightarrow> bool" for C where
  incept: "incept C cur ct nxt nt = Inr c \<Longrightarrow> fresh_keys cur \<Longrightarrow> fresh_keys nxt \<Longrightarrow> ctrl_reach C c"
| incept_device: "incept_device C d cur ct nxt nt = Inr c \<Longrightarrow> fresh_keys cur \<Longrightarrow> fresh_keys nxt \<Longrightarrow>
    did_parse C d = Inr d \<Longrightarrow> did_scid d \<noteq> ct_scid c \<Longrightarrow> ctrl_reach C c"
| rotate: "ctrl_reach C c \<Longrightarrow> rotate_with_next_and_threshold C c new_next nt = Inr c' \<Longrightarrow>
    fresh_keys new_next \<Longrightarrow> ctrl_reach C c'"
| appoint: "ctrl_reach C c \<Longrightarrow> rotate_appointing C c (Inr new_next) ws wt = Inr c' \<Longrightarrow>
    fresh_keys new_next \<Longrightarrow> ctrl_reach C c'"
| interact: "ctrl_reach C c \<Longrightarrow> interact C c anchors = Inr c' \<Longrightarrow> ctrl_reach C c'"
| seal: "ctrl_reach C c \<Longrightarrow> seal C c seals = Inr c' \<Longrightarrow> ctrl_reach C c'"
| recover: "ctrl_reach C c \<Longrightarrow> recover_from_kel C (ctrl_kel c) rec new_next nt = Inr c' \<Longrightarrow>
    fresh_keys rec \<Longrightarrow> fresh_keys new_next \<Longrightarrow> ctrl_reach C c'"
| restore: "ctrl_reach C c \<Longrightarrow> restore C (ctrl_kel c) cur nxt = Inr c' \<Longrightarrow>
    fresh_keys cur \<Longrightarrow> fresh_keys nxt \<Longrightarrow> ctrl_reach C c'"

lemma rotate_inv:
  assumes "ed25519_ok C" "ctrl_inv C c" "fresh_keys new_next"
    "rotate_with_next_and_threshold C c new_next nt = Inr c'"
  shows "ctrl_inv C c'"
  using assms(3,4)
  by (auto simp: rotate_with_next_and_threshold_def Let_def fresh_keys_def
      intro: rotation_inv [OF assms(1,2), rotated 2])

lemma appoint_inv:
  assumes "ed25519_ok C" "ctrl_inv C c" "fresh_keys new_next"
    "rotate_appointing C c (Inr new_next) ws wt = Inr c'"
  shows "ctrl_inv C c'"
proof -
  from assms(4) obtain c1 est where
    "est = establish C (ct_next c) (ct_next_threshold c) new_next (ct_next_threshold c) ws wt"
    "validate_establishment est = Inr ()" "append_event C c (Rotation est) (ct_next c) = Inr c1"
    "c' = c1\<lparr>ct_current := ct_next c, ct_current_threshold := ct_next_threshold c, ct_next := new_next\<rparr>"
    by (auto simp: rotate_appointing_def Let_def)
  moreover from this(3) have "ct_next_threshold c1 = ct_next_threshold c"
    by (auto simp: append_event_def split: if_splits)
  moreover from this calculation(4) have "c' = c1\<lparr>ct_current := ct_next c,
      ct_current_threshold := ct_next_threshold c, ct_next := new_next,
      ct_next_threshold := ct_next_threshold c\<rparr>"
    by (cases c1) simp
  ultimately show ?thesis
    using assms(3) by (intro rotation_inv [OF assms(1,2)]) (auto simp: fresh_keys_def)
qed

lemma interact_inv:
  "ed25519_ok C \<Longrightarrow> ctrl_inv C c \<Longrightarrow> interact C c anchors = Inr c' \<Longrightarrow> ctrl_inv C c'"
  by (auto simp: interact_def dest!: non_establishment_inv [rotated 3])

lemma seal_inv:
  assumes "ed25519_ok C" "ctrl_inv C c" "seal C c seals = Inr c'"
  shows "ctrl_inv C c'
    \<and> (\<exists>ev. c' = c\<lparr>ct_events := ct_events c @ [ev]\<rparr> \<and> ev_kind ev = SealEvent seals)"
  using assms by (intro non_establishment_inv) (auto simp: seal_def)

lemma restore_inv:
  assumes "ctrl_inv C c" "restore C (ctrl_kel c) cur nxt = Inr c'" "fresh_keys cur" "fresh_keys nxt"
  shows "ctrl_inv C c'"
proof -
  have kv: "kel_verify C (ctrl_kel c) = Inr (key_state C c)" using assms(1) by (simp add: ctrl_inv_def)
  have len: "length cur = length (ct_current c)" if "map (verifying_key C) cur = map (verifying_key C) (ct_current c)"
    using map_eq_imp_length_eq [OF that] .
  from assms(2) kv have c': "ctrl_kel c' = ctrl_kel c" "key_state C c' = key_state C c"
      "ct_current c' = cur" "ct_next c' = nxt" "ct_current_threshold c' = ct_current_threshold c"
      "map (verifying_key C) cur = map (verifying_key C) (ct_current c)"
    by (auto simp: restore_def ctrl_kel_def key_state_def)
  with assms kv len show ?thesis
    by (simp add: ctrl_inv_def fresh_keys_def del: map_map)
qed

lemma recover_inv:
  assumes C: "ed25519_ok C" and kv: "kel_verify C k = Inr st"
    and r: "recover_from_kel C k rec new_next nt = Inr c'"
    and f: "fresh_keys rec" "fresh_keys new_next"
  shows "ctrl_inv C c'"
proof -
  let ?est = "establish C rec (ks_next_threshold st) new_next nt [] 0"
  let ?c = "\<lparr>ct_scid = kel_scid k, ct_suite = sk_suite (hd rec), ct_current = rec,
    ct_current_threshold = ks_next_threshold st, ct_next = new_next, ct_next_threshold = nt,
    ct_delegator = kel_delegator C k, ct_events = kel_events k\<rparr>"
  from r kv have v: "validate_establishment ?est = Inr ()"
    and a: "append_event C ?c (Rotation ?est) rec = Inr c'"
    and cm: "map (\<lambda>sk. key_commitment C (verifying_key C sk)) rec = ks_next_commitments st"
    by (auto simp: recover_from_kel_def Let_def list_all2_eq_map)
  have e: "est_keys ?est = map (verifying_key C) rec" "est_threshold ?est = ks_next_threshold st"
    "est_next ?est = map (\<lambda>k. key_commitment C (verifying_key C k)) new_next"
    "est_next_threshold ?est = nt"
    by (simp_all add: establish_def)
  note D = validate_establishmentD [OF v, unfolded e]
  have ck: "ctrl_kel ?c = k" by (simp add: ctrl_kel_def)
  have n: "list_all is_ed rec" "length rec < 2 ^ 32" using f(1) by (simp_all add: fresh_keys_def)
  from append_event_verify [OF C n _ a, unfolded ck, OF kv, of "ks_next_threshold st"] D e v cm
  obtain ev where c': "c' = ?c\<lparr>ct_events := ct_events ?c @ [ev]\<rparr>"
    and k1: "kel_verify C (ctrl_kel c') = Inr \<lparr>ks_keys = est_keys ?est,
      ks_threshold = est_threshold ?est, ks_sn = of_nat (length (kel_events k)),
      ks_next_commitments = est_next ?est, ks_next_threshold = est_next_threshold ?est\<rparr>"
    by (auto simp: comp_def)
  then have "kel_verify C (ctrl_kel c') = Inr (key_state C c')" by (simp add: key_state_def e)
  with n f D show ?thesis by (simp add: ctrl_inv_def fresh_keys_def c')
qed

lemma ctrl_reach_inv:
  assumes "ed25519_ok C" "digests_ok C" "bs58_ok C"
  shows "ctrl_reach C c \<Longrightarrow> ctrl_inv C c"
proof (induction rule: ctrl_reach.induct)
  case (incept cur ct nxt nt c)
  then show ?case by (intro incept_inner_inv [OF assms]) (auto simp: incept_def fresh_keys_def)
next
  case (incept_device d cur ct nxt nt c)
  then show ?case by (intro incept_inner_inv [OF assms]) (auto simp: incept_device_def fresh_keys_def)
next
  case (recover c rec new_next nt c')
  then have "kel_verify C (ctrl_kel c) = Inr (key_state C c)" by (simp add: ctrl_inv_def)
  then show ?case using recover_inv [OF assms(1)] recover.hyps by blast
qed (use assms in \<open>auto intro: rotate_inv appoint_inv interact_inv restore_inv dest: seal_inv\<close>)

section \<open>Published logs decode\<close>

lemma multihash_blake3_length [simp]:
  "digests_ok C \<Longrightarrow> length (multihash_to_bytes (multihash_of C Blake3 m)) = 34"
  by (simp add: multihash_to_bytes_def multihash_of_def write_uvarint.simps)

lemma multihash_blake3_parses [simp]:
  "digests_ok C \<Longrightarrow> is_ok (multihash_from_bytes (multihash_to_bytes (multihash_of C Blake3 m)))"
  by (simp add: multihash_of_wf is_ok_iff)

text \<open>A single-key establishment is valid and encodable.\<close>

lemma commitment_ok_key [simp]: "digests_ok C \<Longrightarrow> commitment_ok (key_commitment C k)"
  by (simp add: commitment_ok_def key_commitment_def fits_def MAX_MULTIHASH_BYTES_def)

lemma single_validates:
  assumes "digests_ok C"
  shows "validate_establishment (establish C [a] 1 [b] 1 [] 0) = Inr ()"
proof -
  have "is_ok (multihash_from_bytes (key_commitment C (verifying_key C b)))"
    using assms by (simp add: key_commitment_def)
  then show ?thesis
    by (auto simp: validate_establishment_def establish_def is_ok_iff)
qed

lemma ed_key_ok: "ed25519_ok C \<Longrightarrow> is_ed k \<Longrightarrow> key_ok C (verifying_key C k)"
proof -
  assume C: "ed25519_ok C" and k: "is_ed k"
  then obtain seed where "k = from_seed seed" using is_ed_seed by blast
  then have "length (vk_to_bytes (verifying_key C k)) = 32"
    using C by (simp add: vk_to_bytes_def verifying_key_def from_seed_def ed25519_ok_def)
  with is_ed_sign [OF C k] show ?thesis by (simp add: key_ok_def fits_def MAX_KEY_BYTES_def)
qed

lemma single_est_ok:
  assumes "ed25519_ok C" "digests_ok C"
  shows "est_ok C (establish C [from_seed a] 1 [from_seed b] 1 [] 0)"
  using single_validates [OF assms(2), of "from_seed a" "from_seed b"] ed_key_ok [OF assms(1)] assms(2)
  by (simp add: est_ok_def establish_def vec_ok_def max_defs)

lemma ed_sig_length: "ed25519_ok C \<Longrightarrow> is_ed k \<Longrightarrow> length (sig_bytes (ed_sig C m k)) = 64"
  by (auto simp: ed25519_ok_def ed_sig_def sk_sign_def from_seed_def dest!: is_ed_seed)

lemma full_sigs_ok:
  assumes "ed25519_ok C" "list_all is_ed ks" "length ks \<le> MAX_SIGNATURES"
  shows "vec_ok (isig_ok C) MAX_SIGNATURES (full_sigs C m ks)"
proof -
  have "isig_ok C s" if "s \<in> set (full_sigs C m ks)" for s
    using that assms is_ed_sign [OF assms(1)] ed_sig_length [OF assms(1)]
    by (auto simp: set_full_sigs isig_ok_def fits_def MAX_SIGNATURE_BYTES_def list_all_length)
  moreover have "length (full_sigs C m ks) = length ks" by (simp add: full_sigs_def)
  ultimately show ?thesis using assms(3) by (simp add: vec_ok_def list_all_iff max_defs)
qed

lemma length_w_vec_sigs:
  assumes "ed25519_ok C" "list_all is_ed ks"
  shows "length (w_vec w_sig (full_sigs C m ks)) = 4 + 73 * length ks"
proof -
  have "length (w_sig s) = 73" if "s \<in> set (full_sigs C m ks)" for s
    using that assms ed_sig_length [OF assms(1)]
    by (auto simp: set_full_sigs w_sig_def w_bytes_def list_all_length)
  then have "map (length \<circ> w_sig) (full_sigs C m ks) = replicate (length ks) 73"
    by (intro nth_equalityI) (auto simp: full_sigs_def)
  then show ?thesis by (simp add: w_vec_def length_concat sum_list_replicate)
qed

text \<open>
  An event the controller signs can be sent: it decodes at the other end whenever its body is
  within the wire limits.
\<close>

lemma signed_event_ok:
  assumes "ed25519_ok C" "list_all is_ed ks" "length ks \<le> MAX_SIGNATURES"
    "e = e0\<lparr>ev_signatures := full_sigs C m ks\<rparr>" "kind_ok C (ev_kind e0)"
    "fits MAX_SCID_BYTES (ev_scid e0)" "utf8_valid (ev_scid e0)" "length (ev_prior e0) \<le> 34"
    "length (encode_kind (ev_kind e0)) \<le> 40000"
  shows "wire_event_ok C e"
  using assms full_sigs_ok [OF assms(1-3), of m] length_w_vec_sigs [OF assms(1,2), of m]
  by (simp add: wire_event_ok_def event_ok_def fits_def max_defs full_bytes_def event_encode_def
      w_bytes_def MAX_EVENT_BYTES_def)

lemma append_event_pub:
  assumes C: "ed25519_ok C" "digests_ok C" and ks: "list_all is_ed ks" "length ks \<le> MAX_SIGNATURES"
    and c: "kel_ok C (ctrl_kel c)" "length (ct_events c) < MAX_KEL_EVENTS"
    and kind: "kind_ok C kind" "length (encode_kind kind) \<le> 40000"
    and a: "append_event C c kind ks = Inr c'"
  shows "kel_ok C (ctrl_kel c')"
proof -
  let ?e = "\<lparr>ev_suite = ct_suite c, ev_scid = ct_scid c, ev_sn = of_nat (length (ct_events c)),
    ev_prior = event_digest C (last (ct_events c)), ev_kind = kind, ev_signatures = []\<rparr>"
  have sc: "fits MAX_SCID_BYTES (ct_scid c)" "utf8_valid (ct_scid c)"
    using c(1) by (simp_all add: kel_ok_def ctrl_kel_def)
  have "length (event_digest C (last (ct_events c))) \<le> 34"
    using C(2) by (simp add: event_digest_def)
  then have "wire_event_ok C (?e\<lparr>ev_signatures := full_sigs C (signing_bytes ?e) ks\<rparr>)"
    using sc kind by (intro signed_event_ok [OF C(1) ks refl]) auto
  moreover from a have "c' = c\<lparr>ct_events := ct_events c
      @ [?e\<lparr>ev_signatures := full_sigs C (signing_bytes ?e) ks\<rparr>]\<rparr>"
    by (auto simp: append_event_def sign_event_full [OF C(1) ks(1)] split: if_splits)
  ultimately show ?thesis
    using c by (simp add: kel_ok_def ctrl_kel_def vec_ok_def MAX_KEL_EVENTS_def)
qed

lemma derive_scid_ok:
  assumes "digests_ok C" "bs58_ok C"
  shows "fits MAX_SCID_BYTES (derive_scid C e)" "utf8_valid (derive_scid C e)"
proof -
  let ?m = "multihash_to_bytes (multihash_of C Blake3 (event_encode ScidInput e))"
  have s: "derive_scid C e = 122 # c_bs58_encode C ?m"
    by (simp add: derive_scid_def mb_encode_def BASE58BTC_def)
  have "length (c_bs58_encode C ?m) \<le> 2 * length ?m" "\<forall>b \<in> set (c_bs58_encode C ?m). unat b < 128"
    using assms(2) unfolding bs58_ok_def by blast+
  then show "fits MAX_SCID_BYTES (derive_scid C e)" "utf8_valid (derive_scid C e)"
    using assms(1) by (simp_all add: s fits_def MAX_SCID_BYTES_def utf8_valid_ascii)
qed

lemma incept_fields:
  assumes "incept_inner C cur ct nxt nt del = Inr c"
  shows "ct_current c = cur" "ct_next c = nxt" "ct_current_threshold c = ct" "ct_next_threshold c = nt"
    "ct_delegator c = del" "\<exists>ev. ct_events c = [ev] \<and> ev_kind ev =
      (case del of None \<Rightarrow> Inception (establish C cur ct nxt nt [] 0)
       | Some d \<Rightarrow> DelegatedInception (establish C cur ct nxt nt [] 0) d)"
  using assms by (auto simp: incept_inner_def sign_event_def Let_def)

lemma incept_pub:
  assumes C: "ed25519_ok C" "digests_ok C" "bs58_ok C"
    and ks: "list_all is_ed cur" "length cur \<le> MAX_SIGNATURES"
    and kind: "kind = (case del of None \<Rightarrow> Inception (establish C cur ct nxt nt [] 0)
       | Some d \<Rightarrow> DelegatedInception (establish C cur ct nxt nt [] 0) d)"
      "kind_ok C kind" "length (encode_kind kind) \<le> 40000"
    and c: "incept_inner C cur ct nxt nt del = Inr c"
  shows "kel_ok C (ctrl_kel c)"
proof -
  let ?icp = "\<lparr>ev_suite = sk_suite (hd cur), ev_scid = [], ev_sn = 0, ev_prior = [],
    ev_kind = kind, ev_signatures = []\<rparr>"
  let ?e = "?icp\<lparr>ev_scid := derive_scid C ?icp\<rparr>"
  have "wire_event_ok C (?e\<lparr>ev_signatures := full_sigs C (signing_bytes ?e) cur\<rparr>)"
    using kind(2,3) derive_scid_ok [OF C(2,3)] by (intro signed_event_ok [OF C(1) ks refl]) auto
  moreover from c have "ct_scid c = derive_scid C ?icp"
      "ct_events c = [?e\<lparr>ev_signatures := full_sigs C (signing_bytes ?e) cur\<rparr>]"
    by (auto simp: incept_inner_def Let_def sign_event_full [OF C(1) ks(1)] kind(1))
  ultimately show ?thesis
    using derive_scid_ok [OF C(2,3)] derive_scid_parses [OF C(2,3)]
    by (simp add: kel_ok_def ctrl_kel_def vec_ok_def MAX_KEL_EVENTS_def is_ok_iff)
qed

section \<open>A concrete identity\<close>

text \<open>
  A single-key identity over the concrete primitives, rotated once: the logs the properties of
  this development are instantiated on.
\<close>

lemma length_single_est:
  "ed25519_ok C \<Longrightarrow> digests_ok C \<Longrightarrow>
     length (encode_establishment (establish C [from_seed a] 1 [from_seed b] 1 [] 0)) = 95"
  by (simp add: encode_establishment_def establish_def w_vec_def w_key_def w_bytes_def vk_to_bytes_def
      verifying_key_def from_seed_def ed25519_ok_def key_commitment_def)

lemma incept_single_ok:
  assumes "ed25519_ok C" "digests_ok C" "bs58_ok C"
  shows "\<exists>c. incept_single_from_seeds C a b = Inr c \<and> ctrl_reach C c \<and> kel_ok C (ctrl_kel c)"
proof -
  let ?est = "establish C [from_seed a] 1 [from_seed b] 1 [] 0"
  obtain c where c: "incept C [from_seed a] 1 [from_seed b] 1 = Inr c"
    using single_validates [OF assms(2)] assms
    by (simp add: incept_def incept_inner_def Let_def sign_event_full)
  moreover have "ctrl_reach C c"
    by (rule ctrl_reach.incept [OF c]) (simp_all add: fresh_keys_def)
  moreover have "kel_ok C (ctrl_kel c)"
    using single_est_ok [OF assms(1,2)] length_single_est [OF assms(1,2)] c
    by (intro incept_pub [OF assms, where cur = "[from_seed a]" and kind = "Inception ?est"
        and del = None and nxt = "[from_seed b]" and ct = 1 and nt = 1])
       (auto simp: MAX_SIGNATURES_def incept_def)
  ultimately show ?thesis by (simp add: incept_single_from_seeds_def)
qed

lemma rotate_single_ok:
  assumes C: "ed25519_ok C" "digests_ok C" "bs58_ok C"
    and c: "ctrl_reach C c" "kel_ok C (ctrl_kel c)" "length (ct_events c) < MAX_KEL_EVENTS"
      "ct_next c = [from_seed b]" "ct_next_threshold c = 1"
  shows "\<exists>c'. rotate_with_next C c [from_seed a] = Inr c' \<and> ctrl_reach C c' \<and> kel_ok C (ctrl_kel c')"
proof -
  let ?est = "establish C [from_seed b] 1 [from_seed a] 1 [] 0"
  have "ct_events c \<noteq> []" using ctrl_inv_events ctrl_reach_inv [OF C c(1)] by blast
  then obtain c1 where c1: "append_event C c (Rotation ?est) [from_seed b] = Inr c1"
    by (simp add: append_event_def sign_event_full C)
  let ?c' = "c1\<lparr>ct_current := [from_seed b], ct_current_threshold := 1,
    ct_next := [from_seed a], ct_next_threshold := 1\<rparr>"
  have r: "rotate_with_next_and_threshold C c [from_seed a] 1 = Inr ?c'"
    using c c1 single_validates [OF C(2)] by (simp add: rotate_with_next_and_threshold_def)
  moreover have "ctrl_reach C ?c'"
    by (rule ctrl_reach.rotate [OF c(1) r]) (simp add: fresh_keys_def)
  moreover have "kel_ok C (ctrl_kel c1)"
    using single_est_ok [OF C(1,2)] length_single_est [OF C(1,2)]
    by (intro append_event_pub [OF C(1,2) _ _ c(2,3) _ _ c1]) (auto simp: MAX_SIGNATURES_def)
  moreover have "ctrl_kel ?c' = ctrl_kel c1" by (simp add: ctrl_kel_def)
  ultimately show ?thesis using c by (metis rotate_with_next_def)
qed

definition demo_root :: Controller where
  "demo_root = projr (incept_single_from_seeds toy_crypto [7] [8])"

definition demo_rotated :: Controller where
  "demo_rotated = projr (rotate_with_next toy_crypto demo_root [from_seed [9]])"

lemma demo_root_ok:
  "incept_single_from_seeds toy_crypto [7] [8] = Inr demo_root" "ctrl_reach toy_crypto demo_root"
  "kel_ok toy_crypto (ctrl_kel demo_root)"
  using incept_single_ok [of toy_crypto "[7]" "[8]"] toy_crypto_ok by (auto simp: demo_root_def)

lemma demo_root_fields:
  "ct_next demo_root = [from_seed [8]]" "ct_next_threshold demo_root = 1"
  "ct_current demo_root = [from_seed [7]]" "ct_current_threshold demo_root = 1"
  "\<exists>ev. ct_events demo_root = [ev] \<and> ev_kind ev =
    Inception (establish toy_crypto [from_seed [7]] 1 [from_seed [8]] 1 [] 0)"
  using incept_fields demo_root_ok(1)
  by (fastforce simp: incept_single_from_seeds_def incept_def)+

lemma demo_rotated_ok:
  "rotate_with_next toy_crypto demo_root [from_seed [9]] = Inr demo_rotated"
  "ctrl_reach toy_crypto demo_rotated" "kel_ok toy_crypto (ctrl_kel demo_rotated)"
  using rotate_single_ok [of toy_crypto demo_root "[8]" "[9]"] toy_crypto_ok demo_root_ok
    demo_root_fields
  by (auto simp: demo_rotated_def MAX_KEL_EVENTS_def)

lemma rotate_fields:
  assumes "rotate_with_next_and_threshold C c new_next nt = Inr c'"
  shows "ct_scid c' = ct_scid c" "ct_current c' = ct_next c" "ct_next c' = new_next"
    "\<exists>ev. ct_events c' = ct_events c @ [ev] \<and> ev_kind ev =
      Rotation (establish C (ct_next c) (ct_next_threshold c) new_next nt [] 0)"
  using assms
  by (auto simp: rotate_with_next_and_threshold_def Let_def append_event_def sign_event_def
      split: if_splits)

lemma demo_rotated_events:
  "\<exists>e0 e1. ct_events demo_root = [e0] \<and> ct_events demo_rotated = [e0, e1]
    \<and> ev_kind e1 = Rotation (establish toy_crypto [from_seed [8]] 1 [from_seed [9]] 1 [] 0)"
  "ct_scid demo_rotated = ct_scid demo_root"
  using rotate_fields [OF demo_rotated_ok(1) [unfolded rotate_with_next_def]] demo_root_fields
  by auto

lemma demo_verifies:
  "kel_verify toy_crypto (ctrl_kel demo_root) = Inr (key_state toy_crypto demo_root)"
  "kel_verify toy_crypto (ctrl_kel demo_rotated) = Inr (key_state toy_crypto demo_rotated)"
  using ctrl_reach_inv toy_crypto_ok demo_root_ok(2) demo_rotated_ok(2) by (auto simp: ctrl_inv_def)

section \<open>Properties\<close>

lemma full_sigs_canonical: "length ks < 2 ^ 32 \<Longrightarrow> signatures_are_canonical (full_sigs C m ks)"
proof -
  assume l: "length ks < 2 ^ 32"
  have "map is_index (full_sigs C m ks) = map of_nat [0..<length ks]"
    by (intro nth_equalityI) (auto simp: full_sigs_def nth_enumerate_eq)
  moreover have "sorted_wrt (<) (map (of_nat :: nat \<Rightarrow> u32) [0..<length ks])"
    using l by (auto simp: sorted_wrt_iff_nth_less word_less_nat_alt unat_of_nat)
  ultimately show ?thesis by (simp add: signatures_are_canonical_iff)
qed

lemma detached_ok:
  assumes "ed25519_ok C" "ctrl_inv C c" "ks_keys st = map (verifying_key C) (ct_current c)"
    "ks_threshold st = ct_current_threshold c"
  shows "check_detached C msg (full_sigs C msg (ct_current c)) st = Inr ()"
proof -
  have k: "list_all is_ed (ct_current c)" "length (ct_current c) < 2 ^ 32"
    "unat (ct_current_threshold c) \<le> length (ct_current c)"
    "distinct (map key_fingerprint (map (verifying_key C) (ct_current c)))"
    using assms(2) by (auto simp: ctrl_inv_def)
  have "card (key_fingerprint ` set (map (verifying_key C) (ct_current c))) = length (ct_current c)"
    using distinct_card [OF k(4)] by (simp add: image_image)
  then have "unat (count_valid_signers C msg (map (verifying_key C) (ct_current c))
      (full_sigs C msg (ct_current c))) = length (ct_current c)"
    using k(2) by (simp add: count_valid_signers_card full_sigs_valid [OF assms(1) k(1,2)])
  with k(3) assms(3,4) show ?thesis by (simp add: check_detached_def word_le_nat_alt)
qed

text \<open>
  Property (C10): a controller's log always verifies, to the controller's own key state. Whatever
  sequence of inceptions, rotations, appointments, interactions, seals, recoveries and restores a
  program performs, the published log is accepted by the verifier, and the verifier's keys,
  thresholds, commitments and sequence number are the controller's.
\<close>

theorem controller_log_verifies:
  assumes "ed25519_ok C" "digests_ok C" "bs58_ok C" "ctrl_reach C c"
  shows "kel_verify C (ctrl_kel c) = Inr (key_state C c)"
  using ctrl_reach_inv [OF assms] by (simp add: ctrl_inv_def)

theorem controller_log_verifies_witness:
  "kel_verify toy_crypto (ctrl_kel demo_rotated) = Inr (key_state toy_crypto demo_rotated)"
  by (rule controller_log_verifies [OF toy_crypto_ok(2,1,3) demo_rotated_ok(2)])

text \<open>
  Property (C29): a detached signature stays checkable against the history it was made in. What a
  controller signs verifies against its log, in canonical signature order, and against every
  verifying log that extends it, at the sequence number it was made, whatever was rotated since.
\<close>

theorem signed_message_verifies_forever:
  assumes "ed25519_ok C" "digests_ok C" "bs58_ok C" "ctrl_reach C c"
  shows "\<exists>sigs. sign_message C c msg = Inr sigs \<and> signatures_are_canonical sigs
    \<and> verify_message C (ctrl_kel c) msg sigs = Inr ()
    \<and> (\<forall>k st. kel_verify C k = Inr st \<longrightarrow> kel_scid k = ct_scid c
        \<longrightarrow> take (length (ct_events c)) (kel_events k) = ct_events c
        \<longrightarrow> length (kel_events k) \<le> 2 ^ 64
        \<longrightarrow> verify_message_at C k (ks_sn (key_state C c)) msg sigs = Inr ())"
proof -
  let ?sigs = "full_sigs C msg (ct_current c)"
  have inv: "ctrl_inv C c" by (rule ctrl_reach_inv [OF assms])
  then have k: "list_all is_ed (ct_current c)" "length (ct_current c) < 2 ^ 32"
    "kel_verify C (ctrl_kel c) = Inr (key_state C c)" by (auto simp: ctrl_inv_def)
  have ne: "ct_events c \<noteq> []" by (rule ctrl_inv_events [OF inv])
  have det: "check_detached C msg ?sigs (key_state C c) = Inr ()"
    by (rule detached_ok [OF assms(1) inv]) (simp_all add: key_state_def)
  have "verify_message_at C l (ks_sn (key_state C c)) msg ?sigs = Inr ()"
    if l: "kel_verify C l = Inr st" "kel_scid l = ct_scid c"
      "take (length (ct_events c)) (kel_events l) = ct_events c" "length (kel_events l) \<le> 2 ^ 64" for l st
  proof -
    let ?n = "length (ct_events c) - 1"
    have len: "length (ct_events c) \<le> length (kel_events l)" using l(3) by (metis length_take min.cobounded1)
    have sn: "ks_sn (key_state C c) = of_nat ?n" using ne by (simp add: key_state_def of_nat_diff Suc_leI)
    then have u: "unat (ks_sn (key_state C c)) = ?n" using len l(4) ne by (simp add: unat_of_nat)
    have "ks_sn st = of_nat (length (kel_events l) - 1)" by (rule kel_verify_sn [OF l(1)])
    then have "ks_sn (key_state C c) \<le> ks_sn st"
      using sn len l(4) ne by (simp add: word_le_nat_alt unat_of_nat diff_le_mono)
    from key_state_at_cut [OF l(1,4) this] obtain st' where
      st': "key_state_at C l (ks_sn (key_state C c)) = Inr st'"
        "kel_verify C (l\<lparr>kel_events := take (Suc ?n) (kel_events l)\<rparr>) = Inr st'"
      by (auto simp: u)
    moreover have "l\<lparr>kel_events := take (Suc ?n) (kel_events l)\<rparr> = ctrl_kel c"
      using l(2,3) ne by (simp add: ctrl_kel_def)
    ultimately show ?thesis using k(3) det by (simp add: verify_message_at_def)
  qed
  then show ?thesis
    using k det full_sigs_canonical [OF k(2)] sign_all_full [OF assms(1) k(1)]
    by (intro exI [of _ ?sigs]) (auto simp: sign_message_def verify_message_def)
qed

theorem signed_message_verifies_forever_witness:
  "\<exists>sigs. sign_message toy_crypto demo_root [1, 2] = Inr sigs
    \<and> verify_message_at toy_crypto (ctrl_kel demo_rotated) (ks_sn (key_state toy_crypto demo_root))
        [1, 2] sigs = Inr ()"
proof -
  have "take (length (ct_events demo_root)) (kel_events (ctrl_kel demo_rotated)) = ct_events demo_root"
      "length (kel_events (ctrl_kel demo_rotated)) \<le> 2 ^ 64"
      "kel_scid (ctrl_kel demo_rotated) = ct_scid demo_root"
    using demo_rotated_events by (auto simp: ctrl_kel_def)
  with signed_message_verifies_forever [OF toy_crypto_ok(2,1,3) demo_root_ok(2), of "[1, 2]"]
    demo_verifies(2) show ?thesis by blast
qed

subsection \<open>Devices\<close>

lemma kel_seals_snoc:
  "kel_seals \<lparr>kel_scid = s, kel_events = es @ [e]\<rparr>
     = kel_seals \<lparr>kel_scid = s, kel_events = es\<rparr> @ (case ev_kind e of SealEvent x \<Rightarrow> x | _ \<Rightarrow> [])"
  by (simp add: kel_seals_def)

lemma seal_seals:
  assumes "ed25519_ok C" "ctrl_inv C c" "seal C c seals = Inr c'"
  shows "kel_seals (ctrl_kel c') = kel_seals (ctrl_kel c) @ seals"
    "kel_delegator C (ctrl_kel c') = kel_delegator C (ctrl_kel c)"
    "kel_scid (ctrl_kel c') = kel_scid (ctrl_kel c)"
proof -
  from seal_inv [OF assms] obtain ev where
    c': "c' = c\<lparr>ct_events := ct_events c @ [ev]\<rparr>" "ev_kind ev = SealEvent seals" by blast
  then show "kel_seals (ctrl_kel c') = kel_seals (ctrl_kel c) @ seals"
      "kel_scid (ctrl_kel c') = kel_scid (ctrl_kel c)"
    by (simp_all add: ctrl_kel_def kel_seals_snoc)
  show "kel_delegator C (ctrl_kel c') = kel_delegator C (ctrl_kel c)"
    using ctrl_inv_events [OF assms(2)] c'(1)
    by (cases "ct_events c") (simp_all add: kel_delegator_def ctrl_kel_def)
qed

lemma device_grant_append:
  "device_grant d (xs @ ys) = foldl (grant_step d) (device_grant d xs) ys"
  by (simp add: device_grant_def)

lemma grant_revokes:
  "foldl (grant_step d) g (map Revoke ds) = (if d \<in> set ds then None else g)"
  by (induction ds arbitrary: g) auto

lemma seal_chunks_inv:
  "ed25519_ok C \<Longrightarrow> ctrl_inv C c \<Longrightarrow> seal_chunks C c seals = (Inr (), c') \<Longrightarrow>
    ctrl_inv C c' \<and> kel_seals (ctrl_kel c') = kel_seals (ctrl_kel c) @ seals"
proof (induction C c seals rule: seal_chunks.induct)
  case (1 C c seals)
  show ?case
  proof (cases "seals = []")
    case False
    with "1.prems"(3) obtain c1 where c1: "seal C c (take MAX_SEALS seals) = Inr c1"
        "seal_chunks C c1 (drop MAX_SEALS seals) = (Inr (), c')"
      by (subst (asm) seal_chunks.simps) (auto split: sum.splits)
    have inv1: "ctrl_inv C c1" "kel_seals (ctrl_kel c1) = kel_seals (ctrl_kel c) @ take MAX_SEALS seals"
      using seal_inv [OF "1.prems"(1,2) c1(1)] seal_seals(1) [OF "1.prems"(1,2) c1(1)] by blast+
    from "1.IH" [OF False c1(1) "1.prems"(1) inv1(1) c1(2)] inv1(2) show ?thesis by simp
  qed (use "1.prems" in \<open>simp add: seal_chunks.simps\<close>)
qed

lemma delegation_ok:
  assumes C: "ed25519_ok C" "digests_ok C" "bs58_ok C"
    and r: "ctrl_reach C root" "kel_delegator C (ctrl_kel root) = None"
    and d: "ctrl_reach C device" "kel_delegator C (ctrl_kel device) = Some (ctrl_did root)"
    and op: "delegate_device C root (ctrl_did device) caps = Inr root'"
      "revoke_device C root' (ctrl_did device) = Inr root''"
  shows "verify_delegation C (ctrl_kel root') (ctrl_kel device) = Inr caps
    \<and> verify_delegation C (ctrl_kel root'') (ctrl_kel device) = Inl NotDelegated"
proof -
  have inv: "ctrl_inv C root" "ctrl_inv C device" using ctrl_reach_inv [OF C] r(1) d(1) by auto
  have s1: "seal C root [Delegate (ctrl_did device) caps] = Inr root'"
    and s2: "seal C root' [Revoke (ctrl_did device)] = Inr root''"
    using op by (simp_all add: delegate_device_def revoke_device_def)
  have inv1: "ctrl_inv C root'" using seal_inv [OF C(1) inv(1) s1] by blast
  have inv2: "ctrl_inv C root''" using seal_inv [OF C(1) inv1 s2] by blast
  note f1 = seal_seals [OF C(1) inv(1) s1] and f2 = seal_seals [OF C(1) inv1 s2]
  have did: "kel_did (ctrl_kel device) = ctrl_did device" "did_scid (ctrl_did root) = ct_scid root"
    by (simp_all add: kel_did_def ctrl_kel_def ctrl_did_def)
  have v: "kel_verify C (ctrl_kel x) = Inr (key_state C x)" if "ctrl_inv C x" for x
    using that by (simp add: ctrl_inv_def)
  have parse: "did_parse C (ctrl_did device) = Inr (ctrl_did device)"
    using kel_verify_did [OF v [OF inv(2)]] did by simp
  show ?thesis
    using f1 f2 r(2) d(2) did
    by (simp add: verify_delegation_def v inv inv1 inv2 ok_or_def
        delegated_devices_grant [OF parse] device_grant_append)
       (simp add: ctrl_kel_def)
qed

text \<open>
  Property (C30): the device life cycle, end to end. When a root delegates a device that names it,
  the published logs verify as a delegation with exactly the granted capabilities; once the root
  revokes the device, the same check refuses it.
\<close>

theorem delegation_lifecycle:
  assumes C: "ed25519_ok C" "digests_ok C" "bs58_ok C"
    and r: "ctrl_reach C root" "kel_delegator C (ctrl_kel root) = None"
    and d: "ctrl_reach C device" "kel_delegator C (ctrl_kel device) = Some (ctrl_did root)"
    and op: "delegate_device C root (ctrl_did device) caps = Inr root'"
      "revoke_device C root' (ctrl_did device) = Inr root''"
  shows "verify_delegation C (ctrl_kel root') (ctrl_kel device) = Inr caps
    \<and> verify_delegation C (ctrl_kel root'') (ctrl_kel device) = Inl NotDelegated"
  by (rule delegation_ok [OF assms])

text \<open>
  Property (C31): a lost device can be cut off in one call. After \<open>revoke_devices_except\<close> succeeds,
  the devices in \<open>keep\<close> hold exactly what they held and every other device holds nothing, however
  many seal events the call needed.
\<close>

theorem revoke_devices_except_exact:
  assumes "ed25519_ok C" "ctrl_inv C c" "revoke_devices_except C c keep = (Inr (), c')"
    "did_parse C d = Inr d"
  shows "ctrl_inv C c' \<and> device_grant d (kel_seals (ctrl_kel c'))
    = (if d \<in> set keep then device_grant d (kel_seals (ctrl_kel c)) else None)"
proof -
  let ?ds = "map fst (filter (\<lambda>(x, _). x \<notin> set keep) (delegated_devices C (ctrl_kel c)))"
  have "map (\<lambda>(x, _). Revoke x) (filter (\<lambda>(x, _). x \<notin> set keep) (delegated_devices C (ctrl_kel c)))
      = map Revoke ?ds" by (simp add: split_beta)
  with assms(3) have inv: "ctrl_inv C c'"
      "kel_seals (ctrl_kel c') = kel_seals (ctrl_kel c) @ map Revoke ?ds"
    using seal_chunks_inv [OF assms(1,2)] by (auto simp: revoke_devices_except_def)
  have "d \<in> fst ` set (delegated_devices C (ctrl_kel c))
      \<longleftrightarrow> device_grant d (kel_seals (ctrl_kel c)) \<noteq> None"
    unfolding delegated_devices_grant [OF assms(4), symmetric]
    by (auto simp: find_None_iff image_iff split_beta) (metis fst_conv)+
  moreover have "d \<in> set ?ds \<longleftrightarrow> d \<notin> set keep \<and> d \<in> fst ` set (delegated_devices C (ctrl_kel c))"
    by force
  ultimately show ?thesis
    using inv by (auto simp only: device_grant_append grant_revokes if_True if_False split: if_splits)
qed

subsection \<open>The concrete identity in the properties\<close>

theorem key_state_at_history_witness:
  "\<exists>st. key_state_at toy_crypto (ctrl_kel demo_rotated) 0 = Inr st \<and> ks_sn st = 0"
  using key_state_at_history [OF demo_verifies(2), of 0] demo_rotated_events
  by (auto simp: ctrl_kel_def)

text \<open>
  The toy digest keeps the last 32 bytes, so two inceptions that differ in their keys and commit to the
  same next key have one head digest.
\<close>

definition demo_twin :: Controller where
  "demo_twin = projr (incept_single_from_seeds toy_crypto [6] [8])"

lemma demo_twin_ok:
  "incept_single_from_seeds toy_crypto [6] [8] = Inr demo_twin" "kel_ok toy_crypto (ctrl_kel demo_twin)"
  "kel_verify toy_crypto (ctrl_kel demo_twin) = Inr (key_state toy_crypto demo_twin)"
proof -
  obtain c where c: "incept_single_from_seeds toy_crypto [6] [8] = Inr c" "ctrl_reach toy_crypto c"
    "kel_ok toy_crypto (ctrl_kel c)" using incept_single_ok [of toy_crypto "[6]" "[8]"] toy_crypto_ok by blast
  then show "incept_single_from_seeds toy_crypto [6] [8] = Inr demo_twin" "kel_ok toy_crypto (ctrl_kel demo_twin)"
    "kel_verify toy_crypto (ctrl_kel demo_twin) = Inr (key_state toy_crypto demo_twin)"
    using ctrl_reach_inv toy_crypto_ok by (auto simp: demo_twin_def ctrl_inv_def)
qed

lemma toy_hashes: "c_blake3 toy_crypto = toy_digest"
  by (simp add: toy_crypto_def)

lemma toy_digest_suffix: "32 \<le> length t \<Longrightarrow> toy_digest (x @ t) = take 32 (rev t)"
  by (simp add: toy_digest_def)

lemma toy_inception_digest:
  assumes "incept_single_from_seeds toy_crypto a b = Inr c"
  shows "head_digest toy_crypto (ctrl_kel c) = Inr (multihash_to_bytes \<lparr>mh_algorithm = Blake3, mh_digest =
    rev (take 32 (rev (w_vec w_bytes [key_commitment toy_crypto (verifying_key toy_crypto (from_seed b))]
      @ to_be32 1 @ w_vec w_bytes [])))\<rparr>)" (is "_ = Inr (multihash_to_bytes \<lparr>mh_algorithm = _, mh_digest = rev (take 32 (rev ?t))\<rparr>)")
proof -
  let ?est = "establish toy_crypto [from_seed a] 1 [from_seed b] 1 [] 0"
  define icp where "icp = \<lparr>ev_suite = sk_suite (from_seed a), ev_scid = [], ev_sn = 0, ev_prior = [], ev_kind = Inception ?est,
    ev_signatures = []\<rparr>"
  define e0 where "e0 = icp\<lparr>ev_scid := derive_scid toy_crypto icp\<rparr>"
  have e0: "ev_kind e0 = Inception ?est"
    "ct_events c = [e0\<lparr>ev_signatures := full_sigs toy_crypto (signing_bytes e0) [from_seed a]\<rparr>]"
    using assms toy_crypto_ok(2)
    by (auto simp: incept_single_from_seeds_def incept_def incept_inner_def Let_def sign_event_full icp_def e0_def)
  let ?e = "e0\<lparr>ev_signatures := full_sigs toy_crypto (signing_bytes e0) [from_seed a]\<rparr>"
  have "\<exists>y. signing_bytes e0 = y @ ?t"
    by (simp add: signing_bytes_def event_encode_def e0(1) encode_establishment_def establish_def)
  moreover have "32 \<le> length ?t" by (simp add: w_vec_def w_bytes_def key_commitment_def multihash_to_bytes_def multihash_of_def toy_crypto_def)
  ultimately have s: "toy_digest (signing_bytes e0) = take 32 (rev ?t)" using toy_digest_suffix by auto
  have "sig_bytes (ed_sig toy_crypto m (from_seed a)) = take 32 (a @ replicate 32 0) @ toy_digest m" for m
    by (simp add: ed_sig_def sk_sign_def from_seed_def toy_crypto_def)
  then have "\<exists>x. full_bytes ?e = x @ toy_digest (signing_bytes e0)"
    unfolding full_bytes_def event_encode_def full_sigs_def
    by (auto simp: w_vec_def w_sig_def w_bytes_def simp flip: append_assoc append_Cons)
  then obtain x where x: "full_bytes ?e = x @ toy_digest (signing_bytes e0)" ..
  have "toy_digest (full_bytes ?e) = rev (toy_digest (signing_bytes e0))" unfolding x by (simp add: toy_digest_suffix)
  also note s
  finally have "toy_digest (full_bytes ?e) = rev (take 32 (rev ?t))" .
  then show ?thesis
    by (simp only: head_digest_def ctrl_kel_def e0(2) event_digest_def multihash_of_def hash_digest.simps toy_hashes) simp
qed

lemma demo_twin_digest:
  "head_digest toy_crypto (ctrl_kel demo_root) = head_digest toy_crypto (ctrl_kel demo_twin)"
  using toy_inception_digest [OF demo_root_ok(1)] toy_inception_digest [OF demo_twin_ok(1)] by simp

lemma demo_twin_differs: "ctrl_kel demo_root \<noteq> ctrl_kel demo_twin"
proof -
  have "\<exists>ev. ct_events demo_twin = [ev] \<and> ev_kind ev = Inception (establish toy_crypto [from_seed [6]] 1 [from_seed [8]] 1 [] 0)"
    using incept_fields(6) demo_twin_ok(1) by (fastforce simp: incept_single_from_seeds_def incept_def)
  with demo_root_fields(5) show ?thesis
    by (auto simp: ctrl_kel_def establish_def verifying_key_def from_seed_def toy_crypto_def)
qed

theorem head_digest_commits_history_witness:
  "kel_verify toy_crypto (ctrl_kel demo_root) = Inr (key_state toy_crypto demo_root)
   \<and> kel_verify toy_crypto (ctrl_kel demo_twin) = Inr (key_state toy_crypto demo_twin)
   \<and> kel_ok toy_crypto (ctrl_kel demo_root) \<and> kel_ok toy_crypto (ctrl_kel demo_twin)
   \<and> head_digest toy_crypto (ctrl_kel demo_root) = head_digest toy_crypto (ctrl_kel demo_twin)
   \<and> ctrl_kel demo_root \<noteq> ctrl_kel demo_twin
   \<and> (\<exists>i < length (kel_events (ctrl_kel demo_root)). \<exists>j < length (kel_events (ctrl_kel demo_twin)).
        collides toy_crypto (full_bytes (kel_events (ctrl_kel demo_root) ! i)) (full_bytes (kel_events (ctrl_kel demo_twin) ! j)))"
  using head_digest_commits_history [OF toy_crypto_ok(1) demo_root_ok(3) demo_twin_ok(2) demo_verifies(1) demo_twin_ok(3)
      demo_twin_digest] demo_twin_differs demo_root_ok(3) demo_twin_ok(2,3) demo_verifies(1) demo_twin_digest by blast

theorem scid_certifies_inception_witness:
  "unsigned_event (kel_events (ctrl_kel demo_root) ! 0)
     = unsigned_event (kel_events (ctrl_kel demo_rotated) ! 0)
   \<or> collides toy_crypto (event_encode ScidInput (kel_events (ctrl_kel demo_root) ! 0))
       (event_encode ScidInput (kel_events (ctrl_kel demo_rotated) ! 0))"
  using scid_certifies_inception [OF toy_crypto_ok(1,3) demo_root_ok(3) demo_rotated_ok(3)
      demo_verifies] demo_rotated_events(2) by (simp add: ctrl_kel_def)

theorem prerotation_unique_witness:
  "\<exists>est. ev_kind (kel_events (ctrl_kel demo_rotated) ! 1) = Rotation est
    \<and> est_keys est = [verifying_key toy_crypto (from_seed [8])]
    \<and> ((est_keys est = est_keys est \<and> est_threshold est = est_threshold est)
       \<or> (\<exists>x \<in> set (est_keys est). \<exists>y \<in> set (est_keys est).
            collides toy_crypto (key_fingerprint x) (key_fingerprint y)))"
proof -
  let ?k = "ctrl_kel demo_rotated" and ?est = "establish toy_crypto [from_seed [8]] 1 [from_seed [9]] 1 [] 0"
  have k: "1 < length (kel_events ?k)" "ev_kind (kel_events ?k ! 1) = Rotation ?est"
    using demo_rotated_events by (auto simp: ctrl_kel_def)
  from prerotation_unique [OF toy_crypto_ok(1) demo_rotated_ok(3) demo_rotated_ok(3)
      demo_verifies(2) demo_verifies(2) refl _ k(1) k(1) refl k(2) k(2)] k
  show ?thesis by (intro exI [of _ ?est]) (simp add: establish_def)
qed

theorem every_event_authorised_witness:
  "1 \<le> card (valid_signers toy_crypto (signing_bytes (kel_events (ctrl_kel demo_root) ! 0))
     (ks_keys (key_state toy_crypto demo_root)) (ev_signatures (kel_events (ctrl_kel demo_root) ! 0)))"
proof -
  have l: "length (kel_events (ctrl_kel demo_root)) = 1"
    using demo_root_fields by (auto simp: ctrl_kel_def)
  then have "verify_through toy_crypto (ctrl_kel demo_root) 0 = Inr (key_state toy_crypto demo_root)"
    using demo_verifies(1) by (simp add: kel_verify_def)
  from every_event_authorised [OF demo_verifies(1) _ this] l demo_root_fields
  show ?thesis by (simp add: key_state_def)
qed

theorem pins_monotone_witness:
  "\<exists>pins'. check_and_pin toy_crypto [] (ctrl_kel demo_rotated) = (Inr 1, pins')
    \<and> map_of pins' (ct_scid demo_rotated) = Some 1"
proof -
  have "ks_sn (key_state toy_crypto demo_rotated) = 1"
    using demo_rotated_events by (auto simp: key_state_def)
  then obtain pins' where "check_and_pin toy_crypto [] (ctrl_kel demo_rotated) = (Inr 1, pins')"
    using demo_verifies(2) by (simp add: check_and_pin_def)
  with pins_monotone [OF this] show ?thesis by (simp add: ctrl_kel_def)
qed

text \<open>A device of the concrete root.\<close>

definition demo_device :: Controller where
  "demo_device =
     projr (incept_device toy_crypto (ctrl_did demo_root) [from_seed [5]] 1 [from_seed [6]] 1)"

lemma toy_digest_last: "toy_digest x = toy_digest y \<Longrightarrow> x \<noteq> [] \<Longrightarrow> y \<noteq> [] \<Longrightarrow> last x = last y"
  by (cases x rule: rev_cases; cases y rule: rev_cases) (simp_all add: toy_digest_def take_Cons')

lemma toy_scid_last:
  assumes "derive_scid toy_crypto e = derive_scid toy_crypto e'"
  shows "last (event_encode ScidInput e) = last (event_encode ScidInput e')"
proof -
  have "\<And>x y. c_bs58_encode toy_crypto x = c_bs58_encode toy_crypto y \<Longrightarrow> x = y"
    using toy_crypto_ok(3) by (metis bs58_ok_def option.inject)
  with assms have "multihash_to_bytes (multihash_of toy_crypto Blake3 (event_encode ScidInput e))
      = multihash_to_bytes (multihash_of toy_crypto Blake3 (event_encode ScidInput e'))"
    by (simp add: derive_scid_def mb_encode_def)
  then have "multihash_of toy_crypto Blake3 (event_encode ScidInput e)
      = multihash_of toy_crypto Blake3 (event_encode ScidInput e')"
    by (metis multihash_of_wf multihash_roundtrip sum.inject(2) toy_crypto_ok(1))
  then have "toy_digest (event_encode ScidInput e) = toy_digest (event_encode ScidInput e')"
    by (simp add: multihash_of_def toy_crypto_def)
  then show ?thesis by (rule toy_digest_last) (simp_all add: event_encode_def)
qed

lemma hex_lower_last: "m \<noteq> [] \<Longrightarrow> last (hex_lower m) \<noteq> 0"
proof (induction m rule: rev_induct)
  case (snoc b m)
  have "hex_lower (m @ [b]) = hex_lower m @ [HEX ! unat (drop_bit 4 b), HEX ! unat (b AND 0x0f)]"
    by (induction m) simp_all
  moreover have "\<forall>i \<in> {0..<16}. HEX ! i \<noteq> 0" by code_simp
  ultimately show ?case using hex_halves(2) [of b] by simp
qed simp

lemma ctrl_scid_derived:
  assumes "ctrl_inv C c"
  shows "derive_scid C (hd (ct_events c)) = ct_scid c"
proof -
  have v: "kel_verify C (ctrl_kel c) = Inr (key_state C c)" using assms by (simp add: ctrl_inv_def)
  have "0 < length (kel_events (ctrl_kel c))" using ctrl_inv_events [OF assms] by (simp add: ctrl_kel_def)
  from kel_verify_walk [OF v this] obtain w where "walk_at C (ctrl_kel c) 0 = Inr w" .
  from walk_at_0 [OF this] verify_inception_Inr show ?thesis
    by (fastforce simp: ctrl_kel_def hd_conv_nth)
qed

lemma demo_root_did: "did_parse toy_crypto (ctrl_did demo_root) = Inr (ctrl_did demo_root)"
  using kel_verify_did [OF demo_verifies(1)] by (simp add: kel_did_def ctrl_did_def ctrl_kel_def)

lemma demo_device_incept:
  "incept_device toy_crypto (ctrl_did demo_root) [from_seed [5]] 1 [from_seed [6]] 1 = Inr demo_device"
  using single_validates [OF toy_crypto_ok(1)] toy_crypto_ok(2)
  by (simp add: demo_device_def incept_device_def incept_inner_def Let_def sign_event_full)

lemma sign_event_sigs: "sign_event C e ks = Inr ev \<Longrightarrow> \<exists>s. ev = e\<lparr>ev_signatures := s\<rparr>"
  by (auto simp: sign_event_def)

lemma incept_scid:
  assumes "incept_inner C cur ct nxt nt del = Inr c"
  shows "derive_scid C (hd (ct_events c)) = ct_scid c"
proof -
  let ?est = "establish C cur ct nxt nt [] 0"
  let ?icp = "\<lparr>ev_suite = sk_suite (hd cur), ev_scid = [], ev_sn = 0, ev_prior = [],
    ev_kind = (case del of None \<Rightarrow> Inception ?est | Some d \<Rightarrow> DelegatedInception ?est d),
    ev_signatures = []\<rparr>"
  from assms obtain ev where ev: "sign_event C (?icp\<lparr>ev_scid := derive_scid C ?icp\<rparr>) cur = Inr ev"
      and c: "ct_scid c = derive_scid C ?icp" "ct_events c = [ev]"
    by (auto simp: incept_inner_def Let_def)
  from sign_event_sigs [OF ev] obtain s where
    "ev = (?icp\<lparr>ev_scid := derive_scid C ?icp\<rparr>)\<lparr>ev_signatures := s\<rparr>" by blast
  then have "derive_scid C ev = derive_scid C ?icp" by (simp only: derive_scid_views)
  with c show ?thesis by simp
qed

lemma scid_input_last:
  "ev_kind e = DelegatedInception est (from_scid_unchecked s) \<Longrightarrow> s \<noteq> [] \<Longrightarrow>
     last (event_encode ScidInput e) = last s"
  "ev_kind e = Inception (establish C cur ct nxt nt [] 0) \<Longrightarrow>
     last (event_encode ScidInput e) = last (to_be32 0)"
  by (simp_all add: event_encode_def w_bytes_def from_scid_unchecked_def encode_establishment_def
      establish_def w_vec_def len32_def)

lemma last_zero: "last (to_be32 0) = 0"
  by code_simp

lemma toy_scid_nonzero: "derive_scid toy_crypto e \<noteq> [] \<and> last (derive_scid toy_crypto e) \<noteq> 0"
proof -
  obtain m where m: "derive_scid toy_crypto e = of_nat BASE58BTC # hex_lower m" "length m = 34"
    using multihash_blake3_length [OF toy_crypto_ok(1)]
    by (simp add: derive_scid_def mb_encode_def toy_crypto_def)
  then have "m \<noteq> []" by auto
  moreover from this have "hex_lower m \<noteq> []" by (cases m) auto
  ultimately show ?thesis using hex_lower_last [of m] m(1) by simp
qed

lemma demo_device_scid: "ct_scid demo_device \<noteq> ct_scid demo_root"
proof
  let ?e0 = "hd (ct_events demo_root)" and ?icp = "hd (ct_events demo_device)"
  note dev = demo_device_incept [unfolded incept_device_def]
  have d: "derive_scid toy_crypto ?icp = ct_scid demo_device" by (rule incept_scid [OF dev])
  have r: "derive_scid toy_crypto ?e0 = ct_scid demo_root"
    using ctrl_scid_derived ctrl_reach_inv toy_crypto_ok demo_root_ok(2) by blast
  assume "ct_scid demo_device = ct_scid demo_root"
  with d r have "last (event_encode ScidInput ?icp) = last (event_encode ScidInput ?e0)"
    by (intro toy_scid_last) simp
  moreover have "last (event_encode ScidInput ?e0) = 0"
    using demo_root_fields(5) scid_input_last(2) last_zero by fastforce
  moreover have "last (event_encode ScidInput ?icp) = last (ct_scid demo_root)"
    using incept_fields(6) [OF dev] scid_input_last(1) toy_scid_nonzero r
    by (fastforce simp: ctrl_did_def)
  ultimately show False using toy_scid_nonzero [of ?e0] r by simp
qed

lemma demo_device_ok:
  "ctrl_reach toy_crypto demo_device"
  "kel_delegator toy_crypto (ctrl_kel demo_device) = Some (ctrl_did demo_root)"
  "kel_delegator toy_crypto (ctrl_kel demo_root) = None"
proof -
  have "did_scid (ctrl_did demo_root) = ct_scid demo_root" by (simp add: ctrl_did_def)
  then show "ctrl_reach toy_crypto demo_device"
    using demo_device_scid
    by (intro ctrl_reach.incept_device [OF demo_device_incept _ _ demo_root_did])
       (simp_all add: fresh_keys_def)
  show "kel_delegator toy_crypto (ctrl_kel demo_device) = Some (ctrl_did demo_root)"
    using incept_fields(6) [OF demo_device_incept [unfolded incept_device_def]] demo_root_did
    by (auto simp: kel_delegator_def ctrl_kel_def)
  show "kel_delegator toy_crypto (ctrl_kel demo_root) = None"
    using demo_root_fields(5) by (auto simp: kel_delegator_def ctrl_kel_def)
qed

lemma seal_total:
  assumes "ed25519_ok C" "ctrl_inv C c" "length seals \<le> MAX_SEALS" "check_seals C seals = Inr ()"
  shows "\<exists>c'. seal C c seals = Inr c' \<and> ctrl_inv C c'"
proof -
  have "\<exists>c'. seal C c seals = Inr c'"
    using assms ctrl_inv_events [OF assms(2)]
    by (auto simp: seal_def append_event_def sign_event_full ctrl_inv_def)
  then show ?thesis using seal_inv [OF assms(1,2)] by blast
qed

lemma demo_device_did: "did_parse toy_crypto (ctrl_did demo_device) = Inr (ctrl_did demo_device)"
proof -
  have "kel_verify toy_crypto (ctrl_kel demo_device) = Inr (key_state toy_crypto demo_device)"
    using ctrl_reach_inv toy_crypto_ok demo_device_ok(1) by (auto simp: ctrl_inv_def)
  from kel_verify_did [OF this] show ?thesis by (simp add: kel_did_def ctrl_did_def ctrl_kel_def)
qed

lemma demo_delegates:
  "\<exists>r1 r2. delegate_device toy_crypto demo_root (ctrl_did demo_device) cap_primary = Inr r1
    \<and> revoke_device toy_crypto r1 (ctrl_did demo_device) = Inr r2 \<and> ctrl_inv toy_crypto r1"
proof -
  have inv: "ctrl_inv toy_crypto demo_root" using ctrl_reach_inv toy_crypto_ok demo_root_ok(2) by blast
  obtain r1 where r1: "seal toy_crypto demo_root [Delegate (ctrl_did demo_device) cap_primary] = Inr r1"
      "ctrl_inv toy_crypto r1"
    using seal_total [OF toy_crypto_ok(2) inv, of "[Delegate (ctrl_did demo_device) cap_primary]"]
      demo_device_did by (auto simp: MAX_SEALS_def)
  obtain r2 where "seal toy_crypto r1 [Revoke (ctrl_did demo_device)] = Inr r2"
    using seal_total [OF toy_crypto_ok(2) r1(2), of "[Revoke (ctrl_did demo_device)]"]
      demo_device_did by (auto simp: MAX_SEALS_def)
  with r1 show ?thesis by (auto simp: delegate_device_def revoke_device_def)
qed

theorem delegation_lifecycle_witness:
  "\<exists>r1 r2. verify_delegation toy_crypto (ctrl_kel r1) (ctrl_kel demo_device) = Inr cap_primary
    \<and> verify_delegation toy_crypto (ctrl_kel r2) (ctrl_kel demo_device) = Inl NotDelegated"
  using demo_delegates
    delegation_lifecycle [OF toy_crypto_ok(2,1,3) demo_root_ok(2) demo_device_ok(3,1,2)] by blast

theorem revoke_devices_except_exact_witness:
  "\<exists>r1 r2. device_grant (ctrl_did demo_device) (kel_seals (ctrl_kel r1)) = Some cap_primary
    \<and> revoke_devices_except toy_crypto r1 [] = (Inr (), r2)
    \<and> device_grant (ctrl_did demo_device) (kel_seals (ctrl_kel r2)) = None"
proof -
  let ?d = "ctrl_did demo_device"
  from demo_delegates obtain r1 where r1: "delegate_device toy_crypto demo_root ?d cap_primary = Inr r1"
      and inv1: "ctrl_inv toy_crypto r1" by blast
  have inv: "ctrl_inv toy_crypto demo_root" using ctrl_reach_inv toy_crypto_ok demo_root_ok(2) by blast
  have "kel_seals (ctrl_kel demo_root) = []"
    using demo_root_fields(5) by (auto simp: kel_seals_def ctrl_kel_def)
  then have s: "kel_seals (ctrl_kel r1) = [Delegate ?d cap_primary]"
    using seal_seals(1) [OF toy_crypto_ok(2) inv] r1 by (simp add: delegate_device_def)
  then have g: "device_grant ?d (kel_seals (ctrl_kel r1)) = Some cap_primary"
    by (simp add: device_grant_def)
  have dd: "delegated_devices toy_crypto (ctrl_kel r1) = [(?d, cap_primary)]"
    using s demo_device_did by (simp add: delegated_devices_def)
  obtain r2 where "seal toy_crypto r1 [Revoke ?d] = Inr r2"
    using seal_total [OF toy_crypto_ok(2) inv1, of "[Revoke ?d]"] demo_device_did
    by (auto simp: MAX_SEALS_def)
  then have r2: "revoke_devices_except toy_crypto r1 [] = (Inr (), r2)"
    by (simp add: revoke_devices_except_def dd seal_chunks.simps MAX_SEALS_def)
  from revoke_devices_except_exact [OF toy_crypto_ok(2) inv1 r2 demo_device_did] g r2
  show ?thesis by auto
qed

end
