(* ===== verification/Chain.thy ===== *)
theory Chain
  imports Controller "HOL-Library.Multiset"
begin

text \<open>
  The crate \<open>mini-chain\<close>: block headers, validator sets, signed votes, quorum certificates and
  equivocation proofs. The validator oracle, a trait object in the source, is an argument that
  maps an identifier to the log it vouches for.
\<close>

unbundle bit_operations_syntax

section \<open>Errors (error.rs)\<close>

datatype ChainError =
    EmptyValidatorSet
  | NotAnEquivocation
  | UnknownValidator
  | DuplicateValidator
  | DeviceMismatch
  | MissingVoteCapability
  | LimitExceeded
  | QuorumNotMet nat nat
  | ChainMalformed
  | ChainIdentity IdentityError

section \<open>Block headers (block.rs)\<close>

definition BLOCK_HEADER_VERSION :: u8 where "BLOCK_HEADER_VERSION = 2"
definition BLOCK_HEADER_HASH_DOMAIN :: bytes where
  "BLOCK_HEADER_HASH_DOMAIN = ascii ''mini-chain/block-header/v2''"

record BlockHeader =
  bh_height :: u64
  bh_prev_hash :: bytes
  bh_state_root :: bytes
  bh_body_root :: bytes
  bh_timestamp_ms :: u64
  bh_proposer :: Did

definition header_canonical_bytes :: "BlockHeader \<Rightarrow> bytes" where
  "header_canonical_bytes h =
     BLOCK_HEADER_HASH_DOMAIN @ [BLOCK_HEADER_VERSION] @ to_be64 (bh_height h) @ bh_prev_hash h
       @ bh_state_root h @ bh_body_root h @ to_be64 (bh_timestamp_ms h)
       @ to_be32 (len32 (bh_proposer h)) @ bh_proposer h"

definition header_hash :: "crypto \<Rightarrow> BlockHeader \<Rightarrow> bytes" where
  "header_hash C h = hash_digest C Blake3 (header_canonical_bytes h)"

text \<open>The arrays of a header have 32 bytes; the proposer string fits its length field.\<close>

definition header_wf :: "BlockHeader \<Rightarrow> bool" where
  "header_wf h =
     (length (bh_prev_hash h) = 32 \<and> length (bh_state_root h) = 32 \<and> length (bh_body_root h) = 32
      \<and> length (bh_proposer h) < 2 ^ 32)"

section \<open>Validator sets (validator.rs)\<close>

definition MAX_VALIDATORS :: nat where "MAX_VALIDATORS = 10000"

record ValidatorSet =
  vs_roots :: "Did list"

definition validator_set_new :: "Did list \<Rightarrow> ChainError + ValidatorSet" where
  "validator_set_new roots =
     (if roots = [] then Inl EmptyValidatorSet
      else if length roots > MAX_VALIDATORS then Inl LimitExceeded
      else let roots = sort roots in
        if first_dup [] (map did_scid roots) then Inl DuplicateValidator
        else Inr \<lparr>vs_roots = roots\<rparr>)"

definition vs_len :: "ValidatorSet \<Rightarrow> nat" where
  "vs_len vs = length (vs_roots vs)"

definition vs_contains :: "ValidatorSet \<Rightarrow> Did \<Rightarrow> bool" where
  "vs_contains vs root = list_ex (\<lambda>r. did_scid r = did_scid root) (vs_roots vs)"

definition quorum_threshold :: "ValidatorSet \<Rightarrow> nat" where
  "quorum_threshold vs = (2 * length (vs_roots vs)) div 3 + 1"

definition vs_excluding :: "ValidatorSet \<Rightarrow> Did list \<Rightarrow> ChainError + ValidatorSet" where
  "vs_excluding vs excluded =
     (let remaining = filter (\<lambda>root. \<not> list_ex (\<lambda>e. did_scid e = did_scid root) excluded) (vs_roots vs)
      in if remaining = [] then Inl EmptyValidatorSet else validator_set_new remaining)"

section \<open>Votes (vote.rs)\<close>

definition MAX_SIGS_PER_VOTE :: nat where "MAX_SIGS_PER_VOTE = MAX_SIGNATURES"
definition VOTE_MAX_DID_BYTES :: nat where "VOTE_MAX_DID_BYTES = 512"
definition VOTE_SIGN_DOMAIN :: bytes where "VOTE_SIGN_DOMAIN = ascii ''mini-chain/vote-sign/v1''"
definition VOTE_WIRE_DOMAIN :: bytes where "VOTE_WIRE_DOMAIN = ascii ''mini-chain/vote/v1''"

datatype VoteKind = Prevote | Precommit

fun kind_byte :: "VoteKind \<Rightarrow> u8" where
  "kind_byte Prevote = 0"
| "kind_byte Precommit = 1"

record Vote =
  v_kind :: VoteKind
  v_height :: u64
  v_round :: u32
  v_block_hash :: bytes
  v_root :: Did
  v_device :: Did
  v_signature :: "IndexedSig list"

definition vote_transcript :: "VoteKind \<Rightarrow> u64 \<Rightarrow> u32 \<Rightarrow> bytes \<Rightarrow> bytes" where
  "vote_transcript kind height rd block_hash =
     VOTE_SIGN_DOMAIN @ [kind_byte kind] @ to_be64 height @ to_be32 rd @ block_hash"

definition put_str :: "bytes \<Rightarrow> bytes" where
  "put_str s = to_be32 (len32 s) @ s"

definition put_sig :: "IndexedSig \<Rightarrow> bytes" where
  "put_sig s =
     to_be32 (is_index s) @ [suite_tag (sig_suite (is_signature s))] @ sig_bytes (is_signature s)"

definition vote_to_wire_bytes :: "Vote \<Rightarrow> bytes" where
  "vote_to_wire_bytes v =
     VOTE_WIRE_DOMAIN @ [kind_byte (v_kind v)] @ to_be64 (v_height v) @ to_be32 (v_round v)
       @ v_block_hash v @ put_str (v_root v) @ put_str (v_device v)
       @ to_be32 (len32 (v_signature v)) @ concat (map put_sig (v_signature v))"

definition sr_take :: "nat \<Rightarrow> bytes \<Rightarrow> ChainError + bytes \<times> bytes" where
  "sr_take n bs = take_n ChainMalformed n bs"

definition sr_u8 :: "bytes \<Rightarrow> ChainError + u8 \<times> bytes" where
  "sr_u8 = rd_u8 ChainMalformed"

definition sr_u32 :: "bytes \<Rightarrow> ChainError + u32 \<times> bytes" where
  "sr_u32 = rd_u32 ChainMalformed"

definition sr_u64 :: "bytes \<Rightarrow> ChainError + u64 \<times> bytes" where
  "sr_u64 = rd_u64 ChainMalformed"

definition take_did :: "crypto \<Rightarrow> bytes \<Rightarrow> ChainError + Did \<times> bytes" where
  "take_did C bs =
     andThen (sr_u32 bs) (\<lambda>(len, r).
     andThen (ensure (unat len \<le> VOTE_MAX_DID_BYTES) ChainMalformed) (\<lambda>_.
     andThen (sr_take (unat len) r) (\<lambda>(s, r).
     andThen (ensure (utf8_valid s) ChainMalformed) (\<lambda>_.
     andThen (map_err (\<lambda>_. ChainMalformed) (did_parse C s)) (\<lambda>d. Inr (d, r))))))"

definition take_sig :: "crypto \<Rightarrow> bytes \<Rightarrow> ChainError + IndexedSig \<times> bytes" where
  "take_sig C bs =
     andThen (sr_u32 bs) (\<lambda>(index, r).
     andThen (sr_u8 r) (\<lambda>(t, r).
     andThen (map_err (\<lambda>_. ChainMalformed) (suite_from_tag t)) (\<lambda>suite.
     andThen (sr_take (signature_len C suite) r) (\<lambda>(b, r).
     andThen (map_err (\<lambda>_. ChainMalformed) (sig_from_suite_bytes C suite b)) (\<lambda>s.
       Inr (\<lparr>is_index = index, is_signature = s\<rparr>, r))))))"

definition take_kind :: "bytes \<Rightarrow> ChainError + VoteKind \<times> bytes" where
  "take_kind bs =
     andThen (sr_u8 bs) (\<lambda>(b, r).
       if b = 0 then Inr (Prevote, r) else if b = 1 then Inr (Precommit, r) else Inl ChainMalformed)"

definition vote_from_wire_bytes :: "crypto \<Rightarrow> bytes \<Rightarrow> ChainError + Vote" where
  "vote_from_wire_bytes C bs =
     andThen (sr_take (length VOTE_WIRE_DOMAIN) bs) (\<lambda>(domain, r).
     andThen (ensure (domain = VOTE_WIRE_DOMAIN) ChainMalformed) (\<lambda>_.
     andThen (take_kind r) (\<lambda>(kind, r).
     andThen (sr_u64 r) (\<lambda>(height, r).
     andThen (sr_u32 r) (\<lambda>(rd, r).
     andThen (sr_take 32 r) (\<lambda>(block_hash, r).
     andThen (take_did C r) (\<lambda>(root, r).
     andThen (take_did C r) (\<lambda>(device, r).
     andThen (sr_u32 r) (\<lambda>(n, r).
     andThen (ensure (unat n \<le> MAX_SIGS_PER_VOTE) ChainMalformed) (\<lambda>_.
     andThen (dec_n (take_sig C) (unat n) r) (\<lambda>(sigs, r).
     andThen (ensure (r = []) ChainMalformed) (\<lambda>_.
       Inr \<lparr>v_kind = kind, v_height = height, v_round = rd, v_block_hash = block_hash, v_root = root,
            v_device = device, v_signature = sigs\<rparr>))))))))))))"

definition sign_vote ::
  "crypto \<Rightarrow> VoteKind \<Rightarrow> u64 \<Rightarrow> u32 \<Rightarrow> bytes \<Rightarrow> Did \<Rightarrow> Controller \<Rightarrow> Vote ctrl" where
  "sign_vote C kind height rd block_hash root device =
     andThen (sign_message C device (vote_transcript kind height rd block_hash)) (\<lambda>sigs.
       Inr \<lparr>v_kind = kind, v_height = height, v_round = rd, v_block_hash = block_hash, v_root = root,
            v_device = ctrl_did device, v_signature = sigs\<rparr>)"

definition verify_vote :: "crypto \<Rightarrow> Vote \<Rightarrow> Kel \<Rightarrow> Kel \<Rightarrow> ChainError + unit" where
  "verify_vote C vote root_kel device_kel =
     andThen (ensure (kel_did device_kel = v_device vote) DeviceMismatch) (\<lambda>_.
     andThen (ensure (kel_did root_kel = v_root vote) DeviceMismatch) (\<lambda>_.
     andThen (map_err ChainIdentity (verify_delegation C root_kel device_kel)) (\<lambda>caps.
     andThen (ensure (cap_contains caps CAP_VOTE) MissingVoteCapability) (\<lambda>_.
       map_err ChainIdentity (verify_message C device_kel
         (vote_transcript (v_kind vote) (v_height vote) (v_round vote) (v_block_hash vote))
         (v_signature vote))))))"

section \<open>Quorum certificates (finality.rs)\<close>

definition MAX_VOTES_PER_CERTIFICATE :: nat where
  "MAX_VOTES_PER_CERTIFICATE = 4 * MAX_VALIDATORS"

type_synonym kel_oracle = "Did \<Rightarrow> Kel option"

record QuorumCertificate =
  qc_height :: u64
  qc_round :: u32
  qc_block_hash :: bytes
  qc_votes :: "Vote list"

definition oracle_vote_ok :: "crypto \<Rightarrow> kel_oracle \<Rightarrow> Vote \<Rightarrow> bool" where
  "oracle_vote_ok C oracle vote =
     (case oracle (v_root vote) of
        None \<Rightarrow> False
      | Some root_kel \<Rightarrow>
          (case oracle (v_device vote) of
             None \<Rightarrow> False
           | Some device_kel \<Rightarrow> is_ok (verify_vote C vote root_kel device_kel)))"

fun count_votes ::
  "crypto \<Rightarrow> QuorumCertificate \<Rightarrow> ValidatorSet \<Rightarrow> kel_oracle \<Rightarrow> bytes list \<Rightarrow> Vote list \<Rightarrow> bytes list" where
  "count_votes C qc vs oracle counted [] = counted"
| "count_votes C qc vs oracle counted (vote # votes) =
     (if v_kind vote \<noteq> Precommit
         \<or> v_height vote \<noteq> qc_height qc \<or> v_round vote \<noteq> qc_round qc \<or> v_block_hash vote \<noteq> qc_block_hash qc
         \<or> \<not> vs_contains vs (v_root vote)
         \<or> did_scid (v_root vote) \<in> set counted
         \<or> \<not> oracle_vote_ok C oracle vote
      then count_votes C qc vs oracle counted votes
      else count_votes C qc vs oracle (did_scid (v_root vote) # counted) votes)"

definition verify_finality ::
  "crypto \<Rightarrow> QuorumCertificate \<Rightarrow> ValidatorSet \<Rightarrow> kel_oracle \<Rightarrow> ChainError + nat" where
  "verify_finality C qc vs oracle =
     (if length (qc_votes qc) > MAX_VOTES_PER_CERTIFICATE then Inl LimitExceeded
      else let counted = count_votes C qc vs oracle [] (qc_votes qc);
               needed = quorum_threshold vs
           in if length counted < needed then Inl (QuorumNotMet needed (length counted))
              else Inr (length counted))"

section \<open>Equivocation proofs (equivocation.rs)\<close>

definition EQUIVOCATION_DOMAIN :: bytes where
  "EQUIVOCATION_DOMAIN = ascii ''mininet/mini-chain/equivocation-proof/v1''"

record EquivocationProof =
  ep_first :: Vote
  ep_second :: Vote

definition check_vote :: "crypto \<Rightarrow> kel_oracle \<Rightarrow> Vote \<Rightarrow> ChainError + unit" where
  "check_vote C oracle vote =
     andThen (ok_or (oracle (v_root vote)) UnknownValidator) (\<lambda>root_kel.
     andThen (ok_or (oracle (v_device vote)) UnknownValidator) (\<lambda>device_kel.
       verify_vote C vote root_kel device_kel))"

definition assemble :: "crypto \<Rightarrow> Vote \<Rightarrow> Vote \<Rightarrow> kel_oracle \<Rightarrow> ChainError + EquivocationProof" where
  "assemble C first second oracle =
     andThen (ensure (did_scid (v_root first) = did_scid (v_root second)) NotAnEquivocation) (\<lambda>_.
     andThen (ensure (v_height first = v_height second \<and> v_round first = v_round second
       \<and> v_kind first = v_kind second) NotAnEquivocation) (\<lambda>_.
     andThen (ensure (v_block_hash first \<noteq> v_block_hash second) NotAnEquivocation) (\<lambda>_.
     andThen (check_vote C oracle first) (\<lambda>_.
     andThen (check_vote C oracle second) (\<lambda>_.
       if v_block_hash first \<le> v_block_hash second
       then Inr \<lparr>ep_first = first, ep_second = second\<rparr>
       else Inr \<lparr>ep_first = second, ep_second = first\<rparr>)))))"

definition offender :: "EquivocationProof \<Rightarrow> Did" where
  "offender p = v_root (ep_first p)"

definition proof_digest :: "crypto \<Rightarrow> EquivocationProof \<Rightarrow> bytes" where
  "proof_digest C p =
     hash_digest C Blake3 (EQUIVOCATION_DOMAIN @ v_root (ep_first p) @ [0]
       @ [kind_byte (v_kind (ep_first p))] @ to_be64 (v_height (ep_first p))
       @ to_be32 (v_round (ep_first p)) @ v_block_hash (ep_first p) @ v_block_hash (ep_second p))"

type_synonym EquivocationRegistry = "EquivocationProof list"

definition reg_record :: "crypto \<Rightarrow> EquivocationRegistry \<Rightarrow> EquivocationProof \<Rightarrow> EquivocationRegistry" where
  "reg_record C proven p =
     (if list_ex (\<lambda>held. proof_digest C held = proof_digest C p) proven then proven else proven @ [p])"

definition is_proven_faulty :: "EquivocationRegistry \<Rightarrow> Did \<Rightarrow> bool" where
  "is_proven_faulty proven root = list_ex (\<lambda>p. did_scid (offender p) = did_scid root) proven"

fun offenders_loop :: "Did list \<Rightarrow> EquivocationRegistry \<Rightarrow> Did list" where
  "offenders_loop roots [] = roots"
| "offenders_loop roots (p # ps) =
     (if list_ex (\<lambda>r. did_scid r = did_scid (offender p)) roots then offenders_loop roots ps
      else offenders_loop (roots @ [offender p]) ps)"

definition offenders :: "EquivocationRegistry \<Rightarrow> Did list" where
  "offenders proven = sort (offenders_loop [] proven)"

section \<open>Quorums\<close>

text \<open>
  The interface consensus relies on: sets of members that are quorums contain more than two
  thirds of all members. It gives the two facts every argument about votes uses: two quorums
  share more than a third of the members, and any set of at most a third of them misses one that
  both quorums contain.
\<close>

locale quorum_system =
  fixes members :: "'a set" and quorum :: "'a set \<Rightarrow> bool"
  assumes finite_members: "finite members"
    and quorum_sub: "quorum Q \<Longrightarrow> Q \<subseteq> members"
    and quorum_large: "quorum Q \<Longrightarrow> 2 * card members < 3 * card Q"
begin

lemma intersection_large:
  assumes "quorum Q" "quorum R"
  shows "card members < 3 * card (Q \<inter> R)"
proof -
  have fin: "finite Q" "finite R" using assms quorum_sub finite_members finite_subset by blast+
  have "card (Q \<union> R) \<le> card members"
    using assms quorum_sub finite_members by (intro card_mono) auto
  moreover have "card Q + card R = card (Q \<union> R) + card (Q \<inter> R)" using fin by (rule card_Un_Int)
  ultimately show ?thesis using quorum_large [OF assms(1)] quorum_large [OF assms(2)] by linarith
qed

lemma common_outside:
  assumes "quorum Q" "quorum R" "3 * card B \<le> card members" "finite B"
  shows "\<exists>x \<in> Q \<inter> R. x \<notin> B"
proof (rule ccontr)
  assume "\<not> ?thesis"
  then have "Q \<inter> R \<subseteq> B" by blast
  then have "card (Q \<inter> R) \<le> card B" using assms(4) by (rule card_mono [rotated])
  with assms(3) intersection_large [OF assms(1,2)] show False by simp
qed

lemma nonempty: "quorum Q \<Longrightarrow> Q \<noteq> {}"
  using quorum_large by fastforce

end

definition scid_set :: "ValidatorSet \<Rightarrow> bytes set" where
  "scid_set vs = did_scid ` set (vs_roots vs)"

definition is_quorum :: "ValidatorSet \<Rightarrow> bytes set \<Rightarrow> bool" where
  "is_quorum vs Q = (Q \<subseteq> scid_set vs \<and> (2 * card (scid_set vs)) div 3 + 1 \<le> card Q)"

lemma finite_scid_set [simp]: "finite (scid_set vs)"
  by (simp add: scid_set_def)

interpretation vs_quorum: quorum_system "scid_set vs" "is_quorum vs" for vs
  by unfold_locales (auto simp: is_quorum_def)

section \<open>Validator sets\<close>

definition vs_wf :: "ValidatorSet \<Rightarrow> bool" where
  "vs_wf vs =
     (sorted (vs_roots vs) \<and> distinct (map did_scid (vs_roots vs)) \<and> vs_roots vs \<noteq> []
      \<and> length (vs_roots vs) \<le> MAX_VALIDATORS)"

lemma validator_set_new_iff:
  "validator_set_new roots = Inr vs \<longleftrightarrow> vs_wf vs \<and> mset (vs_roots vs) = mset roots"
proof
  assume "validator_set_new roots = Inr vs"
  then show "vs_wf vs \<and> mset (vs_roots vs) = mset roots"
    by (auto simp: validator_set_new_def vs_wf_def first_dup_iff Let_def split: if_splits)
       (metis mset_sort mset_zero_iff)
next
  assume a: "vs_wf vs \<and> mset (vs_roots vs) = mset roots"
  then have s: "sort roots = vs_roots vs" by (metis properties_for_sort vs_wf_def)
  have "roots \<noteq> []" "length roots \<le> MAX_VALIDATORS"
    using a by (auto simp: vs_wf_def dest: mset_eq_length)
  with a s show "validator_set_new roots = Inr vs"
    by (cases vs) (simp add: validator_set_new_def vs_wf_def first_dup_iff Let_def)
qed

lemma vs_contains_iff: "vs_contains vs root \<longleftrightarrow> did_scid root \<in> scid_set vs"
  by (auto simp: vs_contains_def scid_set_def list_ex_iff image_iff) metis

lemma card_scid_set: "vs_wf vs \<Longrightarrow> card (scid_set vs) = length (vs_roots vs)"
  unfolding vs_wf_def scid_set_def by (metis distinct_card length_map set_map)

lemma is_quorum_threshold:
  "vs_wf vs \<Longrightarrow> is_quorum vs Q \<longleftrightarrow> Q \<subseteq> scid_set vs \<and> quorum_threshold vs \<le> card Q"
  by (simp add: is_quorum_def quorum_threshold_def card_scid_set)

section \<open>Certificates\<close>

text \<open>The validators whose precommits a certificate really carries.\<close>

definition certified :: "crypto \<Rightarrow> QuorumCertificate \<Rightarrow> ValidatorSet \<Rightarrow> kel_oracle \<Rightarrow> bytes set" where
  "certified C qc vs oracle =
     {did_scid (v_root v) | v. v \<in> set (qc_votes qc) \<and> v_kind v = Precommit
        \<and> v_height v = qc_height qc \<and> v_round v = qc_round qc \<and> v_block_hash v = qc_block_hash qc
        \<and> vs_contains vs (v_root v) \<and> oracle_vote_ok C oracle v}"

lemma count_votes_set:
  "set (count_votes C qc vs oracle counted votes)
     = set counted \<union> certified C (qc\<lparr>qc_votes := votes\<rparr>) vs oracle"
  by (induction C qc vs "oracle" counted votes rule: count_votes.induct) (auto simp: certified_def)

lemma count_votes_distinct:
  "distinct counted \<Longrightarrow> distinct (count_votes C qc vs oracle counted votes)"
  by (induction C qc vs "oracle" counted votes rule: count_votes.induct) auto

lemma count_votes_card:
  "length (count_votes C qc vs oracle [] (qc_votes qc)) = card (certified C qc vs oracle)"
  using distinct_card [OF count_votes_distinct [of "[]" C qc vs "oracle" "qc_votes qc"]]
  by (simp add: count_votes_set)

lemma certified_sub: "certified C qc vs oracle \<subseteq> scid_set vs"
  by (auto simp: certified_def vs_contains_iff)

lemma verify_finality_iff:
  "verify_finality C qc vs oracle = Inr n \<longleftrightarrow>
     length (qc_votes qc) \<le> MAX_VOTES_PER_CERTIFICATE \<and> n = card (certified C qc vs oracle)
       \<and> quorum_threshold vs \<le> n"
  by (auto simp: verify_finality_def Let_def count_votes_card)

lemma finality_is_quorum:
  "vs_wf vs \<Longrightarrow> verify_finality C qc vs oracle = Inr n \<Longrightarrow> is_quorum vs (certified C qc vs oracle)"
  by (simp add: verify_finality_iff is_quorum_threshold certified_sub)

lemma oracle_vote_check: "oracle_vote_ok C oracle v \<longleftrightarrow> check_vote C oracle v = Inr ()"
  by (auto simp: oracle_vote_ok_def check_vote_def ok_or_def is_ok_iff split: option.splits)

lemma assemble_ok:
  assumes "did_scid (v_root a) = did_scid (v_root b)" "v_height a = v_height b"
    "v_round a = v_round b" "v_kind a = v_kind b" "v_block_hash a \<noteq> v_block_hash b"
    "oracle_vote_ok C oracle a" "oracle_vote_ok C oracle b"
  shows "is_ok (assemble C a b oracle)"
  using assms by (simp add: assemble_def oracle_vote_check)

lemma assemble_offender: "assemble C a b oracle = Inr p \<Longrightarrow> did_scid (offender p) = did_scid (v_root a)"
  by (auto simp: assemble_def offender_def split: if_splits)

text \<open>Where the votes come from, an accepted proof convicts its signer.\<close>

lemma assemble_Inr:
  assumes "assemble C a b oracle = Inr p"
  shows "{ep_first p, ep_second p} = {a, b}" "v_block_hash (ep_first p) < v_block_hash (ep_second p)"
    "did_scid (v_root (ep_first p)) = did_scid (v_root (ep_second p))"
    "oracle_vote_ok C oracle (ep_first p)" "oracle_vote_ok C oracle (ep_second p)"
  using assms by (auto simp: assemble_def oracle_vote_check split: if_splits)

section \<open>The vote codec\<close>

definition vote_did_ok :: "crypto \<Rightarrow> Did \<Rightarrow> bool" where
  "vote_did_ok C d = (length d \<le> VOTE_MAX_DID_BYTES \<and> utf8_valid d \<and> is_ok (did_parse C d))"

definition vote_ok :: "crypto \<Rightarrow> Vote \<Rightarrow> bool" where
  "vote_ok C v =
     (length (v_block_hash v) = 32 \<and> vote_did_ok C (v_root v) \<and> vote_did_ok C (v_device v)
      \<and> list_all (\<lambda>s. sig_wf C (is_signature s)) (v_signature v)
      \<and> length (v_signature v) \<le> MAX_SIGS_PER_VOTE)"

lemma sr_iff [wire_iff]:
  "sr_u8 bs = Inr (b, r) \<longleftrightarrow> bs = b # r"
  "sr_u32 bs = Inr (w, r) \<longleftrightarrow> bs = to_be32 w @ r"
  "sr_u64 bs = Inr (x, r) \<longleftrightarrow> bs = to_be64 x @ r"
  "sr_take n bs = Inr (xs, r) \<longleftrightarrow> bs = xs @ r \<and> length xs = n"
  by (simp_all add: sr_u8_def sr_u32_def sr_u64_def sr_take_def rd_u8_iff rd_u32_iff rd_u64_iff
      take_n_eq_Inr)

lemma sr_eval [simp]:
  "sr_u8 (b # r) = Inr (b, r)"
  "sr_u32 (to_be32 w @ r) = Inr (w, r)"
  "sr_u64 (to_be64 x @ r) = Inr (x, r)"
  "length xs = n \<Longrightarrow> sr_take n (xs @ r) = Inr (xs, r)"
  by (simp_all add: sr_iff)

lemma take_did_iff [wire_iff]:
  "take_did C bs = Inr (d, r) \<longleftrightarrow> vote_did_ok C d \<and> bs = put_str d @ r"
proof -
  have "take_did C bs = Inr (d, r) \<longleftrightarrow> (\<exists>len. bs = to_be32 len @ d @ r \<and> length d = unat len
      \<and> unat len \<le> VOTE_MAX_DID_BYTES \<and> utf8_valid d \<and> did_parse C d = Inr d)"
    by (auto simp: take_did_def wire_iff did_parse_iff)
  also have "\<dots> \<longleftrightarrow> vote_did_ok C d \<and> bs = put_str d @ r"
    by (auto simp: vote_did_ok_def put_str_def is_ok_iff did_parse_iff length_eq_len32 VOTE_MAX_DID_BYTES_def)
  finally show ?thesis .
qed

lemma take_sig_iff [wire_iff]:
  "take_sig C bs = Inr (s, r) \<longleftrightarrow> sig_wf C (is_signature s) \<and> bs = put_sig s @ r"
  by (cases s) (auto simp: take_sig_def wire_iff suite_from_tag_Inr sig_decode_iff put_sig_def sig_wf_def)

interpretation vote_did_codec: canonical_codec put_str "take_did C" "vote_did_ok C" for C
  by unfold_locales (rule take_did_iff)

interpretation vote_sig_codec: canonical_codec put_sig "take_sig C" "\<lambda>s. sig_wf C (is_signature s)" for C
  by unfold_locales (rule take_sig_iff)

lemma take_kind_iff [wire_iff]: "take_kind bs = Inr (k, r) \<longleftrightarrow> bs = kind_byte k # r"
  by (cases k; cases bs) (auto simp: take_kind_def sr_u8_def rd_u8_def)

lemma take_kind_eval: "take_kind (kind_byte k # r) = Inr (k, r)"
  by (simp add: take_kind_iff)

lemma vote_decode:
  "vote_from_wire_bytes C bs = Inr v \<longleftrightarrow> vote_ok C v \<and> bs = vote_to_wire_bytes v"
proof
  assume "vote_from_wire_bytes C bs = Inr v"
  then show "vote_ok C v \<and> bs = vote_to_wire_bytes v"
    by (auto simp: vote_from_wire_bytes_def wire_iff vote_sig_codec.list_iff vote_ok_def
        vote_to_wire_bytes_def length_eq_len32)
next
  assume a: "vote_ok C v \<and> bs = vote_to_wire_bytes v"
  then have "length (v_signature v) < 2 ^ 32" by (simp add: vote_ok_def MAX_SIGS_PER_VOTE_def max_defs)
  with a show "vote_from_wire_bytes C bs = Inr v"
    using vote_sig_codec.dec_list [of C "v_signature v" "[]"]
    by (simp add: vote_from_wire_bytes_def vote_to_wire_bytes_def vote_ok_def take_kind_eval
        vote_did_codec.dec_enc)
qed

lemma kind_byte_inject [simp]: "kind_byte a = kind_byte b \<longleftrightarrow> a = b"
  by (cases a; cases b) simp_all

section \<open>Headers\<close>

lemma header_canonical_inj:
  assumes "header_wf h" "header_wf h'" "header_canonical_bytes h = header_canonical_bytes h'"
  shows "h = h'"
proof -
  have l: "length (bh_prev_hash h) = length (bh_prev_hash h')"
    "length (bh_state_root h) = length (bh_state_root h')"
    "length (bh_body_root h) = length (bh_body_root h')"
    using assms(1,2) by (simp_all add: header_wf_def)
  from assms(3) have "bh_height h = bh_height h' \<and> bh_prev_hash h = bh_prev_hash h'
      \<and> bh_state_root h = bh_state_root h' \<and> bh_body_root h = bh_body_root h'
      \<and> bh_timestamp_ms h = bh_timestamp_ms h' \<and> bh_proposer h = bh_proposer h'"
    using l by (auto simp: header_canonical_bytes_def
        dest!: u64_codec.prefix_free [OF TrueI TrueI] u32_codec.prefix_free [OF TrueI TrueI])
  then show ?thesis by (cases h; cases h') simp
qed

section \<open>Signed votes verify\<close>

lemma sign_vote_verifies:
  assumes C: "ed25519_ok C" "digests_ok C" "bs58_ok C"
    and dev: "ctrl_reach C device" "root = kel_did root_kel"
      "verify_delegation C root_kel (ctrl_kel device) = Inr caps" "cap_contains caps CAP_VOTE"
  shows "\<exists>v. sign_vote C k n r h root device = Inr v \<and> verify_vote C v root_kel (ctrl_kel device) = Inr ()
    \<and> v_kind v = k \<and> v_height v = n \<and> v_round v = r \<and> v_block_hash v = h \<and> v_root v = root
    \<and> v_device v = ctrl_did device"
proof -
  have inv: "ctrl_inv C device" by (rule ctrl_reach_inv [OF C dev(1)])
  let ?t = "vote_transcript k n r h"
  have "sign_message C device ?t = Inr (full_sigs C ?t (ct_current device))"
    using inv by (simp add: sign_message_def ctrl_inv_def sign_all_full [OF C(1)])
  moreover have "verify_message C (ctrl_kel device) ?t (full_sigs C ?t (ct_current device)) = Inr ()"
    using inv detached_ok [OF C(1) inv, of "key_state C device"]
    by (simp add: verify_message_def ctrl_inv_def key_state_def)
  moreover have "kel_did (ctrl_kel device) = ctrl_did device"
    by (simp add: kel_did_def ctrl_kel_def ctrl_did_def)
  ultimately show ?thesis using dev by (simp add: sign_vote_def verify_vote_def)
qed

lemma reg_record_faulty:
  "is_proven_faulty (reg_record C reg p) root \<longleftrightarrow> is_proven_faulty reg root
     \<or> (did_scid (offender p) = did_scid root
        \<and> \<not> list_ex (\<lambda>held. proof_digest C held = proof_digest C p) reg)"
  by (auto simp: is_proven_faulty_def reg_record_def)

lemma offenders_loop_scids:
  "did_scid ` set (offenders_loop roots ps)
     = did_scid ` set roots \<union> did_scid ` offender ` set ps"
  by (induction roots ps rule: offenders_loop.induct) (auto simp: list_ex_iff image_iff, metis)

section \<open>A concrete validator\<close>

text \<open>One validator whose device may vote, and the oracle that knows both logs.\<close>

definition demo_delegated :: Controller where
  "demo_delegated =
     projr (delegate_device toy_crypto demo_root (ctrl_did demo_device) cap_primary)"

definition demo_oracle :: kel_oracle where
  "demo_oracle d =
     (if d = ctrl_did demo_root then Some (ctrl_kel demo_delegated)
      else if d = ctrl_did demo_device then Some (ctrl_kel demo_device) else None)"

definition demo_vs :: ValidatorSet where
  "demo_vs = \<lparr>vs_roots = [ctrl_did demo_root]\<rparr>"

definition demo_vote :: "VoteKind \<Rightarrow> u64 \<Rightarrow> u32 \<Rightarrow> bytes \<Rightarrow> Vote" where
  "demo_vote k n r h = projr (sign_vote toy_crypto k n r h (ctrl_did demo_root) demo_device)"

definition demo_qc :: "bytes \<Rightarrow> QuorumCertificate" where
  "demo_qc h = \<lparr>qc_height = 1, qc_round = 0, qc_block_hash = h,
                qc_votes = [demo_vote Precommit 1 0 h]\<rparr>"

lemma demo_delegation:
  "verify_delegation toy_crypto (ctrl_kel demo_delegated) (ctrl_kel demo_device) = Inr cap_primary"
  "ct_scid demo_delegated = ct_scid demo_root"
proof -
  from demo_delegates obtain r2 where
      d: "delegate_device toy_crypto demo_root (ctrl_did demo_device) cap_primary = Inr demo_delegated"
      "revoke_device toy_crypto demo_delegated (ctrl_did demo_device) = Inr r2"
    by (auto simp: demo_delegated_def)
  then show "verify_delegation toy_crypto (ctrl_kel demo_delegated) (ctrl_kel demo_device) = Inr cap_primary"
    using delegation_ok [OF toy_crypto_ok(2,1,3) demo_root_ok(2) demo_device_ok(3,1,2)] by blast
  have "ctrl_inv toy_crypto demo_root" using ctrl_reach_inv toy_crypto_ok demo_root_ok(2) by blast
  from seal_seals(3) [OF toy_crypto_ok(2) this] d(1)
  show "ct_scid demo_delegated = ct_scid demo_root"
    by (simp add: delegate_device_def ctrl_kel_def)
qed

lemma demo_vote_ok:
  "oracle_vote_ok toy_crypto demo_oracle (demo_vote k n r h)"
  "v_kind (demo_vote k n r h) = k" "v_height (demo_vote k n r h) = n"
  "v_round (demo_vote k n r h) = r" "v_block_hash (demo_vote k n r h) = h"
  "v_root (demo_vote k n r h) = ctrl_did demo_root"
proof -
  have did: "ctrl_did demo_root = kel_did (ctrl_kel demo_delegated)"
    by (simp add: ctrl_did_def kel_did_def ctrl_kel_def demo_delegation(2))
  have cap: "cap_contains cap_primary CAP_VOTE" by code_simp
  have "ctrl_did demo_device \<noteq> ctrl_did demo_root"
    using demo_device_scid by (simp add: ctrl_did_def from_scid_unchecked_def)
  with sign_vote_verifies [OF toy_crypto_ok(2,1,3) demo_device_ok(1) did demo_delegation(1) cap, of k n r h]
  show "oracle_vote_ok toy_crypto demo_oracle (demo_vote k n r h)"
    "v_kind (demo_vote k n r h) = k" "v_height (demo_vote k n r h) = n"
    "v_round (demo_vote k n r h) = r" "v_block_hash (demo_vote k n r h) = h"
    "v_root (demo_vote k n r h) = ctrl_did demo_root"
    by (auto simp: demo_vote_def oracle_vote_ok_def demo_oracle_def is_ok_iff)
qed

lemma demo_vs_wf: "vs_wf demo_vs"
  by (simp add: vs_wf_def demo_vs_def MAX_VALIDATORS_def)

lemma demo_qc_final: "verify_finality toy_crypto (demo_qc h) demo_vs demo_oracle = Inr 1"
  by (simp add: verify_finality_iff certified_def demo_qc_def demo_vote_ok vs_contains_iff scid_set_def
      demo_vs_def quorum_threshold_def MAX_VOTES_PER_CERTIFICATE_def MAX_VALIDATORS_def)

section \<open>Properties\<close>

text \<open>
  Property (C6): conflicting certificates convict their signers. When two certificates for
  different blocks at the same height and round both verify, more than a third of the validator
  set is provably faulty: for each of these members the two certificates contain a pair of votes
  from which an equivocation proof against that member assembles. Votes of outsiders, which a
  certificate may carry, do not count.
\<close>

theorem conflicting_certificates_convict:
  assumes wf: "vs_wf vs"
    and qc: "verify_finality C qc vs oracle = Inr n" "verify_finality C qc' vs oracle = Inr n'"
    and same: "qc_height qc = qc_height qc'" "qc_round qc = qc_round qc'"
    and diff: "qc_block_hash qc \<noteq> qc_block_hash qc'"
  shows "vs_len vs < 3 * card {x \<in> scid_set vs. \<exists>a \<in> set (qc_votes qc). \<exists>b \<in> set (qc_votes qc').
    \<exists>p. assemble C a b oracle = Inr p \<and> did_scid (offender p) = x}" (is "_ < 3 * card ?F")
proof -
  let ?Q = "certified C qc vs oracle" and ?R = "certified C qc' vs oracle"
  have "card (scid_set vs) < 3 * card (?Q \<inter> ?R)"
    using vs_quorum.intersection_large finality_is_quorum [OF wf] qc by blast
  moreover have sub: "?Q \<inter> ?R \<subseteq> ?F"
  proof
    fix x assume x: "x \<in> ?Q \<inter> ?R"
    then obtain a b where ab: "a \<in> set (qc_votes qc)" "b \<in> set (qc_votes qc')"
        "x = did_scid (v_root a)" "x = did_scid (v_root b)"
        "v_kind a = Precommit" "v_height a = qc_height qc" "v_round a = qc_round qc"
        "v_block_hash a = qc_block_hash qc" "oracle_vote_ok C oracle a"
        "v_kind b = Precommit" "v_height b = qc_height qc'" "v_round b = qc_round qc'"
        "v_block_hash b = qc_block_hash qc'" "oracle_vote_ok C oracle b"
      unfolding certified_def by blast
    have "is_ok (assemble C a b oracle)" by (rule assemble_ok) (use ab same diff in auto)
    then obtain p where p: "assemble C a b oracle = Inr p" by (auto simp: is_ok_iff)
    moreover have "did_scid (offender p) = x" using assemble_offender [OF p] ab(3) by simp
    moreover have "x \<in> scid_set vs" using x certified_sub by blast
    ultimately show "x \<in> ?F" using ab(1,2) by blast
  qed
  moreover have "card (?Q \<inter> ?R) \<le> card ?F" by (rule card_mono [OF _ sub]) (simp add: scid_set_def)
  ultimately show ?thesis by (simp add: vs_len_def card_scid_set [OF wf])
qed


text \<open>
  A validator set does not depend on the order of its construction: any two
  permutations of the roots give the same result, error or set, and a set that is built has
  distinct members whose quorums pairwise share more than a third of them.
\<close>

lemma validator_set_order_free:
  assumes "mset roots = mset roots'"
  shows "validator_set_new roots = validator_set_new roots'
    \<and> (\<forall>vs. validator_set_new roots = Inr vs \<longrightarrow> distinct (map did_scid (vs_roots vs))
        \<and> (\<forall>Q R. Q \<subseteq> scid_set vs \<longrightarrow> R \<subseteq> scid_set vs \<longrightarrow> quorum_threshold vs \<le> card Q
             \<longrightarrow> quorum_threshold vs \<le> card R \<longrightarrow> vs_len vs < 3 * card (Q \<inter> R)))"
proof
  have "sort roots = sort roots'" using assms by (metis mset_sort properties_for_sort sorted_sort)
  moreover have "length roots = length roots'" by (rule mset_eq_length [OF assms])
  ultimately show "validator_set_new roots = validator_set_new roots'"
    by (auto simp: validator_set_new_def)
  show "\<forall>vs. validator_set_new roots = Inr vs \<longrightarrow> distinct (map did_scid (vs_roots vs))
        \<and> (\<forall>Q R. Q \<subseteq> scid_set vs \<longrightarrow> R \<subseteq> scid_set vs \<longrightarrow> quorum_threshold vs \<le> card Q
             \<longrightarrow> quorum_threshold vs \<le> card R \<longrightarrow> vs_len vs < 3 * card (Q \<inter> R))"
    using vs_quorum.intersection_large
    by (auto simp: validator_set_new_iff is_quorum_threshold vs_len_def card_scid_set vs_wf_def
        simp flip: card_scid_set)
qed

text \<open>
  A vote signature binds everything it should. Equal transcripts have the same
  phase, height, round and block hash, and no vote transcript is the signing form of a key event
  of any identity.
\<close>

lemma vote_transcript_binds:
  assumes "length h = 32" "length h' = 32"
  shows "(vote_transcript k n r h = vote_transcript k' n' r' h' \<longrightarrow> k = k' \<and> n = n' \<and> r = r' \<and> h = h')
    \<and> vote_transcript k n r h \<noteq> signing_bytes e"
proof
  show "vote_transcript k n r h = vote_transcript k' n' r' h' \<longrightarrow> k = k' \<and> n = n' \<and> r = r' \<and> h = h'"
    by (auto simp: vote_transcript_def dest!: u64_codec.prefix_free [OF TrueI TrueI]
        u32_codec.prefix_free [OF TrueI TrueI])
  have "hd (signing_bytes e) = kind_tag (ev_kind e)" by (simp add: signing_bytes_def event_encode_def)
  moreover have "hd (vote_transcript k n r h) = 109"
    by (simp add: vote_transcript_def VOTE_SIGN_DOMAIN_def ascii_def of_char_def)
  moreover have "kind_tag (ev_kind e) \<noteq> 109" by (cases "ev_kind e") (simp_all add: tag_defs)
  ultimately show "vote_transcript k n r h \<noteq> signing_bytes e" by metis
qed

text \<open>
  A header hash binds the header. Two well-formed headers with the same hash are
  the same header, unless their canonical bytes exhibit a collision of BLAKE3.
\<close>

lemma header_hash_binds:
  assumes "header_wf h" "header_wf h'" "header_hash C h = header_hash C h'"
  shows "h = h' \<or> collides C (header_canonical_bytes h) (header_canonical_bytes h')"
  using assms(3) header_canonical_inj [OF assms(1,2)]
    blake3_eqD [of C "header_canonical_bytes h" "header_canonical_bytes h'"]
  by (auto simp: header_hash_def)

theorem conflicting_certificates_convict_witness:
  "verify_finality toy_crypto (demo_qc (replicate 32 1)) demo_vs demo_oracle = Inr 1
   \<and> verify_finality toy_crypto (demo_qc (replicate 32 2)) demo_vs demo_oracle = Inr 1
   \<and> vs_len demo_vs < 3 * card {x \<in> scid_set demo_vs. \<exists>a \<in> set (qc_votes (demo_qc (replicate 32 1))).
      \<exists>b \<in> set (qc_votes (demo_qc (replicate 32 2))). \<exists>p. assemble toy_crypto a b demo_oracle = Inr p \<and> did_scid (offender p) = x}"
proof -
  have "qc_block_hash (demo_qc (replicate 32 1)) \<noteq> qc_block_hash (demo_qc (replicate 32 2))"
    by (simp add: demo_qc_def)
  from conflicting_certificates_convict [OF demo_vs_wf demo_qc_final demo_qc_final _ _ this]
  show ?thesis by (simp add: demo_qc_final) (simp add: demo_qc_def)
qed

end
