(* ===== verification/Round.thy ===== *)
theory Round
  imports Chain
begin

text \<open>
  The Tendermint round driver of \<open>mini-consensus\<close> (round.rs), with the equivocation evidence it
  surfaces (evidence.rs, consequence.rs). Every event handler returns the new state and the
  actions it asks its host to perform, in order. The source iterates over one hash map whose
  order it does not fix (the search for a decidable proposal): that order is the argument \<open>ord\<close>.
\<close>

section \<open>Evidence (evidence.rs) and its registry (consequence.rs)\<close>

record EquivocationEvidence =
  ee_first :: Vote
  ee_second :: Vote

definition verifies :: "crypto \<Rightarrow> kel_oracle \<Rightarrow> Vote \<Rightarrow> bool" where
  "verifies C oracle vote =
     (case (oracle (v_root vote), oracle (v_device vote)) of
        (Some root_kel, Some device_kel) \<Rightarrow> is_ok (verify_vote C vote root_kel device_kel)
      | _ \<Rightarrow> False)"

definition verify_equivocation :: "crypto \<Rightarrow> EquivocationEvidence \<Rightarrow> kel_oracle \<Rightarrow> bool" where
  "verify_equivocation C ev oracle =
     (let a = ee_first ev; b = ee_second ev in
      if did_scid (v_root a) \<noteq> did_scid (v_root b) then False
      else if v_height a \<noteq> v_height b \<or> v_round a \<noteq> v_round b \<or> v_kind a \<noteq> v_kind b then False
      else if v_block_hash a = v_block_hash b then False
      else verifies C oracle a \<and> verifies C oracle b)"

datatype RecordOutcome = NewlyFlagged Did | AlreadyFlagged Did | InvalidEvidence

type_synonym EquivocatorRegistry = "bytes set"

definition registry_record ::
  "crypto \<Rightarrow> EquivocatorRegistry \<Rightarrow> EquivocationEvidence \<Rightarrow> kel_oracle
    \<Rightarrow> RecordOutcome \<times> EquivocatorRegistry" where
  "registry_record C flagged ev oracle =
     (if \<not> verify_equivocation C ev oracle then (InvalidEvidence, flagged)
      else let root = v_root (ee_first ev) in
        if did_scid root \<in> flagged then (AlreadyFlagged root, flagged)
        else (NewlyFlagged root, insert (did_scid root) flagged))"

definition is_flagged :: "EquivocatorRegistry \<Rightarrow> Did \<Rightarrow> bool" where
  "is_flagged flagged root = (did_scid root \<in> flagged)"

section \<open>Data (round.rs)\<close>

definition NIL :: bytes where "NIL = replicate 32 0"

definition proposer_for :: "u64 \<Rightarrow> u32 \<Rightarrow> ValidatorSet \<Rightarrow> Did" where
  "proposer_for height rd vs =
     vs_roots vs ! unat ((height + ucast rd) mod of_nat (length (vs_roots vs)))"

datatype Step = Propose_step | Prevote_step | Precommit_step

fun step_rank :: "Step \<Rightarrow> nat" where
  "step_rank Propose_step = 0"
| "step_rank Prevote_step = 1"
| "step_rank Precommit_step = 2"

instantiation Step :: linorder
begin

definition less_eq_Step :: "Step \<Rightarrow> Step \<Rightarrow> bool" where
  "less_eq_Step a b = (step_rank a \<le> step_rank b)"

definition less_Step :: "Step \<Rightarrow> Step \<Rightarrow> bool" where
  "less_Step a b = (step_rank a < step_rank b)"

instance
proof
  fix x y z :: Step
  show "x < y \<longleftrightarrow> x \<le> y \<and> \<not> y \<le> x" by (auto simp: less_eq_Step_def less_Step_def)
  show "x \<le> x" by (simp add: less_eq_Step_def)
  show "x \<le> y \<Longrightarrow> y \<le> z \<Longrightarrow> x \<le> z" by (simp add: less_eq_Step_def)
  show "x \<le> y \<Longrightarrow> y \<le> x \<Longrightarrow> x = y" by (cases x; cases y) (simp_all add: less_eq_Step_def)
  show "x \<le> y \<or> y \<le> x" by (auto simp: less_eq_Step_def)
qed

end

datatype Action =
    Propose u32 "bytes option" int
  | SignPrevote u32 bytes
  | SignPrecommit u32 bytes
  | ScheduleTimeout Step u32
  | Decided QuorumCertificate
  | Equivocation EquivocationEvidence

record ProposalInfo =
  pi_id :: bytes
  pi_valid_round :: int
  pi_valid :: bool

record RoundVotes =
  rv_prevotes :: "(bytes, bytes set) hmap"
  rv_precommits :: "(bytes, bytes set) hmap"
  rv_precommit_votes :: "(bytes, Vote list) hmap"
  rv_participants :: "bytes set"
  rv_prevote_by_root :: "(bytes, Vote) hmap"
  rv_precommit_by_root :: "(bytes, Vote) hmap"

definition RoundVotes_default :: RoundVotes where
  "RoundVotes_default =
     \<lparr>rv_prevotes = [], rv_precommits = [], rv_precommit_votes = [], rv_participants = {},
      rv_prevote_by_root = [], rv_precommit_by_root = []\<rparr>"

definition prevote_count :: "RoundVotes \<Rightarrow> bytes \<Rightarrow> nat" where
  "prevote_count t bid = card (get_or {} (map_of (rv_prevotes t) bid))"

definition precommit_count :: "RoundVotes \<Rightarrow> bytes \<Rightarrow> nat" where
  "precommit_count t bid = card (get_or {} (map_of (rv_precommits t) bid))"

definition total_prevotes :: "RoundVotes \<Rightarrow> nat" where
  "total_prevotes t = sum_list (map (card \<circ> snd) (rv_prevotes t))"

definition total_precommits :: "RoundVotes \<Rightarrow> nat" where
  "total_precommits t = sum_list (map (card \<circ> snd) (rv_precommits t))"

record Round =
  rn_height :: u64
  rn_validators :: ValidatorSet
  rn_local_root :: Did
  rn_round :: u32
  rn_step :: Step
  rn_locked_value :: "bytes option"
  rn_locked_round :: int
  rn_valid_value :: "bytes option"
  rn_valid_round :: int
  rn_decided :: bool
  rn_proposals :: "(u32, ProposalInfo) hmap"
  rn_votes :: "(u32, RoundVotes) hmap"
  rn_prevoted :: "u32 set"
  rn_precommitted :: "u32 set"
  rn_prevote_armed :: "u32 set"
  rn_precommit_armed :: "u32 set"
  rn_quorum_seen :: "u32 set"
  rn_started :: "u32 set"

definition round_new :: "u64 \<Rightarrow> ValidatorSet \<Rightarrow> Did \<Rightarrow> Round" where
  "round_new height vs local_root =
     \<lparr>rn_height = height, rn_validators = vs, rn_local_root = local_root, rn_round = 0,
      rn_step = Propose_step, rn_locked_value = None, rn_locked_round = -1, rn_valid_value = None,
      rn_valid_round = -1, rn_decided = False, rn_proposals = [], rn_votes = [], rn_prevoted = {},
      rn_precommitted = {}, rn_prevote_armed = {}, rn_precommit_armed = {}, rn_quorum_seen = {},
      rn_started = {}\<rparr>"

definition rn_quorum :: "Round \<Rightarrow> nat" where
  "rn_quorum s = quorum_threshold (rn_validators s)"

definition f_plus_1 :: "Round \<Rightarrow> nat" where
  "f_plus_1 s = length (vs_roots (rn_validators s)) - rn_quorum s + 1"

definition is_local_proposer :: "Round \<Rightarrow> u32 \<Rightarrow> bool" where
  "is_local_proposer s rd =
     (did_scid (proposer_for (rn_height s) rd (rn_validators s)) = did_scid (rn_local_root s))"

section \<open>The rules\<close>

definition enter_round_core :: "Round \<Rightarrow> u32 \<Rightarrow> Round \<times> Action list" where
  "enter_round_core s rd =
     (if rn_decided s \<or> rd \<in> rn_started s then (s, [])
      else let s = s\<lparr>rn_started := insert rd (rn_started s), rn_round := rd, rn_step := Propose_step\<rparr> in
        if is_local_proposer s rd then
          (s, [case rn_valid_value s of
                 Some v \<Rightarrow> Propose rd (Some v) (rn_valid_round s)
               | None \<Rightarrow> Propose rd None (-1)])
        else (s, [ScheduleTimeout Propose_step rd]))"

definition mark_prevote :: "Round \<Rightarrow> u32 \<Rightarrow> Round" where
  "mark_prevote s rd =
     s\<lparr>rn_prevoted := insert rd (rn_prevoted s),
       rn_step := (if rd = rn_round s then max (rn_step s) Prevote_step else rn_step s)\<rparr>"

definition mark_precommit :: "Round \<Rightarrow> u32 \<Rightarrow> Round" where
  "mark_precommit s rd =
     s\<lparr>rn_precommitted := insert rd (rn_precommitted s),
       rn_step := (if rd = rn_round s then max (rn_step s) Precommit_step else rn_step s)\<rparr>"

text \<open>\<open>self.votes.get(&r).map_or(0, f)\<close>.\<close>

definition tally :: "Round \<Rightarrow> u32 \<Rightarrow> (RoundVotes \<Rightarrow> nat) \<Rightarrow> nat" where
  "tally s rd f = (case map_of (rn_votes s) rd of None \<Rightarrow> 0 | Some t \<Rightarrow> f t)"

definition rule_propose_fresh :: "Round \<Rightarrow> Round \<times> Action list" where
  "rule_propose_fresh s =
     (let r = rn_round s in
      if rn_step s \<noteq> Propose_step \<or> r \<in> rn_prevoted s then (s, [])
      else case map_of (rn_proposals s) r of
        None \<Rightarrow> (s, [])
      | Some p \<Rightarrow>
          if pi_valid_round p \<noteq> -1 then (s, [])
          else let target = (if pi_valid p \<and> (rn_locked_round s = -1 \<or> rn_locked_value s = Some (pi_id p))
                             then pi_id p else NIL)
               in (mark_prevote s r, [SignPrevote r target]))"

definition rule_propose_polc :: "Round \<Rightarrow> Round \<times> Action list" where
  "rule_propose_polc s =
     (let r = rn_round s in
      if rn_step s \<noteq> Propose_step \<or> r \<in> rn_prevoted s then (s, [])
      else case map_of (rn_proposals s) r of
        None \<Rightarrow> (s, [])
      | Some p \<Rightarrow>
          let vr = pi_valid_round p; vr32 = word_of_int vr :: u32 in
          if \<not> (vr \<ge> 0 \<and> vr32 < r) then (s, [])
          else if \<not> (tally s vr32 (\<lambda>t. prevote_count t (pi_id p)) \<ge> rn_quorum s) then (s, [])
          else let target = (if pi_valid p \<and> (rn_locked_round s \<le> vr \<or> rn_locked_value s = Some (pi_id p))
                             then pi_id p else NIL)
               in (mark_prevote s r, [SignPrevote r target]))"

definition rule_prevote_timeout :: "Round \<Rightarrow> Round \<times> Action list" where
  "rule_prevote_timeout s =
     (let r = rn_round s in
      if rn_step s \<noteq> Prevote_step \<or> r \<in> rn_prevote_armed s then (s, [])
      else if tally s r total_prevotes \<ge> rn_quorum s then
        (s\<lparr>rn_prevote_armed := insert r (rn_prevote_armed s)\<rparr>, [ScheduleTimeout Prevote_step r])
      else (s, []))"

definition rule_prevote_quorum :: "Round \<Rightarrow> Round \<times> Action list" where
  "rule_prevote_quorum s =
     (let r = rn_round s in
      if rn_step s < Prevote_step \<or> r \<in> rn_quorum_seen s then (s, [])
      else case map_of (rn_proposals s) r of
        None \<Rightarrow> (s, [])
      | Some p \<Rightarrow>
          if \<not> pi_valid p then (s, [])
          else if tally s r (\<lambda>t. prevote_count t (pi_id p)) < rn_quorum s then (s, [])
          else let s1 = s\<lparr>rn_quorum_seen := insert r (rn_quorum_seen s),
                          rn_valid_value := Some (pi_id p), rn_valid_round := uint r\<rparr>
               in if rn_step s1 = Prevote_step \<and> r \<notin> rn_precommitted s1 then
                    (mark_precommit (s1\<lparr>rn_locked_value := Some (pi_id p), rn_locked_round := uint r\<rparr>) r,
                     [SignPrecommit r (pi_id p)])
                  else (s1, []))"

definition rule_prevote_nil :: "Round \<Rightarrow> Round \<times> Action list" where
  "rule_prevote_nil s =
     (let r = rn_round s in
      if rn_step s \<noteq> Prevote_step \<or> r \<in> rn_precommitted s then (s, [])
      else if tally s r (\<lambda>t. prevote_count t NIL) \<ge> rn_quorum s then
        (mark_precommit s r, [SignPrecommit r NIL])
      else (s, []))"

definition rule_precommit_timeout :: "Round \<Rightarrow> Round \<times> Action list" where
  "rule_precommit_timeout s =
     (let r = rn_round s in
      if r \<in> rn_precommit_armed s then (s, [])
      else if tally s r total_precommits \<ge> rn_quorum s then
        (s\<lparr>rn_precommit_armed := insert r (rn_precommit_armed s)\<rparr>, [ScheduleTimeout Precommit_step r])
      else (s, []))"

type_synonym iter_order = "(u32 \<times> ProposalInfo) list \<Rightarrow> (u32 \<times> ProposalInfo) list"

definition decidable :: "Round \<Rightarrow> u32 \<times> ProposalInfo \<Rightarrow> bool" where
  "decidable s rp =
     (pi_valid (snd rp)
      \<and> tally s (fst rp) (\<lambda>t. precommit_count t (pi_id (snd rp))) \<ge> rn_quorum s)"

definition rule_decide :: "iter_order \<Rightarrow> Round \<Rightarrow> Round \<times> Action list" where
  "rule_decide ord s =
     (case List.find (decidable s) (ord (rn_proposals s)) of
        None \<Rightarrow> (s, [])
      | Some (r, p) \<Rightarrow>
          let votes = get_or [] (case map_of (rn_votes s) r of
                  None \<Rightarrow> None | Some t \<Rightarrow> map_of (rv_precommit_votes t) (pi_id p))
          in (s\<lparr>rn_decided := True\<rparr>,
              [Decided \<lparr>qc_height = rn_height s, qc_round = r, qc_block_hash = pi_id p, qc_votes = votes\<rparr>]))"

definition rule_skip_round :: "Round \<Rightarrow> Round \<times> Action list" where
  "rule_skip_round s =
     (let rs = map fst (filter (\<lambda>(r, t). r > rn_round s \<and> card (rv_participants t) \<ge> f_plus_1 s) (rn_votes s))
      in if rs = [] then (s, []) else enter_round_core s (Min (set rs)))"

section \<open>The fixed point\<close>

text \<open>Running one rule after the other, collecting the actions.\<close>

definition seq_rule ::
  "(Round \<Rightarrow> Round \<times> Action list) \<Rightarrow> Round \<times> Action list \<Rightarrow> Round \<times> Action list" where
  "seq_rule f sa = (let (s', a) = f (fst sa) in (s', snd sa @ a))"

definition eval_pass :: "iter_order \<Rightarrow> Round \<Rightarrow> Round \<times> Action list" where
  "eval_pass ord s =
     seq_rule rule_skip_round (seq_rule (rule_decide ord) (seq_rule rule_precommit_timeout
       (seq_rule rule_prevote_nil (seq_rule rule_prevote_quorum (seq_rule rule_prevote_timeout
         (seq_rule rule_propose_polc (seq_rule rule_propose_fresh (s, []))))))))"

text \<open>
  Every action a rule emits consumes a guard: a round enters one of five sets of rounds, which
  are finite because a round number has 32 bits, or the height is decided and the loop ends.
\<close>

definition guard_measure :: "Round \<Rightarrow> nat" where
  "guard_measure s =
     card (- rn_prevoted s) + card (- rn_precommitted s) + card (- rn_prevote_armed s)
       + card (- rn_precommit_armed s) + card (- rn_started s)"

definition progresses :: "Round \<Rightarrow> Round \<times> Action list \<Rightarrow> bool" where
  "progresses s sa =
     (guard_measure (fst sa) \<le> guard_measure s
      \<and> (snd sa \<noteq> [] \<longrightarrow> guard_measure (fst sa) < guard_measure s \<or> rn_decided (fst sa))
      \<and> (rn_decided s \<longrightarrow> rn_decided (fst sa)))"

lemma card_compl_insert:
  "card (- insert x S) \<le> card (- S)" "x \<notin> S \<Longrightarrow> card (- insert x S) < card (- S)" for x :: u32
proof -
  show "card (- insert x S) \<le> card (- S)" by (rule card_mono) auto
  show "x \<notin> S \<Longrightarrow> card (- insert x S) < card (- S)" by (rule psubset_card_mono) auto
qed

lemma progresses_refl: "progresses s (s, [])"
  by (simp add: progresses_def)

lemma progresses_mark:
  "rd \<notin> rn_prevoted s \<Longrightarrow> progresses s (mark_prevote s rd, a)"
  "rd \<notin> rn_precommitted s \<Longrightarrow> progresses s (mark_precommit s rd, a)"
  using card_compl_insert(2) [of rd "rn_prevoted s"] card_compl_insert(2) [of rd "rn_precommitted s"]
  by (simp_all add: progresses_def guard_measure_def mark_prevote_def mark_precommit_def)

lemma progresses_enter: "progresses s (enter_round_core s rd)"
  using card_compl_insert(2) [of rd "rn_started s"]
  by (auto simp: enter_round_core_def progresses_def guard_measure_def Let_def)

lemma progresses_rules:
  "progresses s (rule_propose_fresh s)" "progresses s (rule_propose_polc s)"
  "progresses s (rule_prevote_timeout s)" "progresses s (rule_prevote_nil s)"
  "progresses s (rule_precommit_timeout s)" "progresses s (rule_decide ord s)"
  "progresses s (rule_skip_round s)"
proof -
  show "progresses s (rule_propose_fresh s)"
    by (auto simp: rule_propose_fresh_def Let_def progresses_refl progresses_mark split: option.splits)
  show "progresses s (rule_propose_polc s)"
    by (auto simp: rule_propose_polc_def Let_def progresses_refl progresses_mark split: option.splits)
  show "progresses s (rule_prevote_timeout s)"
    using card_compl_insert(2) [of "rn_round s" "rn_prevote_armed s"]
    by (auto simp: rule_prevote_timeout_def Let_def progresses_def guard_measure_def)
  show "progresses s (rule_prevote_nil s)"
    by (auto simp: rule_prevote_nil_def Let_def progresses_refl progresses_mark)
  show "progresses s (rule_precommit_timeout s)"
    using card_compl_insert(2) [of "rn_round s" "rn_precommit_armed s"]
    by (auto simp: rule_precommit_timeout_def Let_def progresses_def guard_measure_def)
  show "progresses s (rule_decide ord s)"
    by (auto simp: rule_decide_def Let_def progresses_def guard_measure_def split: option.splits)
  show "progresses s (rule_skip_round s)"
    by (auto simp: rule_skip_round_def Let_def progresses_refl progresses_enter)
qed

lemma progresses_prevote_quorum: "progresses s (rule_prevote_quorum s)"
  using card_compl_insert(2) [of "rn_round s" "rn_precommitted s"]
  by (auto simp: rule_prevote_quorum_def Let_def progresses_def guard_measure_def mark_precommit_def
      split: option.splits)

lemma progresses_seq:
  assumes "progresses s sa" "\<And>s'. progresses s' (f s')"
  shows "progresses s (seq_rule f sa)"
proof -
  obtain s1 a1 where sa: "sa = (s1, a1)" by (cases sa)
  obtain s2 a2 where f: "f s1 = (s2, a2)" by (cases "f s1")
  from assms(2) [of s1] assms(1) show ?thesis
    by (auto simp: progresses_def seq_rule_def sa f)
qed

lemma progresses_pass: "progresses s (eval_pass ord s)"
  unfolding eval_pass_def
  by (intro progresses_seq progresses_rules progresses_prevote_quorum progresses_refl)

function eval_loop :: "iter_order \<Rightarrow> Round \<Rightarrow> Round \<times> Action list" where
  "eval_loop ord s =
     (let (s', a) = eval_pass ord s in
      if rn_decided s' \<or> a = [] then (s', a)
      else let (s'', a') = eval_loop ord s' in (s'', a @ a'))"
  by auto
termination
proof (relation "measure (\<lambda>(_, s). guard_measure s)")
  fix ord s s' a sa
  assume "sa = eval_pass ord s" "(s', a) = sa" "\<not> (rn_decided s' \<or> a = [])"
  with progresses_pass [of s ord] show "((ord, s'), (ord, s)) \<in> measure (\<lambda>(_, s). guard_measure s)"
    by (cases "eval_pass ord s") (auto simp: progresses_def)
qed simp

declare eval_loop.simps [simp del]

definition evaluate :: "iter_order \<Rightarrow> Round \<Rightarrow> Round \<times> Action list" where
  "evaluate ord s = (if rn_decided s then (s, []) else eval_loop ord s)"

section \<open>Event handlers\<close>

definition then_evaluate :: "iter_order \<Rightarrow> Round \<times> Action list \<Rightarrow> Round \<times> Action list" where
  "then_evaluate ord sa = seq_rule (evaluate ord) sa"

definition round_start :: "iter_order \<Rightarrow> Round \<Rightarrow> Round \<times> Action list" where
  "round_start ord s = then_evaluate ord (enter_round_core s 0)"

definition on_proposal ::
  "iter_order \<Rightarrow> Round \<Rightarrow> u32 \<Rightarrow> bytes \<Rightarrow> int \<Rightarrow> bool \<Rightarrow> Round \<times> Action list" where
  "on_proposal ord s rd bid valid_round valid =
     evaluate ord
       (case map_of (rn_proposals s) rd of
          Some _ \<Rightarrow> s
        | None \<Rightarrow> s\<lparr>rn_proposals := AList.update rd
            \<lparr>pi_id = bid, pi_valid_round = valid_round, pi_valid = valid\<rparr> (rn_proposals s)\<rparr>)"

definition accept_vote :: "crypto \<Rightarrow> kel_oracle \<Rightarrow> Round \<Rightarrow> Vote \<Rightarrow> bool" where
  "accept_vote C oracle s vote =
     (if v_height vote \<noteq> rn_height s then False
      else if \<not> vs_contains (rn_validators s) (v_root vote) then False
      else case (oracle (v_root vote), oracle (v_device vote)) of
          (Some root_kel, Some device_kel) \<Rightarrow> is_ok (verify_vote C vote root_kel device_kel)
        | _ \<Rightarrow> False)"

text \<open>\<open>entry(k).or_default().insert(x)\<close> and \<open>entry(k).or_default().push(x)\<close>.\<close>

definition entry_insert :: "'k \<Rightarrow> 'a \<Rightarrow> ('k, 'a set) hmap \<Rightarrow> ('k, 'a set) hmap" where
  "entry_insert k x m = AList.update k (insert x (get_or {} (map_of m k))) m"

definition entry_push :: "'k \<Rightarrow> 'a \<Rightarrow> ('k, 'a list) hmap \<Rightarrow> ('k, 'a list) hmap" where
  "entry_push k x m = AList.update k (get_or [] (map_of m k) @ [x]) m"

definition by_root :: "VoteKind \<Rightarrow> RoundVotes \<Rightarrow> (bytes, Vote) hmap" where
  "by_root kind t = (case kind of Prevote \<Rightarrow> rv_prevote_by_root t | Precommit \<Rightarrow> rv_precommit_by_root t)"

definition file_vote :: "RoundVotes \<Rightarrow> Vote \<Rightarrow> RoundVotes" where
  "file_vote t vote =
     (let scid = did_scid (v_root vote); bid = v_block_hash vote in
      case v_kind vote of
        Prevote \<Rightarrow>
          t\<lparr>rv_prevote_by_root := AList.update scid vote (rv_prevote_by_root t),
            rv_prevotes := entry_insert bid scid (rv_prevotes t)\<rparr>
      | Precommit \<Rightarrow>
          t\<lparr>rv_precommit_by_root := AList.update scid vote (rv_precommit_by_root t),
            rv_precommits := entry_insert bid scid (rv_precommits t),
            rv_precommit_votes :=
              (if scid \<in> get_or {} (map_of (rv_precommits t) bid) then rv_precommit_votes t
               else entry_push bid vote (rv_precommit_votes t))\<rparr>)"

definition on_vote ::
  "iter_order \<Rightarrow> crypto \<Rightarrow> kel_oracle \<Rightarrow> Round \<Rightarrow> Vote \<Rightarrow> Round \<times> Action list" where
  "on_vote ord C oracle s vote =
     (if \<not> accept_vote C oracle s vote then (s, [])
      else
        let scid = did_scid (v_root vote);
            t0 = get_or RoundVotes_default (map_of (rn_votes s) (v_round vote));
            t = t0\<lparr>rv_participants := insert scid (rv_participants t0)\<rparr>;
            put = (\<lambda>t'. s\<lparr>rn_votes := AList.update (v_round vote) t' (rn_votes s)\<rparr>)
        in case map_of (by_root (v_kind vote) t) scid of
             Some prior \<Rightarrow>
               if v_block_hash prior = v_block_hash vote then (put t, [])
               else (put t, [Equivocation \<lparr>ee_first = prior, ee_second = vote\<rparr>])
           | None \<Rightarrow> evaluate ord (put (file_vote t vote)))"

definition on_timeout :: "iter_order \<Rightarrow> Round \<Rightarrow> Step \<Rightarrow> u32 \<Rightarrow> Round \<times> Action list" where
  "on_timeout ord s st rd =
     (if rn_decided s \<or> rd \<noteq> rn_round s then (s, [])
      else case st of
        Propose_step \<Rightarrow>
          if rn_step s = Propose_step
          then then_evaluate ord (mark_prevote s rd, [SignPrevote rd NIL]) else (s, [])
      | Prevote_step \<Rightarrow>
          if rn_step s = Prevote_step
          then then_evaluate ord (mark_precommit s rd, [SignPrecommit rd NIL]) else (s, [])
      | Precommit_step \<Rightarrow> then_evaluate ord (enter_round_core s (rd + 1)))"

end
