(* ===== verification/RoundInv.thy ===== *)
theory RoundInv
  imports Round
begin

text \<open>
  Invariants of the round driver: what each rule and each handler keeps, and the properties of
  \<open>mini-consensus\<close> that follow for one machine.
\<close>

section \<open>Invariants of the rules\<close>

text \<open>
  The interface between the rules and everything that runs them. A predicate on the state and the
  actions emitted so far that each rule keeps is kept by the fixed-point loop and so by every
  handler that ends in \<open>evaluate\<close>.
\<close>

locale rule_invariant =
  fixes ord :: iter_order and P :: "Round \<Rightarrow> Action list \<Rightarrow> bool"
  assumes fresh: "P s acts \<Longrightarrow> rule_propose_fresh s = (s', a) \<Longrightarrow> P s' (acts @ a)"
    and polc: "P s acts \<Longrightarrow> rule_propose_polc s = (s', a) \<Longrightarrow> P s' (acts @ a)"
    and prevote_timeout: "P s acts \<Longrightarrow> rule_prevote_timeout s = (s', a) \<Longrightarrow> P s' (acts @ a)"
    and prevote_quorum: "P s acts \<Longrightarrow> rule_prevote_quorum s = (s', a) \<Longrightarrow> P s' (acts @ a)"
    and prevote_nil: "P s acts \<Longrightarrow> rule_prevote_nil s = (s', a) \<Longrightarrow> P s' (acts @ a)"
    and precommit_timeout: "P s acts \<Longrightarrow> rule_precommit_timeout s = (s', a) \<Longrightarrow> P s' (acts @ a)"
    and decide: "P s acts \<Longrightarrow> rule_decide ord s = (s', a) \<Longrightarrow> P s' (acts @ a)"
    and enter: "P s acts \<Longrightarrow> rn_round s < rd \<Longrightarrow> enter_round_core s rd = (s', a) \<Longrightarrow> P s' (acts @ a)"
begin

lemma skip_round:
  assumes "P s acts" "rule_skip_round s = (s', a)"
  shows "P s' (acts @ a)"
proof -
  let ?rs = "map fst (filter (\<lambda>(r, t). r > rn_round s \<and> card (rv_participants t) \<ge> f_plus_1 s) (rn_votes s))"
  show ?thesis
  proof (cases "?rs = []")
    case True
    with assms show ?thesis by (simp add: rule_skip_round_def Let_def)
  next
    case False
    then have "Min (set ?rs) \<in> set ?rs" by (intro Min_in) (simp_all only: List.finite_set set_empty not_False_eq_True)
    then have "rn_round s < Min (set ?rs)" by auto
    moreover from False assms(2) have "enter_round_core s (Min (set ?rs)) = (s', a)"
      by (simp add: rule_skip_round_def Let_def)
    ultimately show ?thesis using enter assms(1) by blast
  qed
qed

lemma seq:
  assumes "P (fst sa) (acts @ snd sa)"
    "\<And>s acts s' a. P s acts \<Longrightarrow> f s = (s', a) \<Longrightarrow> P s' (acts @ a)"
  shows "P (fst (seq_rule f sa)) (acts @ snd (seq_rule f sa))"
  using assms(1) assms(2) [of "fst sa" "acts @ snd sa"] by (cases "f (fst sa)") (simp add: seq_rule_def)

lemma pass: "P s acts \<Longrightarrow> P (fst (eval_pass ord s)) (acts @ snd (eval_pass ord s))"
  unfolding eval_pass_def
  by (intro seq)
     (simp, (erule (1) fresh polc prevote_timeout prevote_quorum prevote_nil precommit_timeout decide skip_round)+)

lemma loop: "P s acts \<Longrightarrow> P (fst (eval_loop ord s)) (acts @ snd (eval_loop ord s))"
proof (induction "guard_measure s" arbitrary: s acts rule: less_induct)
  case less
  obtain s1 a1 where p: "eval_pass ord s = (s1, a1)" by (cases "eval_pass ord s")
  have P1: "P s1 (acts @ a1)" using pass [OF less.prems] p by simp
  show ?case
  proof (cases "rn_decided s1 \<or> a1 = []")
    case True
    with P1 p show ?thesis by (simp add: eval_loop.simps [of ord s])
  next
    case False
    with progresses_pass [of s ord] p have "guard_measure s1 < guard_measure s"
      by (auto simp: progresses_def)
    from less.hyps [OF this P1] False p show ?thesis
      by (simp add: eval_loop.simps [of ord s] split_beta)
  qed
qed

lemma eval: "P s acts \<Longrightarrow> evaluate ord s = (s', a) \<Longrightarrow> P s' (acts @ a)"
  using loop [of s acts] by (auto simp: evaluate_def split: if_splits)

lemma eval_after: "P s (acts @ a0) \<Longrightarrow> then_evaluate ord (s, a0) = (s', a) \<Longrightarrow> P s' (acts @ a)"
  using eval [of s "acts @ a0"] by (cases "evaluate ord s") (simp add: then_evaluate_def seq_rule_def)

end

section \<open>What each rule does\<close>

text \<open>The case analyses the invariant proofs share: a rule either leaves the state alone or does the one thing named.\<close>

lemma propose_fresh_cases:
  assumes "rule_propose_fresh s = (s', a)"
  obtains (same) "s' = s" "a = []"
  | (vote) p target where "rn_step s = Propose_step" "rn_round s \<notin> rn_prevoted s"
      "map_of (rn_proposals s) (rn_round s) = Some p" "pi_valid_round p = -1"
      "target = NIL \<or> target = pi_id p \<and> pi_valid p \<and> (rn_locked_round s = -1 \<or> rn_locked_value s = Some (pi_id p))"
      "s' = mark_prevote s (rn_round s)" "a = [SignPrevote (rn_round s) target]"
proof (cases "map_of (rn_proposals s) (rn_round s)")
  case None
  with assms same show ?thesis by (simp add: rule_propose_fresh_def Let_def split: if_splits)
next
  case (Some p)
  with assms same vote [of p NIL] vote [of p "pi_id p"] show ?thesis
    by (simp add: rule_propose_fresh_def Let_def split: if_splits)
qed

lemma propose_polc_cases:
  assumes "rule_propose_polc s = (s', a)"
  obtains (same) "s' = s" "a = []"
  | (vote) p target where "rn_step s = Propose_step" "rn_round s \<notin> rn_prevoted s"
      "map_of (rn_proposals s) (rn_round s) = Some p" "0 \<le> pi_valid_round p"
      "(word_of_int (pi_valid_round p) :: u32) < rn_round s"
      "tally s (word_of_int (pi_valid_round p)) (\<lambda>t. prevote_count t (pi_id p)) \<ge> rn_quorum s"
      "target = NIL \<or> target = pi_id p \<and> pi_valid p
         \<and> (rn_locked_round s \<le> pi_valid_round p \<or> rn_locked_value s = Some (pi_id p))"
      "s' = mark_prevote s (rn_round s)" "a = [SignPrevote (rn_round s) target]"
proof (cases "map_of (rn_proposals s) (rn_round s)")
  case None
  with assms same show ?thesis by (simp add: rule_propose_polc_def Let_def split: if_splits)
next
  case (Some p)
  with assms same vote [of p NIL] vote [of p "pi_id p"] show ?thesis
    by (simp add: rule_propose_polc_def Let_def split: if_splits)
qed

lemma prevote_quorum_cases:
  assumes "rule_prevote_quorum s = (s', a)"
  obtains (same) "s' = s" "a = []"
  | (seen) p where "map_of (rn_proposals s) (rn_round s) = Some p"
      "s' = s\<lparr>rn_quorum_seen := insert (rn_round s) (rn_quorum_seen s),
         rn_valid_value := Some (pi_id p), rn_valid_round := uint (rn_round s)\<rparr>" "a = []"
  | (lock) p where "rn_step s = Prevote_step" "rn_round s \<notin> rn_precommitted s"
      "map_of (rn_proposals s) (rn_round s) = Some p" "pi_valid p"
      "tally s (rn_round s) (\<lambda>t. prevote_count t (pi_id p)) \<ge> rn_quorum s"
      "s' = mark_precommit (s\<lparr>rn_quorum_seen := insert (rn_round s) (rn_quorum_seen s),
         rn_valid_value := Some (pi_id p), rn_valid_round := uint (rn_round s),
         rn_locked_value := Some (pi_id p), rn_locked_round := uint (rn_round s)\<rparr>) (rn_round s)"
      "a = [SignPrecommit (rn_round s) (pi_id p)]"
proof (cases "map_of (rn_proposals s) (rn_round s)")
  case None
  with assms same show ?thesis by (simp add: rule_prevote_quorum_def Let_def split: if_splits)
next
  case (Some p)
  let ?q = "\<not> (rn_step s < Prevote_step \<or> rn_round s \<in> rn_quorum_seen s) \<and> pi_valid p
    \<and> \<not> tally s (rn_round s) (\<lambda>t. prevote_count t (pi_id p)) < rn_quorum s"
  let ?l = "rn_step s = Prevote_step \<and> rn_round s \<notin> rn_precommitted s"
  consider "\<not> ?q" | "?q" "\<not> ?l" | "?q" "?l" by blast
  then show ?thesis
  proof cases
    case 1
    with assms have "s' = s" "a = []" by (auto simp: rule_prevote_quorum_def Let_def Some split: if_splits)
    then show ?thesis by (rule same)
  next
    case 2
    from assms show ?thesis
      by (intro seen [OF Some]; use 2 in \<open>auto simp: rule_prevote_quorum_def Let_def Some split: if_splits\<close>)
  next
    case 3
    from assms show ?thesis
      by (intro lock [of p]; use 3 Some in \<open>auto simp: rule_prevote_quorum_def Let_def not_less split: if_splits\<close>)
  qed
qed

lemma prevote_nil_cases:
  assumes "rule_prevote_nil s = (s', a)"
  obtains (same) "s' = s" "a = []"
  | (vote) "rn_step s = Prevote_step" "rn_round s \<notin> rn_precommitted s"
      "s' = mark_precommit s (rn_round s)" "a = [SignPrecommit (rn_round s) NIL]"
  using assms by (auto simp: rule_prevote_nil_def Let_def split: if_splits)

lemma decide_cases:
  assumes "rule_decide ord s = (s', a)"
  obtains (same) "s' = s" "a = []"
  | (decide) r p where "(r, p) \<in> set (ord (rn_proposals s))" "decidable s (r, p)"
      "s' = s\<lparr>rn_decided := True\<rparr>"
      "a = [Decided \<lparr>qc_height = rn_height s, qc_round = r, qc_block_hash = pi_id p,
         qc_votes = get_or [] (case map_of (rn_votes s) r of None \<Rightarrow> None
           | Some t \<Rightarrow> map_of (rv_precommit_votes t) (pi_id p))\<rparr>]"
proof (cases "List.find (decidable s) (ord (rn_proposals s))")
  case None
  with assms same show ?thesis by (simp add: rule_decide_def)
next
  case (Some rp)
  obtain r p where rp: "rp = (r, p)" by (cases rp)
  from Some have "rp \<in> set (ord (rn_proposals s))" "decidable s rp"
    by (auto simp: find_Some_iff)
  with assms decide [of r p] show ?thesis by (simp add: rule_decide_def Some rp Let_def)
qed

section \<open>One vote per round and phase\<close>

text \<open>
  What a started machine keeps of its own voting: it never looks back to a round it left, the
  step tells whether it has voted in the current round, and the emitted votes are exactly one for
  each round in the guard sets.
\<close>

fun prevotes_in :: "Action list \<Rightarrow> (u32 \<times> bytes) list" where
  "prevotes_in [] = []"
| "prevotes_in (SignPrevote r t # acts) = (r, t) # prevotes_in acts"
| "prevotes_in (_ # acts) = prevotes_in acts"

fun precommits_in :: "Action list \<Rightarrow> (u32 \<times> bytes) list" where
  "precommits_in [] = []"
| "precommits_in (SignPrecommit r t # acts) = (r, t) # precommits_in acts"
| "precommits_in (_ # acts) = precommits_in acts"

lemma votes_in_append [simp]:
  "prevotes_in (a @ b) = prevotes_in a @ prevotes_in b"
  "precommits_in (a @ b) = precommits_in a @ precommits_in b"
  by (induction a rule: prevotes_in.induct, simp_all)

lemma set_votes_in:
  "set (prevotes_in acts) = {(r, t). SignPrevote r t \<in> set acts}"
  "set (precommits_in acts) = {(r, t). SignPrecommit r t \<in> set acts}"
  by (induction acts rule: prevotes_in.induct, auto)

definition started :: "Round \<Rightarrow> bool" where
  "started s =
     (0 \<in> rn_started s \<and> rn_round s \<in> rn_started s \<and> (\<forall>r \<in> rn_started s. r \<le> rn_round s)
      \<and> (\<forall>r \<in> rn_prevoted s. r \<le> rn_round s) \<and> (\<forall>r \<in> rn_precommitted s. r \<le> rn_round s)
      \<and> (rn_step s = Propose_step \<longrightarrow> rn_round s \<notin> rn_prevoted s)
      \<and> (rn_step s \<noteq> Precommit_step \<longrightarrow> rn_round s \<notin> rn_precommitted s))"

definition honest_votes :: "Round \<Rightarrow> Action list \<Rightarrow> bool" where
  "honest_votes s acts =
     (started s \<and> fst ` set (prevotes_in acts) \<subseteq> rn_prevoted s
      \<and> fst ` set (precommits_in acts) \<subseteq> rn_precommitted s
      \<and> distinct (map fst (prevotes_in acts)) \<and> distinct (map fst (precommits_in acts)))"

lemma step_simps [simp]:
  "max Propose_step Prevote_step = Prevote_step" "max Prevote_step Precommit_step = Precommit_step"
  "max Propose_step Precommit_step = Precommit_step" "\<not> Prevote_step < Prevote_step"
  "Propose_step < Prevote_step" "\<not> Precommit_step < Prevote_step"
  by (simp_all add: max_def less_eq_Step_def less_Step_def)

lemma step_not_less: "\<not> st < Prevote_step \<Longrightarrow> st = Prevote_step \<or> st = Precommit_step"
  by (cases st) simp_all

lemma mark_prevote_honest:
  assumes "honest_votes s acts" "rn_step s = Propose_step"
  shows "honest_votes (mark_prevote s (rn_round s)) (acts @ [SignPrevote (rn_round s) t])"
proof -
  have "rn_round s \<notin> fst ` set (prevotes_in acts)"
    using assms by (auto simp: honest_votes_def started_def)
  with assms show ?thesis
    by (auto simp: honest_votes_def started_def mark_prevote_def)
qed

lemma mark_precommit_honest:
  assumes "honest_votes s acts" "rn_step s = Prevote_step"
  shows "honest_votes (mark_precommit s (rn_round s)) (acts @ [SignPrecommit (rn_round s) t])"
proof -
  have "rn_round s \<notin> fst ` set (precommits_in acts)"
    using assms by (auto simp: honest_votes_def started_def)
  with assms show ?thesis
    by (auto simp: honest_votes_def started_def mark_precommit_def)
qed

lemma honest_votes_upd [simp]:
  "honest_votes (s\<lparr>rn_quorum_seen := x1\<rparr>) acts = honest_votes s acts"
  "honest_votes (s\<lparr>rn_valid_value := x2\<rparr>) acts = honest_votes s acts"
  "honest_votes (s\<lparr>rn_valid_round := x3\<rparr>) acts = honest_votes s acts"
  "honest_votes (s\<lparr>rn_locked_value := x4\<rparr>) acts = honest_votes s acts"
  "honest_votes (s\<lparr>rn_locked_round := x5\<rparr>) acts = honest_votes s acts"
  "honest_votes (s\<lparr>rn_decided := x6\<rparr>) acts = honest_votes s acts"
  "honest_votes (s\<lparr>rn_proposals := x7\<rparr>) acts = honest_votes s acts"
  "honest_votes (s\<lparr>rn_votes := x8\<rparr>) acts = honest_votes s acts"
  by (simp_all add: honest_votes_def started_def)

lemma honest_votes_frame:
  assumes "honest_votes s acts" "rn_started s' = rn_started s" "rn_round s' = rn_round s"
    "rn_step s' = rn_step s" "rn_prevoted s' = rn_prevoted s" "rn_precommitted s' = rn_precommitted s"
    "prevotes_in a = []" "precommits_in a = []"
  shows "honest_votes s' (acts @ a)"
  using assms by (simp add: honest_votes_def started_def)

lemma enter_new:
  assumes "\<not> rn_decided s" "rd \<notin> rn_started s" "enter_round_core s rd = (s', a)"
  shows "s' = s\<lparr>rn_started := insert rd (rn_started s), rn_round := rd, rn_step := Propose_step\<rparr>"
    "prevotes_in a = []" "precommits_in a = []"
  using assms by (auto simp: enter_round_core_def Let_def split: if_splits option.splits)

lemma enter_old: "rn_decided s \<or> rd \<in> rn_started s \<Longrightarrow> enter_round_core s rd = (s, [])"
  by (auto simp: enter_round_core_def)

lemma bounded_later:
  "\<forall>r \<in> S. r \<le> (m :: u32) \<Longrightarrow> m < rd \<Longrightarrow> (\<forall>r \<in> S. r \<le> rd) \<and> rd \<notin> S"
  by (meson leD le_less_trans less_imp_le)

lemma enter_honest:
  assumes "honest_votes s acts" "rn_round s < rd \<or> rd \<in> rn_started s" "enter_round_core s rd = (s', a)"
  shows "honest_votes s' (acts @ a)"
proof (cases "rn_decided s \<or> rd \<in> rn_started s")
  case True
  with assms(1,3) enter_old [OF True] show ?thesis by simp
next
  case False
  with assms have later: "rn_round s < rd" by blast
  from False enter_new [OF _ _ assms(3)]
  have s': "s' = s\<lparr>rn_started := insert rd (rn_started s), rn_round := rd, rn_step := Propose_step\<rparr>"
    and a: "prevotes_in a = []" "precommits_in a = []" by auto
  from assms(1) have
    "(\<forall>r \<in> rn_started s. r \<le> rd) \<and> rd \<notin> rn_started s"
    "(\<forall>r \<in> rn_prevoted s. r \<le> rd) \<and> rd \<notin> rn_prevoted s"
    "(\<forall>r \<in> rn_precommitted s. r \<le> rd) \<and> rd \<notin> rn_precommitted s"
    by (intro bounded_later [OF _ later]; simp add: honest_votes_def started_def)+
  with assms(1) show ?thesis unfolding honest_votes_def started_def s' by (simp add: a)
qed

interpretation honest: rule_invariant ord honest_votes
  for ord
proof unfold_locales
  fix s s' acts a rd
  assume P: "honest_votes s acts"
  show "rule_propose_fresh s = (s', a) \<Longrightarrow> honest_votes s' (acts @ a)"
    by (erule propose_fresh_cases) (simp_all add: P mark_prevote_honest)
  show "rule_propose_polc s = (s', a) \<Longrightarrow> honest_votes s' (acts @ a)"
    by (erule propose_polc_cases) (simp_all add: P mark_prevote_honest)
  show "rule_prevote_timeout s = (s', a) \<Longrightarrow> honest_votes s' (acts @ a)"
    using P by (auto simp: rule_prevote_timeout_def Let_def intro: honest_votes_frame split: if_splits)
  show "rule_prevote_quorum s = (s', a) \<Longrightarrow> honest_votes s' (acts @ a)"
  proof (erule prevote_quorum_cases)
    fix p
    let ?s = "s\<lparr>rn_quorum_seen := insert (rn_round s) (rn_quorum_seen s),
         rn_valid_value := Some (pi_id p), rn_valid_round := uint (rn_round s),
         rn_locked_value := Some (pi_id p), rn_locked_round := uint (rn_round s)\<rparr>"
    have "honest_votes ?s acts" using P by simp
    then show "rn_step s = Prevote_step \<Longrightarrow> s' = mark_precommit ?s (rn_round s)
        \<Longrightarrow> a = [SignPrecommit (rn_round s) (pi_id p)] \<Longrightarrow> honest_votes s' (acts @ a)"
      using mark_precommit_honest [of ?s acts "pi_id p"] by simp
  qed (simp_all add: P)
  show "rule_prevote_nil s = (s', a) \<Longrightarrow> honest_votes s' (acts @ a)"
    by (erule prevote_nil_cases) (simp_all add: P mark_precommit_honest)
  show "rule_precommit_timeout s = (s', a) \<Longrightarrow> honest_votes s' (acts @ a)"
    using P by (auto simp: rule_precommit_timeout_def Let_def intro: honest_votes_frame split: if_splits)
  show "rule_decide ord s = (s', a) \<Longrightarrow> honest_votes s' (acts @ a)"
    by (erule decide_cases) (simp_all add: P honest_votes_frame [OF P])
  show "rn_round s < rd \<Longrightarrow> enter_round_core s rd = (s', a) \<Longrightarrow> honest_votes s' (acts @ a)"
    using enter_honest [OF P] by blast
qed

section \<open>Runs of a machine\<close>

text \<open>
  What the host can feed a machine, and the machine run over a list of such events. The oracle
  stands for the key event logs the host has validated.
\<close>

datatype Event =
    ProposalReceived u32 bytes int bool
  | VoteReceived Vote
  | TimerFired Step u32

fun handle :: "iter_order \<Rightarrow> crypto \<Rightarrow> kel_oracle \<Rightarrow> Round \<Rightarrow> Event \<Rightarrow> Round \<times> Action list" where
  "handle ord C oracle s (ProposalReceived rd bid vr valid) = on_proposal ord s rd bid vr valid"
| "handle ord C oracle s (VoteReceived vote) = on_vote ord C oracle s vote"
| "handle ord C oracle s (TimerFired st rd) = on_timeout ord s st rd"

primrec run :: "iter_order \<Rightarrow> crypto \<Rightarrow> kel_oracle \<Rightarrow> Round \<Rightarrow> Event list \<Rightarrow> Round \<times> Action list" where
  "run ord C oracle s [] = (s, [])"
| "run ord C oracle s (e # es) =
     (let (s1, a1) = handle ord C oracle s e; (s2, a2) = run ord C oracle s1 es in (s2, a1 @ a2))"

definition machine ::
  "iter_order \<Rightarrow> crypto \<Rightarrow> kel_oracle \<Rightarrow> u64 \<Rightarrow> ValidatorSet \<Rightarrow> Did \<Rightarrow> Event list \<Rightarrow> Round \<times> Action list" where
  "machine ord C oracle height vs root es =
     (let (s0, a0) = round_start ord (round_new height vs root); (s, a) = run ord C oracle s0 es
      in (s, a0 @ a))"

text \<open>The tally of a vote's round with its sender among the participants, and storing a tally back.\<close>

definition joined :: "Round \<Rightarrow> Vote \<Rightarrow> RoundVotes" where
  "joined s vote =
     (let t0 = get_or RoundVotes_default (map_of (rn_votes s) (v_round vote))
      in t0\<lparr>rv_participants := insert (did_scid (v_root vote)) (rv_participants t0)\<rparr>)"

definition put_tally :: "Round \<Rightarrow> u32 \<Rightarrow> RoundVotes \<Rightarrow> Round" where
  "put_tally s rd t = s\<lparr>rn_votes := AList.update rd t (rn_votes s)\<rparr>"

lemma on_vote_alt:
  "on_vote ord C oracle s vote =
     (if \<not> accept_vote C oracle s vote then (s, [])
      else case map_of (by_root (v_kind vote) (joined s vote)) (did_scid (v_root vote)) of
             Some prior \<Rightarrow>
               if v_block_hash prior = v_block_hash vote then (put_tally s (v_round vote) (joined s vote), [])
               else (put_tally s (v_round vote) (joined s vote),
                     [Equivocation \<lparr>ee_first = prior, ee_second = vote\<rparr>])
           | None \<Rightarrow> evaluate ord (put_tally s (v_round vote) (file_vote (joined s vote) vote)))"
  by (simp only: on_vote_def joined_def put_tally_def Let_def)

lemma on_vote_cases:
  assumes "on_vote ord C oracle s vote = (s', a)"
  obtains (rejected) "\<not> accept_vote C oracle s vote" "s' = s" "a = []"
  | (duplicate) prior where "accept_vote C oracle s vote"
      "map_of (by_root (v_kind vote) (joined s vote)) (did_scid (v_root vote)) = Some prior"
      "v_block_hash prior = v_block_hash vote"
      "s' = put_tally s (v_round vote) (joined s vote)" "a = []"
  | (conflict) prior where "accept_vote C oracle s vote"
      "map_of (by_root (v_kind vote) (joined s vote)) (did_scid (v_root vote)) = Some prior"
      "v_block_hash prior \<noteq> v_block_hash vote"
      "s' = put_tally s (v_round vote) (joined s vote)"
      "a = [Equivocation \<lparr>ee_first = prior, ee_second = vote\<rparr>]"
  | (filed) "accept_vote C oracle s vote"
      "map_of (by_root (v_kind vote) (joined s vote)) (did_scid (v_root vote)) = None"
      "evaluate ord (put_tally s (v_round vote) (file_vote (joined s vote) vote)) = (s', a)"
proof (cases "accept_vote C oracle s vote")
  case False
  with assms show ?thesis by (intro rejected) (simp_all add: on_vote_alt)
next
  case acc: True
  show ?thesis
  proof (cases "map_of (by_root (v_kind vote) (joined s vote)) (did_scid (v_root vote))")
    case None
    with assms acc show ?thesis by (intro filed) (simp_all add: on_vote_alt)
  next
    case (Some prior)
    show ?thesis
    proof (cases "v_block_hash prior = v_block_hash vote")
      case True
      with assms acc Some show ?thesis by (intro duplicate [OF acc Some]) (simp_all add: on_vote_alt)
    next
      case False
      with assms acc Some show ?thesis by (intro conflict [OF acc Some]) (simp_all add: on_vote_alt)
    qed
  qed
qed

text \<open>
  The interface of an invariant of whole runs: what the rules need, and what filing a proposal, filing
  a vote and the three timers need. \<open>admissible\<close> restricts the events the host may deliver.
\<close>

locale handler_invariant = rule_invariant ord P
  for ord :: iter_order and P :: "Round \<Rightarrow> Action list \<Rightarrow> bool" +
  fixes C :: crypto and "oracle" :: kel_oracle and admissible :: "Event \<Rightarrow> bool"
  assumes proposal: "P s acts \<Longrightarrow> admissible (ProposalReceived rd bid vr valid)
      \<Longrightarrow> map_of (rn_proposals s) rd = None
      \<Longrightarrow> P (s\<lparr>rn_proposals := AList.update rd \<lparr>pi_id = bid, pi_valid_round = vr, pi_valid = valid\<rparr>
            (rn_proposals s)\<rparr>) acts"
    and rejoin: "P s acts \<Longrightarrow> accept_vote C oracle s vote
      \<Longrightarrow> P (put_tally s (v_round vote) (joined s vote)) acts"
    and evidence: "P s acts \<Longrightarrow> accept_vote C oracle s vote
      \<Longrightarrow> map_of (by_root (v_kind vote) (joined s vote)) (did_scid (v_root vote)) = Some prior
      \<Longrightarrow> v_block_hash prior \<noteq> v_block_hash vote
      \<Longrightarrow> P s (acts @ [Equivocation \<lparr>ee_first = prior, ee_second = vote\<rparr>])"
    and enfile: "P s acts \<Longrightarrow> accept_vote C oracle s vote \<Longrightarrow> admissible (VoteReceived vote)
      \<Longrightarrow> map_of (by_root (v_kind vote) (joined s vote)) (did_scid (v_root vote)) = None
      \<Longrightarrow> P (put_tally s (v_round vote) (file_vote (joined s vote) vote)) acts"
    and propose_timer: "P s acts \<Longrightarrow> rn_step s = Propose_step
      \<Longrightarrow> P (mark_prevote s (rn_round s)) (acts @ [SignPrevote (rn_round s) NIL])"
    and prevote_timer: "P s acts \<Longrightarrow> rn_step s = Prevote_step
      \<Longrightarrow> P (mark_precommit s (rn_round s)) (acts @ [SignPrecommit (rn_round s) NIL])"
    and zero_started: "P s acts \<Longrightarrow> 0 \<in> rn_started s"
begin

lemma next_round:
  assumes "P s acts"
  shows "P (fst (enter_round_core s (rn_round s + 1))) (acts @ snd (enter_round_core s (rn_round s + 1)))"
proof (cases "rn_round s + 1 = 0")
  case True
  with zero_started [OF assms] show ?thesis by (simp add: assms enter_round_core_def)
next
  case False
  then have "rn_round s < rn_round s + 1" by (simp add: add.commute word_less_nat_alt unatSuc)
  with enter [OF assms] show ?thesis by (metis prod.collapse)
qed

lemma on_proposal:
  "P s acts \<Longrightarrow> admissible (ProposalReceived rd bid vr valid) \<Longrightarrow> on_proposal ord s rd bid vr valid = (s', a)
    \<Longrightarrow> P s' (acts @ a)"
  by (cases "map_of (rn_proposals s) rd") (auto simp: on_proposal_def intro: eval proposal)

lemma on_vote:
  assumes "P s acts" "admissible (VoteReceived vote)" "on_vote ord C oracle s vote = (s', a)"
  shows "P s' (acts @ a)"
  using assms(3)
proof (cases rule: on_vote_cases)
  case (conflict prior)
  let ?s = "put_tally s (v_round vote) (joined s vote)"
  have "P s (acts @ a)" using evidence [OF assms(1) conflict(1-3)] conflict(5) by simp
  from rejoin [OF this conflict(1)] conflict(4) show ?thesis by simp
next
  case filed
  from eval [OF enfile [OF assms(1) filed(1) assms(2) filed(2)] filed(3)]
  show ?thesis .
qed (simp_all add: assms(1) rejoin)

lemma on_timeout:
  assumes "P s acts" "on_timeout ord s st rd = (s', a)"
  shows "P s' (acts @ a)"
proof (cases "rn_decided s \<or> rd \<noteq> rn_round s")
  case True
  with assms show ?thesis by (simp add: on_timeout_def)
next
  case False
  obtain s1 a1 where n: "enter_round_core s (rn_round s + 1) = (s1, a1)" by (cases "enter_round_core s (rn_round s + 1)")
  from next_round [OF assms(1)] n have "P s1 (acts @ a1)" by simp
  note after = eval_after [OF this] eval_after [OF propose_timer [OF assms(1)]] eval_after [OF prevote_timer [OF assms(1)]]
  from False assms n show ?thesis
    by (cases st) (simp_all add: on_timeout_def after split: if_splits)
qed

lemma handle:
  "P s acts \<Longrightarrow> admissible e \<Longrightarrow> handle ord C oracle s e = (s', a) \<Longrightarrow> P s' (acts @ a)"
  by (cases e) (auto intro: on_proposal on_vote on_timeout)

lemma run:
  "P s acts \<Longrightarrow> list_all admissible es \<Longrightarrow> run ord C oracle s es = (s', a) \<Longrightarrow> P s' (acts @ a)"
proof (induction es arbitrary: s acts s' a)
  case (Cons e es)
  obtain s1 a1 where h: "handle ord C oracle s e = (s1, a1)" by (cases "handle ord C oracle s e")
  obtain s2 a2 where r: "run ord C oracle s1 es = (s2, a2)" by (cases "run ord C oracle s1 es")
  from Cons.prems h have "P s1 (acts @ a1)" by (auto intro: handle)
  from Cons.IH [OF this _ r] Cons.prems h r show ?case by simp
qed simp

lemma machine:
  assumes "P (fst (enter_round_core (round_new h vs root) 0)) (snd (enter_round_core (round_new h vs root) 0))"
    "list_all admissible es" "machine ord C oracle h vs root es = (s', a)"
  shows "P s' a"
proof -
  obtain s0 a0 where e: "enter_round_core (round_new h vs root) 0 = (s0, a0)"
    by (cases "enter_round_core (round_new h vs root) 0")
  obtain s1 a1 where st: "round_start ord (round_new h vs root) = (s1, a1)"
    by (cases "round_start ord (round_new h vs root)")
  obtain s2 a2 where r: "run ord C oracle s1 es = (s2, a2)" by (cases "run ord C oracle s1 es")
  from assms(1) e st have "P s1 a1" using eval_after [of s0 "[]" a0 s1 a1] by (simp add: round_start_def)
  from run [OF this assms(2) r] assms(3) st r show ?thesis by (simp add: machine_def)
qed

end

lemma start_honest:
  "honest_votes (fst (enter_round_core (round_new h vs root) 0)) (snd (enter_round_core (round_new h vs root) 0))"
  by (simp add: enter_round_core_def round_new_def honest_votes_def started_def Let_def)

interpretation honest_run: handler_invariant ord honest_votes C "oracle" "\<lambda>_. True"
  for ord :: iter_order and C :: crypto and "oracle" :: kel_oracle
  by unfold_locales
     (simp_all add: put_tally_def mark_prevote_honest mark_precommit_honest,
      simp_all add: honest_votes_def started_def)

end
