(* ===== verification/Tally.thy ===== *)
theory Tally
  imports RoundInv
begin

text \<open>
  The vote tallies of the round driver: what the counting structures of \<open>RoundVotes\<close> hold, and from
  that the two things the driver hands to others, certificates of a decision and evidence of
  double voting, verify.
\<close>

section \<open>What the tallies hold\<close>

definition tally_at :: "Round \<Rightarrow> u32 \<Rightarrow> RoundVotes" where
  "tally_at s rd = get_or RoundVotes_default (map_of (rn_votes s) rd)"

text \<open>The voters for a block according to the first vote each root cast, the specification of the counters.\<close>

definition voters :: "VoteKind \<Rightarrow> bytes \<Rightarrow> RoundVotes \<Rightarrow> bytes set" where
  "voters k bid t = {x. \<exists>v. map_of (by_root k t) x = Some v \<and> v_block_hash v = bid}"

definition counted :: "VoteKind \<Rightarrow> bytes \<Rightarrow> RoundVotes \<Rightarrow> bytes set" where
  "counted k bid t =
     get_or {} (map_of (case k of Prevote \<Rightarrow> rv_prevotes t | Precommit \<Rightarrow> rv_precommits t) bid)"

definition kept_votes :: "bytes \<Rightarrow> RoundVotes \<Rightarrow> Vote list" where
  "kept_votes bid t = get_or [] (map_of (rv_precommit_votes t) bid)"

definition slots_ok :: "crypto \<Rightarrow> kel_oracle \<Rightarrow> Round \<Rightarrow> u32 \<Rightarrow> RoundVotes \<Rightarrow> bool" where
  "slots_ok C oracle s rd t =
     (\<forall>k x v. map_of (by_root k t) x = Some v \<longrightarrow>
        v_kind v = k \<and> v_round v = rd \<and> did_scid (v_root v) = x \<and> accept_vote C oracle s v)"

definition tally_ok :: "crypto \<Rightarrow> kel_oracle \<Rightarrow> Round \<Rightarrow> u32 \<Rightarrow> RoundVotes \<Rightarrow> bool" where
  "tally_ok C oracle s rd t =
     (slots_ok C oracle s rd t
      \<and> (\<forall>k bid. counted k bid t = voters k bid t)
      \<and> (\<forall>bid. distinct (map (did_scid \<circ> v_root) (kept_votes bid t))
           \<and> set (kept_votes bid t)
               = {v. map_of (rv_precommit_by_root t) (did_scid (v_root v)) = Some v \<and> v_block_hash v = bid})
      \<and> rv_participants t \<subseteq> scid_set (rn_validators s))"

definition tallies_ok :: "crypto \<Rightarrow> kel_oracle \<Rightarrow> Round \<Rightarrow> bool" where
  "tallies_ok C oracle s = (\<forall>rd. tally_ok C oracle s rd (tally_at s rd))"

lemma accept_vote_cong:
  "rn_height s' = rn_height s \<Longrightarrow> rn_validators s' = rn_validators s
    \<Longrightarrow> accept_vote C oracle s' v = accept_vote C oracle s v"
  by (simp add: accept_vote_def)

lemma tally_ok_cong:
  assumes "rn_height s' = rn_height s" "rn_validators s' = rn_validators s"
  shows "tally_ok C oracle s' rd t = tally_ok C oracle s rd t"
  by (simp add: tally_ok_def slots_ok_def accept_vote_cong [OF assms] assms)

lemma tallies_ok_cong:
  assumes "rn_height s' = rn_height s" "rn_validators s' = rn_validators s" "rn_votes s' = rn_votes s"
  shows "tallies_ok C oracle s' = tallies_ok C oracle s"
  by (simp add: tallies_ok_def tally_at_def assms tally_ok_cong [OF assms(1,2)])

lemma tally_ok_default: "tally_ok C oracle s rd RoundVotes_default"
  by (simp add: tally_ok_def slots_ok_def counted_def voters_def kept_votes_def RoundVotes_default_def
      by_root_def get_or_def split: VoteKind.splits)

lemma tally_at_put [simp]:
  "tally_at (put_tally s rd t) rd' = (if rd' = rd then t else tally_at s rd')"
  by (simp add: tally_at_def put_tally_def update_conv' get_or_def)

lemma put_tally_fields [simp]:
  "rn_height (put_tally s rd t) = rn_height s" "rn_validators (put_tally s rd t) = rn_validators s"
  "rn_proposals (put_tally s rd t) = rn_proposals s" "rn_decided (put_tally s rd t) = rn_decided s"
  "rn_started (put_tally s rd t) = rn_started s" "rn_round (put_tally s rd t) = rn_round s"
  "rn_step (put_tally s rd t) = rn_step s" "rn_prevoted (put_tally s rd t) = rn_prevoted s"
  "rn_precommitted (put_tally s rd t) = rn_precommitted s"
  "rn_locked_value (put_tally s rd t) = rn_locked_value s" "rn_locked_round (put_tally s rd t) = rn_locked_round s"
  by (simp_all add: put_tally_def)

lemma tallies_ok_put:
  "tallies_ok C oracle s \<Longrightarrow> tally_ok C oracle s rd t \<Longrightarrow> tallies_ok C oracle (put_tally s rd t)"
  by (simp add: tallies_ok_def tally_ok_cong [of "put_tally s rd t" s])

lemma joined_tally:
  "joined s vote = (tally_at s (v_round vote))
     \<lparr>rv_participants := insert (did_scid (v_root vote)) (rv_participants (tally_at s (v_round vote)))\<rparr>"
  by (simp add: joined_def tally_at_def Let_def)

lemma accept_vote_validator:
  "accept_vote C oracle s vote \<Longrightarrow> did_scid (v_root vote) \<in> scid_set (rn_validators s)"
  by (auto simp: accept_vote_def vs_contains_iff split: if_splits)

lemma accept_vote_verified:
  "accept_vote C oracle s vote \<longleftrightarrow>
     v_height vote = rn_height s \<and> did_scid (v_root vote) \<in> scid_set (rn_validators s)
       \<and> oracle_vote_ok C oracle vote"
  by (auto simp: accept_vote_def oracle_vote_ok_def vs_contains_iff split: option.splits)

lemma oracle_vote_ok_verifies: "oracle_vote_ok C oracle v = verifies C oracle v"
  by (simp add: oracle_vote_ok_def verifies_def split: option.split)

lemma joined_views [simp]:
  "by_root k (joined s vote) = by_root k (tally_at s (v_round vote))"
  "counted k bid (joined s vote) = counted k bid (tally_at s (v_round vote))"
  "voters k bid (joined s vote) = voters k bid (tally_at s (v_round vote))"
  "kept_votes bid (joined s vote) = kept_votes bid (tally_at s (v_round vote))"
  "rv_precommit_by_root (joined s vote) = rv_precommit_by_root (tally_at s (v_round vote))"
  by (simp_all add: joined_tally by_root_def counted_def voters_def kept_votes_def split: VoteKind.splits)

lemma tally_ok_joined:
  assumes "tallies_ok C oracle s" "accept_vote C oracle s vote"
  shows "tally_ok C oracle s (v_round vote) (joined s vote)"
proof -
  have "tally_ok C oracle s (v_round vote) (tally_at s (v_round vote))"
    using assms(1) by (simp add: tallies_ok_def)
  moreover have parts: "rv_participants (joined s vote)
      = insert (did_scid (v_root vote)) (rv_participants (tally_at s (v_round vote)))"
    by (simp add: joined_tally)
  ultimately show ?thesis using accept_vote_validator [OF assms(2)]
    unfolding tally_ok_def slots_ok_def joined_views parts
    by (elim conjE, intro conjI insert_subsetI) assumption+
qed

text \<open>Filing the first vote of a root: the views of the tally afterwards.\<close>

lemma entry_insert_lookup:
  "get_or {} (map_of (entry_insert k x m) k') = (if k' = k then insert x (get_or {} (map_of m k)) else get_or {} (map_of m k'))"
  by (simp add: entry_insert_def update_conv')

lemma entry_push_lookup:
  "get_or [] (map_of (entry_push k x m) k') = (if k' = k then get_or [] (map_of m k) @ [x] else get_or [] (map_of m k'))"
  by (simp add: entry_push_def update_conv')

lemma file_vote_by_root:
  "map_of (by_root k (file_vote t vote)) x =
     (if k = v_kind vote \<and> x = did_scid (v_root vote) then Some vote else map_of (by_root k t) x)"
  by (cases "v_kind vote"; cases k) (simp_all add: file_vote_def by_root_def Let_def update_conv')

lemma file_vote_counted:
  "counted k bid (file_vote t vote) =
     (if k = v_kind vote \<and> bid = v_block_hash vote then insert (did_scid (v_root vote)) (counted k bid t)
      else counted k bid t)"
  by (cases "v_kind vote"; cases k) (simp_all add: file_vote_def counted_def Let_def entry_insert_lookup)

lemma file_vote_kept:
  assumes "did_scid (v_root vote) \<notin> counted Precommit (v_block_hash vote) t"
  shows "kept_votes bid (file_vote t vote) =
     (if v_kind vote = Precommit \<and> bid = v_block_hash vote then kept_votes bid t @ [vote] else kept_votes bid t)"
  using assms
  by (cases "v_kind vote") (simp_all add: file_vote_def kept_votes_def counted_def Let_def entry_push_lookup)

lemma file_vote_participants [simp]: "rv_participants (file_vote t vote) = rv_participants t"
  by (cases "v_kind vote") (simp_all add: file_vote_def Let_def)

lemma file_vote_voters:
  assumes "map_of (by_root (v_kind vote) t) (did_scid (v_root vote)) = None"
  shows "voters k bid (file_vote t vote) =
     (if k = v_kind vote \<and> bid = v_block_hash vote then insert (did_scid (v_root vote)) (voters k bid t)
      else voters k bid t)"
  using assms by (auto simp: voters_def file_vote_by_root)

lemma tally_ok_file:
  assumes ok: "tally_ok C oracle s (v_round vote) t" and acc: "accept_vote C oracle s vote"
    and new: "map_of (by_root (v_kind vote) t) (did_scid (v_root vote)) = None"
  shows "tally_ok C oracle s (v_round vote) (file_vote t vote)"
proof -
  let ?x = "did_scid (v_root vote)"
  have slots: "slots_ok C oracle s (v_round vote) (file_vote t vote)"
    using ok acc unfolding tally_ok_def slots_ok_def file_vote_by_root by auto
  have counts: "counted k bid (file_vote t vote) = voters k bid (file_vote t vote)" for k bid
    using ok by (simp add: file_vote_counted file_vote_voters [OF new] tally_ok_def)
  have parts: "rv_participants (file_vote t vote) \<subseteq> scid_set (rn_validators s)"
    using ok by (simp add: tally_ok_def)
  have kept: "distinct (map (did_scid \<circ> v_root) (kept_votes bid (file_vote t vote)))
      \<and> set (kept_votes bid (file_vote t vote)) = {v. map_of (rv_precommit_by_root (file_vote t vote))
          (did_scid (v_root v)) = Some v \<and> v_block_hash v = bid}" for bid
  proof -
    have old: "distinct (map (did_scid \<circ> v_root) (kept_votes bid t))"
      "set (kept_votes bid t) = {v. map_of (rv_precommit_by_root t) (did_scid (v_root v)) = Some v \<and> v_block_hash v = bid}"
      using ok by (simp_all add: tally_ok_def)
    have by_pc: "map_of (rv_precommit_by_root (file_vote t vote)) x
        = (if v_kind vote = Precommit \<and> x = ?x then Some vote else map_of (rv_precommit_by_root t) x)" for x
      using file_vote_by_root [of Precommit t vote x] by (simp add: by_root_def eq_commute)
    show ?thesis
    proof (cases "v_kind vote")
      case Prevote
      then have "kept_votes bid (file_vote t vote) = kept_votes bid t"
        by (simp add: file_vote_def kept_votes_def Let_def)
      then show ?thesis using old Prevote by (simp add: by_pc)
    next
      case Precommit
      with new have none: "map_of (rv_precommit_by_root t) ?x = None" by (simp add: by_root_def)
      then have "?x \<notin> voters Precommit (v_block_hash vote) t" by (simp add: voters_def by_root_def)
      then have fresh: "?x \<notin> counted Precommit (v_block_hash vote) t" using ok by (simp add: tally_ok_def)
      have "?x \<notin> (did_scid \<circ> v_root) ` set (kept_votes bid t)"
        using none by (auto simp: old(2))
      then have "distinct (map (did_scid \<circ> v_root) (kept_votes bid (file_vote t vote)))"
        using old(1) by (auto simp: file_vote_kept [OF fresh])
      moreover have "set (kept_votes bid (file_vote t vote))
          = {v. map_of (rv_precommit_by_root t) (did_scid (v_root v)) = Some v \<and> v_block_hash v = bid}
            \<union> (if bid = v_block_hash vote then {vote} else {})"
        using old(2) Precommit by (cases "bid = v_block_hash vote") (simp_all add: file_vote_kept [OF fresh])
      moreover have "\<dots> = {v. map_of (rv_precommit_by_root (file_vote t vote)) (did_scid (v_root v)) = Some v
          \<and> v_block_hash v = bid}"
        using none Precommit by (auto simp: by_pc split: if_splits)
      ultimately show ?thesis by blast
    qed
  qed
  show ?thesis unfolding tally_ok_def using slots counts parts kept by blast
qed

section \<open>What no rule changes\<close>

definition same_inputs :: "Round \<Rightarrow> Round \<Rightarrow> bool" where
  "same_inputs s s' =
     (rn_height s' = rn_height s \<and> rn_validators s' = rn_validators s \<and> rn_local_root s' = rn_local_root s
      \<and> rn_votes s' = rn_votes s \<and> rn_proposals s' = rn_proposals s \<and> rn_started s \<subseteq> rn_started s')"

lemma same_inputs_refl [simp]: "same_inputs s s"
  by (simp add: same_inputs_def)

lemma same_inputs_mark [simp]:
  "same_inputs s (mark_prevote s rd)" "same_inputs s (mark_precommit s rd)"
  by (simp_all add: same_inputs_def mark_prevote_def mark_precommit_def)

lemma same_inputs_enter: "enter_round_core s rd = (s', a) \<Longrightarrow> same_inputs s s'"
  by (cases "rn_decided s \<or> rd \<in> rn_started s")
     (auto simp: enter_old same_inputs_def dest: enter_new(1) [rotated 2])

lemma same_inputs_rules:
  "rule_propose_fresh s = (s', a) \<Longrightarrow> same_inputs s s'"
  "rule_propose_polc s = (s', a) \<Longrightarrow> same_inputs s s'"
  "rule_prevote_timeout s = (s', a) \<Longrightarrow> same_inputs s s'"
  "rule_prevote_nil s = (s', a) \<Longrightarrow> same_inputs s s'"
  "rule_precommit_timeout s = (s', a) \<Longrightarrow> same_inputs s s'"
  "rule_decide ord s = (s', a) \<Longrightarrow> same_inputs s s'"
  "rule_prevote_quorum s = (s', a) \<Longrightarrow> same_inputs s s'"
proof -
  show "rule_propose_fresh s = (s', a) \<Longrightarrow> same_inputs s s'" by (erule propose_fresh_cases) simp_all
  show "rule_propose_polc s = (s', a) \<Longrightarrow> same_inputs s s'" by (erule propose_polc_cases) simp_all
  show "rule_prevote_timeout s = (s', a) \<Longrightarrow> same_inputs s s'"
    by (auto simp: rule_prevote_timeout_def Let_def same_inputs_def split: if_splits)
  show "rule_prevote_nil s = (s', a) \<Longrightarrow> same_inputs s s'" by (erule prevote_nil_cases) simp_all
  show "rule_precommit_timeout s = (s', a) \<Longrightarrow> same_inputs s s'"
    by (auto simp: rule_precommit_timeout_def Let_def same_inputs_def split: if_splits)
  show "rule_decide ord s = (s', a) \<Longrightarrow> same_inputs s s'"
    by (erule decide_cases) (simp_all add: same_inputs_def)
  show "rule_prevote_quorum s = (s', a) \<Longrightarrow> same_inputs s s'"
    by (erule prevote_quorum_cases) (simp_all add: same_inputs_def mark_precommit_def)
qed

section \<open>Sound outputs\<close>

fun action_ok :: "crypto \<Rightarrow> kel_oracle \<Rightarrow> u64 \<Rightarrow> ValidatorSet \<Rightarrow> Action \<Rightarrow> bool" where
  "action_ok C oracle h vs (Decided qc) = (qc_height qc = h \<and> is_ok (verify_finality C qc vs oracle))"
| "action_ok C oracle h vs (Equivocation ev) = (v_height (ee_first ev) = h \<and> verify_equivocation C ev oracle)"
| "action_ok C oracle h vs _ = True"

definition sound_outputs ::
  "crypto \<Rightarrow> kel_oracle \<Rightarrow> u64 \<Rightarrow> ValidatorSet \<Rightarrow> Round \<Rightarrow> Action list \<Rightarrow> bool" where
  "sound_outputs C oracle h vs s acts =
     (vs_wf vs \<and> rn_height s = h \<and> rn_validators s = vs \<and> 0 \<in> rn_started s \<and> tallies_ok C oracle s
      \<and> list_all (action_ok C oracle h vs) acts)"

lemma sound_outputs_same:
  "sound_outputs C oracle h vs s acts \<Longrightarrow> same_inputs s s' \<Longrightarrow> list_all (action_ok C oracle h vs) a
    \<Longrightarrow> sound_outputs C oracle h vs s' (acts @ a)"
  using tallies_ok_cong [of s' s] by (auto simp: sound_outputs_def same_inputs_def)

lemma tally_at_eq: "tally s rd (\<lambda>t. card (counted k bid t)) = card (counted k bid (tally_at s rd))"
  by (simp add: tally_def tally_at_def counted_def RoundVotes_default_def split: option.split VoteKind.split)

lemma counts_counted:
  "prevote_count t bid = card (counted Prevote bid t)" "precommit_count t bid = card (counted Precommit bid t)"
  by (simp_all add: prevote_count_def precommit_count_def counted_def)

lemma voters_validators:
  assumes "tallies_ok C oracle s"
  shows "voters k bid (tally_at s rd) \<subseteq> scid_set (rn_validators s)"
proof
  fix x assume "x \<in> voters k bid (tally_at s rd)"
  then obtain v where "map_of (by_root k (tally_at s rd)) x = Some v" by (auto simp: voters_def)
  with assms have "did_scid (v_root v) = x" "accept_vote C oracle s v"
    unfolding tallies_ok_def tally_ok_def slots_ok_def by blast+
  with accept_vote_validator show "x \<in> scid_set (rn_validators s)" by blast
qed

text \<open>A count that reaches the threshold is a quorum of validators.\<close>

lemma counted_quorum:
  assumes "tallies_ok C oracle s" "vs_wf (rn_validators s)"
    "rn_quorum s \<le> tally s rd (\<lambda>t. card (counted k bid t))"
  shows "is_quorum (rn_validators s) (voters k bid (tally_at s rd))"
proof -
  have "counted k bid (tally_at s rd) = voters k bid (tally_at s rd)"
    using assms(1) by (simp add: tallies_ok_def tally_ok_def)
  with assms voters_validators [OF assms(1)] show ?thesis
    by (simp add: is_quorum_threshold tally_at_eq rn_quorum_def)
qed

lemma kept_votes_at:
  "get_or [] (case map_of (rn_votes s) rd of None \<Rightarrow> None | Some t \<Rightarrow> map_of (rv_precommit_votes t) bid)
     = kept_votes bid (tally_at s rd)"
  by (simp add: kept_votes_def tally_at_def RoundVotes_default_def split: option.split)

lemma kept_votes_ok:
  assumes "tally_ok C oracle s rd t" "v \<in> set (kept_votes bid t)"
  shows "v_kind v = Precommit" "v_round v = rd" "v_block_hash v = bid" "accept_vote C oracle s v"
    "map_of (rv_precommit_by_root t) (did_scid (v_root v)) = Some v"
proof -
  from assms show in_t: "map_of (rv_precommit_by_root t) (did_scid (v_root v)) = Some v" and "v_block_hash v = bid"
    unfolding tally_ok_def by blast+
  then have "map_of (by_root Precommit t) (did_scid (v_root v)) = Some v" by (simp add: by_root_def)
  with assms(1) show "v_kind v = Precommit" "v_round v = rd" "accept_vote C oracle s v"
    unfolding tally_ok_def slots_ok_def by blast+
qed

lemma kept_votes_voters:
  assumes t: "tally_ok C oracle s rd t"
  shows "voters Precommit bid t = (did_scid \<circ> v_root) ` set (kept_votes bid t)"
proof
  show "(did_scid \<circ> v_root) ` set (kept_votes bid t) \<subseteq> voters Precommit bid t"
    using kept_votes_ok [OF t] by (force simp: voters_def by_root_def)
  show "voters Precommit bid t \<subseteq> (did_scid \<circ> v_root) ` set (kept_votes bid t)"
  proof
    fix x assume "x \<in> voters Precommit bid t"
    then obtain v where v: "map_of (by_root Precommit t) x = Some v" "v_block_hash v = bid"
      by (auto simp: voters_def)
    with t have "did_scid (v_root v) = x" unfolding tally_ok_def slots_ok_def by blast
    with v t have "v \<in> set (kept_votes bid t)" "x = (did_scid \<circ> v_root) v"
      unfolding tally_ok_def by_root_def by auto
    then show "x \<in> (did_scid \<circ> v_root) ` set (kept_votes bid t)" by blast
  qed
qed

lemma decided_certificate:
  assumes ok: "tallies_ok C oracle s" and wf: "vs_wf (rn_validators s)" and dec: "decidable s (rd, p)"
  shows "verify_finality C \<lparr>qc_height = rn_height s, qc_round = rd, qc_block_hash = pi_id p,
      qc_votes = kept_votes (pi_id p) (tally_at s rd)\<rparr> (rn_validators s) oracle
    = Inr (card (voters Precommit (pi_id p) (tally_at s rd)))" (is "verify_finality C ?qc ?vs oracle = Inr (card ?V)")
proof -
  let ?kept = "kept_votes (pi_id p) (tally_at s rd)"
  have t: "tally_ok C oracle s rd (tally_at s rd)" using ok by (simp add: tallies_ok_def)
  have V: "?V = (did_scid \<circ> v_root) ` set ?kept" by (rule kept_votes_voters [OF t])
  have "certified C ?qc ?vs oracle = ?V"
    using kept_votes_ok [OF t] unfolding V certified_def vs_contains_iff accept_vote_verified
    by (auto simp: image_iff)
  moreover have "length ?kept = card ?V"
    using t distinct_card [of "map (did_scid \<circ> v_root) ?kept"] by (simp add: V tally_ok_def)
  moreover have "is_quorum ?vs ?V"
    using counted_quorum [OF ok wf] dec by (simp add: decidable_def counts_counted)
  ultimately show ?thesis
    using card_mono [OF finite_scid_set, of ?V ?vs] wf
    by (simp add: verify_finality_iff is_quorum_threshold card_scid_set MAX_VOTES_PER_CERTIFICATE_def vs_wf_def)
qed

lemma sound_decide:
  assumes ok: "sound_outputs C oracle h vs s acts" and r: "rule_decide ord s = (s', a)"
  shows "list_all (action_ok C oracle h vs) a"
  using r
proof (cases rule: decide_cases)
  case (decide rd p)
  from ok have "verify_finality C \<lparr>qc_height = h, qc_round = rd, qc_block_hash = pi_id p,
      qc_votes = kept_votes (pi_id p) (tally_at s rd)\<rparr> vs oracle
      = Inr (card (voters Precommit (pi_id p) (tally_at s rd)))"
    using decided_certificate [of C "oracle" s rd p] decide(2) by (auto simp: sound_outputs_def)
  with decide(4) ok show ?thesis by (simp add: kept_votes_at sound_outputs_def)
qed simp

lemma sound_evidence:
  assumes ok: "sound_outputs C oracle h vs s acts" and acc: "accept_vote C oracle s vote"
    and prior: "map_of (by_root (v_kind vote) (joined s vote)) (did_scid (v_root vote)) = Some prior"
      "v_block_hash prior \<noteq> v_block_hash vote"
  shows "action_ok C oracle h vs (Equivocation \<lparr>ee_first = prior, ee_second = vote\<rparr>)"
proof -
  from ok have "slots_ok C oracle s (v_round vote) (tally_at s (v_round vote))"
    unfolding sound_outputs_def tallies_ok_def tally_ok_def by blast
  with prior(1) have p: "v_kind prior = v_kind vote" "v_round prior = v_round vote"
      "did_scid (v_root prior) = did_scid (v_root vote)" "accept_vote C oracle s prior"
    unfolding slots_ok_def joined_views by blast+
  with acc prior(2) ok show ?thesis
    by (simp add: verify_equivocation_def Let_def accept_vote_verified oracle_vote_ok_verifies sound_outputs_def)
qed

lemma rule_actions_ok:
  "rule_propose_fresh s = (s', a) \<Longrightarrow> list_all (action_ok C oracle h vs) a"
  "rule_propose_polc s = (s', a) \<Longrightarrow> list_all (action_ok C oracle h vs) a"
  "rule_prevote_timeout s = (s', a) \<Longrightarrow> list_all (action_ok C oracle h vs) a"
  "rule_prevote_nil s = (s', a) \<Longrightarrow> list_all (action_ok C oracle h vs) a"
  "rule_precommit_timeout s = (s', a) \<Longrightarrow> list_all (action_ok C oracle h vs) a"
  "rule_prevote_quorum s = (s', a) \<Longrightarrow> list_all (action_ok C oracle h vs) a"
  "enter_round_core s rd = (s', a) \<Longrightarrow> list_all (action_ok C oracle h vs) a"
  by (auto simp: rule_propose_fresh_def rule_propose_polc_def rule_prevote_timeout_def rule_prevote_nil_def
      rule_precommit_timeout_def rule_prevote_quorum_def enter_round_core_def Let_def
      split: if_splits option.splits)

interpretation sound: rule_invariant ord "sound_outputs C oracle h vs"
  for ord :: iter_order and C :: crypto and "oracle" :: kel_oracle and h :: u64 and vs :: ValidatorSet
  by unfold_locales
     (blast intro: sound_outputs_same same_inputs_rules same_inputs_enter rule_actions_ok sound_decide)+

lemma sound_votes_upd:
  "sound_outputs C oracle h vs s acts \<Longrightarrow> tally_ok C oracle s rd t
    \<Longrightarrow> sound_outputs C oracle h vs (put_tally s rd t) acts"
  by (auto simp: sound_outputs_def tallies_ok_put)

interpretation sound_run: handler_invariant ord "sound_outputs C oracle h vs" C "oracle" "\<lambda>_. True"
  for ord :: iter_order and C :: crypto and "oracle" :: kel_oracle and h :: u64 and vs :: ValidatorSet
proof unfold_locales
  fix s acts vote and prior :: Vote
  assume ok: "sound_outputs C oracle h vs s acts"
  then have t: "tallies_ok C oracle s" by (simp add: sound_outputs_def)
  show "0 \<in> rn_started s" using ok by (simp add: sound_outputs_def)
  show "sound_outputs C oracle h vs (s\<lparr>rn_proposals := AList.update rd
      \<lparr>pi_id = bid, pi_valid_round = vr, pi_valid = valid\<rparr> (rn_proposals s)\<rparr>) acts" for rd bid vr valid
    using ok tallies_ok_cong [of "s\<lparr>rn_proposals := AList.update rd
      \<lparr>pi_id = bid, pi_valid_round = vr, pi_valid = valid\<rparr> (rn_proposals s)\<rparr>" s]
    by (simp add: sound_outputs_def)
  show "sound_outputs C oracle h vs (mark_prevote s (rn_round s)) (acts @ [SignPrevote (rn_round s) NIL])"
    by (rule sound_outputs_same [OF ok]) simp_all
  show "sound_outputs C oracle h vs (mark_precommit s (rn_round s)) (acts @ [SignPrecommit (rn_round s) NIL])"
    by (rule sound_outputs_same [OF ok]) simp_all
  assume acc: "accept_vote C oracle s vote"
  show "sound_outputs C oracle h vs (put_tally s (v_round vote) (joined s vote)) acts"
    by (rule sound_votes_upd [OF ok tally_ok_joined [OF t acc]])
  show "map_of (by_root (v_kind vote) (joined s vote)) (did_scid (v_root vote)) = None
      \<Longrightarrow> sound_outputs C oracle h vs (put_tally s (v_round vote) (file_vote (joined s vote) vote)) acts"
    by (rule sound_votes_upd [OF ok tally_ok_file [OF tally_ok_joined [OF t acc] acc]])
  show "map_of (by_root (v_kind vote) (joined s vote)) (did_scid (v_root vote)) = Some prior
      \<Longrightarrow> v_block_hash prior \<noteq> v_block_hash vote
      \<Longrightarrow> sound_outputs C oracle h vs s (acts @ [Equivocation \<lparr>ee_first = prior, ee_second = vote\<rparr>])"
    using sound_evidence [OF ok acc] ok by (simp add: sound_outputs_def)
qed

lemma start_sound:
  assumes "vs_wf vs"
  shows "sound_outputs C oracle h vs (fst (enter_round_core (round_new h vs root) 0))
    (snd (enter_round_core (round_new h vs root) 0))"
proof -
  let ?s = "(round_new h vs root)\<lparr>rn_started := {0}\<rparr>"
  have "tallies_ok C oracle ?s"
    by (simp add: tallies_ok_def tally_at_def round_new_def tally_ok_default)
  then show ?thesis
    using assms tallies_ok_cong [of "fst (enter_round_core (round_new h vs root) 0)" ?s]
    by (simp add: sound_outputs_def enter_round_core_def round_new_def Let_def split: option.split)
qed

section \<open>A concrete run\<close>

lemma eval_loop_unfold:
  "eval_loop ord s =
     (if rn_decided (fst (eval_pass ord s)) \<or> snd (eval_pass ord s) = [] then eval_pass ord s
      else (fst (eval_loop ord (fst (eval_pass ord s))),
            snd (eval_pass ord s) @ snd (eval_loop ord (fst (eval_pass ord s)))))"
  by (subst eval_loop.simps) (simp add: split_beta Let_def)

definition demo_block :: bytes where "demo_block = replicate 32 7"

definition demo_events :: "Event list" where
  "demo_events = [ProposalReceived 0 demo_block (-1) True, VoteReceived (demo_vote Prevote 1 0 demo_block),
     VoteReceived (demo_vote Precommit 1 0 demo_block)]"

definition demo_machine :: "Round \<times> Action list" where
  "demo_machine = machine (\<lambda>l. l) toy_crypto demo_oracle 1 demo_vs (ctrl_did demo_root) demo_events"

lemmas round_eval =
  machine_def round_start_def then_evaluate_def enter_round_core_def round_new_def evaluate_def eval_pass_def
  seq_rule_def rule_propose_fresh_def rule_propose_polc_def rule_prevote_timeout_def rule_prevote_quorum_def
  rule_prevote_nil_def rule_precommit_timeout_def rule_decide_def rule_skip_round_def decidable_def tally_def
  mark_prevote_def mark_precommit_def rn_quorum_def quorum_threshold_def f_plus_1_def is_local_proposer_def
  proposer_for_def on_proposal_def on_vote_def on_timeout_def file_vote_def by_root_def entry_insert_def
  entry_push_def RoundVotes_default_def prevote_count_def precommit_count_def total_prevotes_def
  total_precommits_def Let_def

lemma demo_accepts:
  "v_height (demo_vote k 1 rd h) = rn_height s \<Longrightarrow> rn_validators s = demo_vs
    \<Longrightarrow> accept_vote toy_crypto demo_oracle s (demo_vote k 1 rd h)"
  by (simp add: accept_vote_verified demo_vote_ok scid_set_def demo_vs_def)

lemma demo_decides:
  "snd demo_machine =
     [Propose 0 None (-1), SignPrevote 0 demo_block, ScheduleTimeout Prevote_step 0, SignPrecommit 0 demo_block,
      ScheduleTimeout Precommit_step 0, Decided (demo_qc demo_block)]"
  unfolding demo_machine_def demo_events_def
  by (simp add: round_eval eval_loop_unfold demo_vs_def demo_accepts [unfolded demo_vs_def] demo_vote_ok demo_qc_def)

lemma assemble_Inr_iff:
  "assemble C a b oracle = Inr p \<longleftrightarrow>
     did_scid (v_root a) = did_scid (v_root b) \<and> v_height a = v_height b \<and> v_round a = v_round b
     \<and> v_kind a = v_kind b \<and> v_block_hash a \<noteq> v_block_hash b
     \<and> oracle_vote_ok C oracle a \<and> oracle_vote_ok C oracle b
     \<and> p = (if v_block_hash a < v_block_hash b then \<lparr>ep_first = a, ep_second = b\<rparr>
            else \<lparr>ep_first = b, ep_second = a\<rparr>)"
  by (auto simp: assemble_def oracle_vote_check)

section \<open>Properties\<close>

text \<open>
  Property (C8): what the driver hands out can be checked by anyone. Whatever events a machine is
  fed, the certificate in each decision it announces passes the finality check of the chain for its
  height and validator set, and every pair of votes it reports as double voting is accepted both by
  the evidence check of the consensus crate and by the proof assembly of the chain crate.
\<close>

theorem machine_outputs_verify:
  assumes wf: "vs_wf vs" and run: "machine ord C oracle h vs root es = (s, acts)"
  shows "(\<forall>qc. Decided qc \<in> set acts \<longrightarrow> qc_height qc = h \<and> is_ok (verify_finality C qc vs oracle))
    \<and> (\<forall>ev. Equivocation ev \<in> set acts \<longrightarrow> verify_equivocation C ev oracle
          \<and> is_ok (assemble C (ee_first ev) (ee_second ev) oracle))"
proof -
  have "sound_outputs C oracle h vs s acts"
    by (rule sound_run.machine [OF start_sound [OF wf] _ run]) (simp add: list_all_iff)
  then have "\<forall>a \<in> set acts. action_ok C oracle h vs a" by (simp add: sound_outputs_def list_all_iff)
  moreover have "verify_equivocation C ev oracle \<Longrightarrow> is_ok (assemble C (ee_first ev) (ee_second ev) oracle)" for ev
    by (rule assemble_ok) (auto simp: verify_equivocation_def Let_def oracle_vote_ok_verifies split: if_splits)
  ultimately show ?thesis by fastforce
qed

theorem machine_outputs_verify_witness:
  "\<exists>s acts. machine (\<lambda>l. l) toy_crypto demo_oracle 1 demo_vs (ctrl_did demo_root) demo_events = (s, acts)
     \<and> Decided (demo_qc demo_block) \<in> set acts \<and> is_ok (verify_finality toy_crypto (demo_qc demo_block) demo_vs demo_oracle)"
proof -
  obtain s acts where m: "machine (\<lambda>l. l) toy_crypto demo_oracle 1 demo_vs (ctrl_did demo_root) demo_events = (s, acts)"
    by (metis surj_pair)
  then have "Decided (demo_qc demo_block) \<in> set acts" using demo_decides by (simp add: demo_machine_def)
  with m machine_outputs_verify [OF demo_vs_wf m] show ?thesis by blast
qed

text \<open>
  Property (C20): a started machine votes at most once per round and phase. Whatever proposals,
  votes (its own, others', conflicting ones) and timers arrive in whatever order, no two prevotes it
  asks its host to sign carry the same round, and no two precommits do: the driver itself never
  makes its host double-sign.
\<close>

theorem one_vote_per_round_and_phase:
  "let (s, acts) = machine ord C oracle h vs root es
   in distinct (map fst (prevotes_in acts)) \<and> distinct (map fst (precommits_in acts))"
proof -
  obtain s acts where m: "machine ord C oracle h vs root es = (s, acts)" by (metis surj_pair)
  have "honest_votes s acts" by (rule honest_run.machine [OF start_honest _ m]) (simp add: list_all_iff)
  with m show ?thesis by (simp add: honest_votes_def)
qed

text \<open>
  The two evidence formats agree. The evidence check of the consensus crate accepts a
  pair of votes exactly when the chain crate assembles an equivocation proof from them, in either
  order, and the proof does not depend on the order.
\<close>

lemma evidence_formats_agree:
  "(verify_equivocation C \<lparr>ee_first = a, ee_second = b\<rparr> oracle \<longleftrightarrow> is_ok (assemble C a b oracle))
   \<and> (\<forall>p. assemble C a b oracle = Inr p \<longleftrightarrow> assemble C b a oracle = Inr p)"
proof
  show "verify_equivocation C \<lparr>ee_first = a, ee_second = b\<rparr> oracle \<longleftrightarrow> is_ok (assemble C a b oracle)"
    by (auto simp: verify_equivocation_def assemble_def is_ok_iff Let_def
        oracle_vote_ok_verifies [symmetric] oracle_vote_check)
  show "\<forall>p. assemble C a b oracle = Inr p \<longleftrightarrow> assemble C b a oracle = Inr p"
    by (auto simp: assemble_Inr_iff)
qed

end
