(* ===== verification/Fixpoint.thy ===== *)
theory Fixpoint
  imports Tally
begin

text \<open>
  The fixed point of the round driver's rules: re-evaluating right after an evaluation does nothing,
  and a decision that the messages allow is never left waiting.
\<close>

section \<open>Rules that stay silent\<close>

text \<open>
  The one silent change a rule can make: seeing a prevote quorum records the valid value even when no
  action follows. No rule that stayed silent starts to act because of it.
\<close>

definition saw_quorum :: "ProposalInfo \<Rightarrow> Round \<Rightarrow> Round" where
  "saw_quorum p s = s\<lparr>rn_quorum_seen := insert (rn_round s) (rn_quorum_seen s),
     rn_valid_value := Some (pi_id p), rn_valid_round := uint (rn_round s)\<rparr>"

lemma saw_quorum_fields [simp]:
  "rn_round (saw_quorum p s) = rn_round s" "rn_step (saw_quorum p s) = rn_step s"
  "rn_proposals (saw_quorum p s) = rn_proposals s" "rn_votes (saw_quorum p s) = rn_votes s"
  "rn_prevoted (saw_quorum p s) = rn_prevoted s" "rn_precommitted (saw_quorum p s) = rn_precommitted s"
  "rn_prevote_armed (saw_quorum p s) = rn_prevote_armed s"
  "rn_precommit_armed (saw_quorum p s) = rn_precommit_armed s"
  "rn_decided (saw_quorum p s) = rn_decided s" "rn_started (saw_quorum p s) = rn_started s"
  "rn_quorum_seen (saw_quorum p s) = insert (rn_round s) (rn_quorum_seen s)"
  "rn_quorum (saw_quorum p s) = rn_quorum s" "f_plus_1 (saw_quorum p s) = f_plus_1 s"
  "tally (saw_quorum p s) = tally s" "decidable (saw_quorum p s) = decidable s"
  by (auto simp: saw_quorum_def rn_quorum_def f_plus_1_def tally_def decidable_def fun_eq_iff)

definition silent :: "(Round \<Rightarrow> Round \<times> Action list) \<Rightarrow> bool" where
  "silent f = (\<forall>s. snd (f s) = [] \<longrightarrow> f s = (s, []) \<and> (\<forall>p. f (saw_quorum p s) = (saw_quorum p s, [])))"

lemma silent_rules:
  "silent rule_propose_fresh" "silent rule_propose_polc" "silent rule_prevote_timeout"
  "silent rule_prevote_nil" "silent rule_precommit_timeout" "silent (rule_decide ord)"
proof -
  show "silent rule_propose_fresh"
    by (auto simp: silent_def rule_propose_fresh_def Let_def split: option.splits if_splits)
  show "silent rule_propose_polc"
    by (auto simp: silent_def rule_propose_polc_def Let_def split: option.splits if_splits)
  show "silent rule_prevote_timeout"
    by (auto simp: silent_def rule_prevote_timeout_def Let_def split: if_splits)
  show "silent rule_prevote_nil"
    by (auto simp: silent_def rule_prevote_nil_def Let_def split: if_splits)
  show "silent rule_precommit_timeout"
    by (auto simp: silent_def rule_precommit_timeout_def Let_def split: if_splits)
  show "silent (rule_decide ord)"
    by (auto simp: silent_def rule_decide_def Let_def split: option.splits)
qed

lemma enter_silent:
  "snd (enter_round_core s rd) = [] \<Longrightarrow> rn_decided s \<or> rd \<in> rn_started s"
  by (auto simp: enter_round_core_def Let_def split: if_splits)

lemma silent_skip: "silent rule_skip_round"
  using enter_silent enter_old
  by (auto simp: silent_def rule_skip_round_def Let_def split: if_splits)

lemma silent_quorum:
  assumes "snd (rule_prevote_quorum s) = []"
  shows "\<exists>s'. rule_prevote_quorum s = (s', []) \<and> rule_prevote_quorum s' = (s', []) \<and> (s' = s \<or> (\<exists>p. s' = saw_quorum p s))"
proof -
  obtain s' a where r: "rule_prevote_quorum s = (s', a)" by (cases "rule_prevote_quorum s")
  then show ?thesis
  proof (cases rule: prevote_quorum_cases)
    case (seen p)
    then have "s' = saw_quorum p s" by (simp add: saw_quorum_def)
    moreover have "rule_prevote_quorum (saw_quorum p s) = (saw_quorum p s, [])"
      by (simp add: rule_prevote_quorum_def)
    ultimately show ?thesis using r seen by auto
  qed (use r assms in \<open>auto\<close>)
qed

lemma seq_silent: "snd (seq_rule f sa) = [] \<longleftrightarrow> snd sa = [] \<and> snd (f (fst sa)) = []"
  by (cases "f (fst sa)") (auto simp: seq_rule_def)

lemma seq_rule_silent: "silent f \<Longrightarrow> snd (f s) = [] \<Longrightarrow> seq_rule f (s, []) = (s, [])"
  unfolding silent_def seq_rule_def by auto

lemma eval_pass_silent:
  assumes "snd (eval_pass ord s) = []"
  shows "\<exists>s'. eval_pass ord s = (s', []) \<and> eval_pass ord s' = (s', []) \<and> snd (rule_decide ord s') = []"
proof -
  have q0: "snd (rule_propose_fresh s) = []" using assms by (simp add: eval_pass_def seq_silent)
  then have f0: "seq_rule rule_propose_fresh (s, []) = (s, [])" by (rule seq_rule_silent [OF silent_rules(1)])
  have q1: "snd (rule_propose_polc s) = []" using assms by (simp add: eval_pass_def seq_silent f0)
  then have f1: "seq_rule rule_propose_polc (s, []) = (s, [])" by (rule seq_rule_silent [OF silent_rules(2)])
  have q2: "snd (rule_prevote_timeout s) = []" using assms by (simp add: eval_pass_def seq_silent f0 f1)
  then have f2: "seq_rule rule_prevote_timeout (s, []) = (s, [])" by (rule seq_rule_silent [OF silent_rules(3)])
  have "snd (rule_prevote_quorum s) = []" using assms by (simp add: eval_pass_def seq_silent f0 f1 f2)
  then obtain s' where s': "rule_prevote_quorum s = (s', [])" "rule_prevote_quorum s' = (s', [])"
      "s' = s \<or> (\<exists>p. s' = saw_quorum p s)" using silent_quorum by blast
  then have f3: "seq_rule rule_prevote_quorum (s, []) = (s', [])" "seq_rule rule_prevote_quorum (s', []) = (s', [])"
    by (simp_all add: seq_rule_def)
  have "seq_rule f (s', []) = (s', [])" if "silent f" "snd (f s) = []" for f
    using s'(3) that unfolding silent_def seq_rule_def by auto
  note g = this [OF silent_rules(1) q0] this [OF silent_rules(2) q1] this [OF silent_rules(3) q2]
  note before = f0 f1 f2 f3
  have f4: "seq_rule rule_prevote_nil (s', []) = (s', [])"
    by (rule seq_rule_silent [OF silent_rules(4)]) (use assms in \<open>simp add: eval_pass_def seq_silent before\<close>)
  have f5: "seq_rule rule_precommit_timeout (s', []) = (s', [])"
    by (rule seq_rule_silent [OF silent_rules(5)]) (use assms in \<open>simp add: eval_pass_def seq_silent before f4\<close>)
  have q6: "snd (rule_decide ord s') = []" using assms by (simp add: eval_pass_def seq_silent before f4 f5)
  then have f6: "seq_rule (rule_decide ord) (s', []) = (s', [])" by (rule seq_rule_silent [OF silent_rules(6)])
  have f7: "seq_rule rule_skip_round (s', []) = (s', [])"
    by (rule seq_rule_silent [OF silent_skip]) (use assms in \<open>simp add: eval_pass_def seq_silent before f4 f5 f6\<close>)
  show ?thesis using q6 by (simp add: eval_pass_def before g f4 f5 f6 f7)
qed

lemma eval_loop_fixpoint:
  "rn_decided (fst (eval_loop ord s)) \<or> eval_pass ord (fst (eval_loop ord s)) = (fst (eval_loop ord s), [])"
proof (induction "guard_measure s" arbitrary: s rule: less_induct)
  case less
  obtain s1 a1 where p: "eval_pass ord s = (s1, a1)" by (cases "eval_pass ord s")
  consider "rn_decided s1" | "\<not> rn_decided s1" "a1 = []" | "\<not> rn_decided s1" "a1 \<noteq> []" by blast
  then show ?case
  proof cases
    case 1
    with p show ?thesis by (simp add: eval_loop.simps [of ord s])
  next
    case 2
    with p eval_pass_silent [of ord s] show ?thesis by (auto simp: eval_loop.simps [of ord s])
  next
    case 3
    with progresses_pass [of s ord] p have "guard_measure s1 < guard_measure s" by (simp add: progresses_def)
    from less.hyps [OF this] 3 p show ?thesis by (simp add: eval_loop.simps [of ord s] split_beta)
  qed
qed

text \<open>After an evaluation nothing that the messages allow is left to do.\<close>

definition settled :: "iter_order \<Rightarrow> Round \<Rightarrow> bool" where
  "settled ord s = (rn_decided s \<or> eval_pass ord s = (s, []))"

lemma evaluate_settled: "settled ord (fst (evaluate ord s))"
  using eval_loop_fixpoint [of ord s] by (auto simp: settled_def evaluate_def)

lemma settled_evaluate: "settled ord s \<Longrightarrow> evaluate ord s = (s, [])"
  by (auto simp: settled_def evaluate_def eval_loop.simps [of ord s])

lemma settled_not_decidable:
  assumes "settled ord s" "\<not> rn_decided s"
  shows "\<not> (\<exists>rp \<in> set (ord (rn_proposals s)). decidable s rp)"
proof -
  have "snd (rule_decide ord s) = []"
    using assms eval_pass_silent [of ord s] by (auto simp: settled_def)
  then have "List.find (decidable s) (ord (rn_proposals s)) = None"
    by (auto simp: rule_decide_def Let_def split: option.splits)
  then show ?thesis by (auto simp: find_None_iff)
qed

text \<open>Which handler results are settled.\<close>

lemma then_evaluate_settled: "settled ord (fst (then_evaluate ord sa))"
  using evaluate_settled [of ord "fst sa"]
  by (cases "evaluate ord (fst sa)") (simp add: then_evaluate_def seq_rule_def)

section \<open>Evaluation keeps its inputs\<close>

lemma same_inputs_trans: "same_inputs s s' \<Longrightarrow> same_inputs s' s'' \<Longrightarrow> same_inputs s s''"
  by (auto simp: same_inputs_def)

interpretation inputs: rule_invariant ord "\<lambda>s' _. same_inputs s s'"
  for ord :: iter_order and s :: Round
  by unfold_locales (blast intro: same_inputs_trans same_inputs_rules same_inputs_enter)+

lemma evaluate_inputs: "same_inputs s (fst (evaluate ord s))"
  using inputs.eval [of s s ord] by (cases "evaluate ord s") simp

lemma decidable_cong: "same_inputs s s' \<Longrightarrow> decidable s' = decidable s"
  by (auto simp: same_inputs_def decidable_def tally_def rn_quorum_def fun_eq_iff)

section \<open>Properties\<close>

text \<open>
  Property (C21): evaluation reaches a fixed point. The loop over the rules ends on every state, and
  evaluating again right after it changes nothing and asks for nothing, as the source claims of its
  guards.
\<close>

theorem evaluate_idempotent:
  "evaluate ord (fst (evaluate ord s)) = (fst (evaluate ord s), [])"
  by (rule settled_evaluate [OF evaluate_settled])

text \<open>
  Property (C22): a decision is never left waiting. When a proposal the machine judged valid has a
  quorum of precommits in its round, whatever the round and whatever the order in which the
  proposal map is walked, the evaluation that follows decides.
\<close>

theorem decidable_is_decided:
  assumes "\<And>l. set (ord l) = set l" and "(rd, p) \<in> set (rn_proposals s)" and "decidable s (rd, p)"
  shows "rn_decided (fst (evaluate ord s))"
proof (rule ccontr)
  assume "\<not> ?thesis"
  from settled_not_decidable [OF evaluate_settled this]
  show False
    using assms decidable_cong [OF evaluate_inputs [of s ord]] evaluate_inputs [of s ord]
    by (auto simp: same_inputs_def)
qed

definition demo_ready :: Round where
  "demo_ready = (round_new 1 demo_vs (ctrl_did demo_root))
     \<lparr>rn_proposals := [(0, \<lparr>pi_id = demo_block, pi_valid_round = -1, pi_valid = True\<rparr>)],
      rn_votes := [(0, RoundVotes_default\<lparr>rv_precommits := [(demo_block, {did_scid (ctrl_did demo_root)})]\<rparr>)]\<rparr>"

theorem decidable_is_decided_witness:
  "decidable demo_ready (0, \<lparr>pi_id = demo_block, pi_valid_round = -1, pi_valid = True\<rparr>)
   \<and> rn_decided (fst (evaluate rev demo_ready))"
proof
  show d: "decidable demo_ready (0, \<lparr>pi_id = demo_block, pi_valid_round = -1, pi_valid = True\<rparr>)"
    by (simp add: demo_ready_def decidable_def tally_def rn_quorum_def quorum_threshold_def round_new_def
        demo_vs_def precommit_count_def)
  show "rn_decided (fst (evaluate rev demo_ready))"
    by (rule decidable_is_decided [OF _ _ d]) (simp_all add: demo_ready_def)
qed

end
