(* ===== verification/Agreement.thy ===== *)
theory Agreement
  imports Fixpoint
begin

text \<open>
  Agreement of the round driver: any number of honest machines that exchange votes through an
  adversarial network, with at most a third of the validators faulty, never decide different blocks.
  The log is the set of votes honest hosts have signed; the network may deliver anything, except a
  verified vote of an honest validator that is not in the log.
\<close>

section \<open>The log of honest votes\<close>

type_synonym entry = "bytes \<times> VoteKind \<times> u32 \<times> bytes"

definition signed_by :: "bytes \<Rightarrow> Action list \<Rightarrow> entry set" where
  "signed_by x acts =
     {(x, Prevote, r, t) | r t. SignPrevote r t \<in> set acts}
     \<union> {(x, Precommit, r, t) | r t. SignPrecommit r t \<in> set acts}"

lemma signed_by_simps [simp]:
  "signed_by x [] = {}"
  "signed_by x (a @ b) = signed_by x a \<union> signed_by x b"
  "signed_by x [SignPrevote r t] = {(x, Prevote, r, t)}"
  "signed_by x [SignPrecommit r t] = {(x, Precommit, r, t)}"
  "signed_by x [ScheduleTimeout st r] = {}"
  "signed_by x [Decided qc] = {}"
  "signed_by x [Equivocation e] = {}"
  "signed_by x [Propose r v vr] = {}"
  by (auto simp: signed_by_def)

text \<open>A proof of lock change: a quorum whose honest members all prevoted the value in the round.\<close>

definition polc :: "ValidatorSet \<Rightarrow> bytes set \<Rightarrow> entry set \<Rightarrow> u32 \<Rightarrow> bytes \<Rightarrow> bool" where
  "polc vs H G r v = (\<exists>Q. is_quorum vs Q \<and> (\<forall>y \<in> Q \<inter> H. (y, Prevote, r, v) \<in> G))"

definition commit :: "ValidatorSet \<Rightarrow> bytes set \<Rightarrow> entry set \<Rightarrow> u32 \<Rightarrow> bytes \<Rightarrow> bool" where
  "commit vs H G r v = (\<exists>Q. is_quorum vs Q \<and> (\<forall>y \<in> Q \<inter> H. (y, Precommit, r, v) \<in> G))"

lemma polc_mono: "polc vs H G r v \<Longrightarrow> G \<subseteq> G' \<Longrightarrow> polc vs H G' r v"
  by (auto simp: polc_def)

lemma commit_mono: "commit vs H G r v \<Longrightarrow> G \<subseteq> G' \<Longrightarrow> commit vs H G' r v"
  by (auto simp: commit_def)

section \<open>The invariant of one honest machine\<close>

text \<open>Its votes are in its guard sets, one per round and phase.\<close>

definition own_ok :: "entry set \<Rightarrow> bytes \<Rightarrow> Round \<Rightarrow> bool" where
  "own_ok G x s =
     ((\<forall>r t. (x, Prevote, r, t) \<in> G \<longrightarrow> r \<in> rn_prevoted s)
      \<and> (\<forall>r t. (x, Precommit, r, t) \<in> G \<longrightarrow> r \<in> rn_precommitted s)
      \<and> (\<forall>k r t t'. (x, k, r, t) \<in> G \<longrightarrow> (x, k, r, t') \<in> G \<longrightarrow> t = t'))"

text \<open>The lock is its latest precommit for a block.\<close>

definition lock_ok :: "entry set \<Rightarrow> bytes \<Rightarrow> Round \<Rightarrow> bool" where
  "lock_ok G x s =
     (rn_locked_round s = -1 \<and> (\<forall>r v. (x, Precommit, r, v) \<in> G \<longrightarrow> v = NIL)
      \<or> (\<exists>lr lv. rn_locked_round s = uint lr \<and> rn_locked_value s = Some lv \<and> (x, Precommit, lr, lv) \<in> G
           \<and> lv \<noteq> NIL \<and> (\<forall>r v. (x, Precommit, r, v) \<in> G \<longrightarrow> v \<noteq> NIL \<longrightarrow> r \<le> lr)))"

text \<open>A later prevote for another block rests on a proof of lock change in between.\<close>

definition justified :: "ValidatorSet \<Rightarrow> bytes set \<Rightarrow> entry set \<Rightarrow> bytes \<Rightarrow> u32 \<Rightarrow> bytes \<Rightarrow> bool" where
  "justified vs H G x r' v' =
     (\<forall>r v. (x, Precommit, r, v) \<in> G \<longrightarrow> v \<noteq> NIL \<longrightarrow> r < r' \<longrightarrow>
        v = v' \<or> (\<exists>r''. r \<le> r'' \<and> r'' < r' \<and> polc vs H G r'' v'))"

definition votes_ok :: "ValidatorSet \<Rightarrow> bytes set \<Rightarrow> entry set \<Rightarrow> bytes \<Rightarrow> bool" where
  "votes_ok vs H G x =
     ((\<forall>r v. (x, Precommit, r, v) \<in> G \<longrightarrow> v \<noteq> NIL \<longrightarrow> polc vs H G r v)
      \<and> (\<forall>r' v'. (x, Prevote, r', v') \<in> G \<longrightarrow> v' \<noteq> NIL \<longrightarrow> justified vs H G x r' v'))"

text \<open>Every honest vote it counts was cast.\<close>

definition heard_ok :: "bytes set \<Rightarrow> entry set \<Rightarrow> Round \<Rightarrow> bool" where
  "heard_ok H G s =
     (\<forall>r k y v. map_of (by_root k (tally_at s r)) y = Some v \<longrightarrow> y \<in> H \<longrightarrow> (y, k, r, v_block_hash v) \<in> G)"

definition proposals_ok :: "Round \<Rightarrow> bool" where
  "proposals_ok s = (\<forall>(r, p) \<in> set (rn_proposals s). pi_id p \<noteq> NIL \<and> pi_valid_round p < 2 ^ 32)"

definition node_ok ::
  "ValidatorSet \<Rightarrow> bytes set \<Rightarrow> crypto \<Rightarrow> kel_oracle \<Rightarrow> entry set \<Rightarrow> bytes \<Rightarrow> Round \<Rightarrow> bool" where
  "node_ok vs H C oracle G x s =
     (vs_wf vs \<and> rn_validators s = vs \<and> tallies_ok C oracle s \<and> started s \<and> own_ok G x s \<and> lock_ok G x s
      \<and> votes_ok vs H G x \<and> heard_ok H G s \<and> proposals_ok s)"

lemma started_honest: "started s \<longleftrightarrow> honest_votes s []"
  by (simp add: honest_votes_def)

lemma started_mark:
  "started s \<Longrightarrow> rn_step s = Propose_step \<Longrightarrow> started (mark_prevote s (rn_round s))"
  "started s \<Longrightarrow> rn_step s = Prevote_step \<Longrightarrow> started (mark_precommit s (rn_round s))"
  using mark_prevote_honest [of s "[]"] mark_precommit_honest [of s "[]"]
  by (simp_all add: honest_votes_def)

lemma heard_ok_votes: "rn_votes s' = rn_votes s \<Longrightarrow> heard_ok H G s' = heard_ok H G s"
  by (simp add: heard_ok_def tally_at_def)

lemma heard_ok_mono: "heard_ok H G s \<Longrightarrow> G \<subseteq> G' \<Longrightarrow> heard_ok H G' s"
  by (auto simp: heard_ok_def)

lemma justified_mono_other:
  assumes "justified vs H G x r v" "G \<subseteq> G'" "\<forall>r v. (x, Precommit, r, v) \<in> G' \<longrightarrow> (x, Precommit, r, v) \<in> G"
  shows "justified vs H G' x r v"
  unfolding justified_def
proof (intro allI impI)
  fix r0 v0 assume "(x, Precommit, r0, v0) \<in> G'" "v0 \<noteq> NIL" "r0 < r"
  with assms have "v0 = v \<or> (\<exists>r''. r0 \<le> r'' \<and> r'' < r \<and> polc vs H G r'' v)"
    unfolding justified_def by blast
  with polc_mono [OF _ assms(2)] show "v0 = v \<or> (\<exists>r''. r0 \<le> r'' \<and> r'' < r \<and> polc vs H G' r'' v)" by blast
qed

text \<open>Votes of others do not disturb it.\<close>

lemma node_ok_mono:
  assumes ok: "node_ok vs H C oracle G x s" and sub: "G \<subseteq> G'"
    and own: "\<forall>k r v. (x, k, r, v) \<in> G' \<longrightarrow> (x, k, r, v) \<in> G"
  shows "node_ok vs H C oracle G' x s"
proof -
  have same: "(x, k, r, v) \<in> G' \<longleftrightarrow> (x, k, r, v) \<in> G" for k r v using sub own by blast
  have "justified vs H G' x r v" if "justified vs H G x r v" for r v
    using that sub by (rule justified_mono_other) (auto simp: same)
  then have "votes_ok vs H G' x"
    using ok polc_mono [OF _ sub] unfolding node_ok_def votes_ok_def same by blast
  with ok heard_ok_mono [OF _ sub] show ?thesis
    unfolding node_ok_def own_ok_def lock_ok_def same by blast
qed

section \<open>What keeps it\<close>

lemma node_ok_frame:
  assumes "node_ok vs H C oracle G x s" "same_inputs s s'" "started s'"
    "rn_prevoted s' = rn_prevoted s" "rn_precommitted s' = rn_precommitted s"
    "rn_locked_round s' = rn_locked_round s" "rn_locked_value s' = rn_locked_value s"
  shows "node_ok vs H C oracle G x s'"
  using assms tallies_ok_cong [of s' s C "oracle"] heard_ok_votes [of s' s H G]
  unfolding node_ok_def own_ok_def lock_ok_def same_inputs_def proposals_ok_def by simp

lemma own_round_fresh:
  assumes "node_ok vs H C oracle G x s"
  shows "rn_step s = Propose_step \<Longrightarrow> (x, Prevote, rn_round s, t) \<notin> G"
    "rn_step s \<noteq> Precommit_step \<Longrightarrow> (x, Precommit, rn_round s, t) \<notin> G"
    "(x, Prevote, r, t) \<in> G \<Longrightarrow> r \<le> rn_round s" "(x, Precommit, r, t) \<in> G \<Longrightarrow> r \<le> rn_round s"
  using assms unfolding node_ok_def own_ok_def started_def by blast+

lemma node_ok_prevote:
  assumes ok: "node_ok vs H C oracle G x s" and st: "rn_step s = Propose_step"
    and just: "t = NIL \<or> justified vs H G x (rn_round s) t"
  shows "node_ok vs H C oracle (insert (x, Prevote, rn_round s, t) G) x (mark_prevote s (rn_round s))"
proof -
  let ?G = "insert (x, Prevote, rn_round s, t) G" and ?s = "mark_prevote s (rn_round s)"
  have sub: "G \<subseteq> ?G" by blast
  have "justified vs H ?G x r v" if "justified vs H G x r v" for r v
    using that sub by (rule justified_mono_other) auto
  then have "votes_ok vs H ?G x"
    using ok just polc_mono [OF _ sub] unfolding node_ok_def votes_ok_def by auto
  moreover have "own_ok ?G x ?s"
    using ok own_round_fresh(1) [OF ok st] unfolding node_ok_def own_ok_def by (auto simp: mark_prevote_def)
  moreover have "lock_ok ?G x ?s"
    using ok unfolding node_ok_def lock_ok_def by (auto simp: mark_prevote_def)
  moreover have "started ?s" using ok st started_mark(1) by (simp add: node_ok_def)
  moreover have "heard_ok H ?G ?s"
    using ok heard_ok_mono [OF _ sub] heard_ok_votes [of ?s s H G]
    by (simp add: node_ok_def mark_prevote_def heard_ok_votes [of ?s s])
  ultimately show ?thesis
    using ok tallies_ok_cong [of ?s s C "oracle"] by (simp add: node_ok_def mark_prevote_def proposals_ok_def)
qed

lemma justified_new_precommit:
  assumes "justified vs H G x r v" "r \<le> m"
  shows "justified vs H (insert (x, Precommit, m, t) G) x r v"
  unfolding justified_def
proof (intro allI impI)
  fix r0 v0 assume a: "(x, Precommit, r0, v0) \<in> insert (x, Precommit, m, t) G" "v0 \<noteq> NIL" "r0 < r"
  then have "(x, Precommit, r0, v0) \<in> G" using assms(2) by auto
  with a assms(1) have "v0 = v \<or> (\<exists>r''. r0 \<le> r'' \<and> r'' < r \<and> polc vs H G r'' v)"
    unfolding justified_def by blast
  then show "v0 = v \<or> (\<exists>r''. r0 \<le> r'' \<and> r'' < r \<and> polc vs H (insert (x, Precommit, m, t) G) r'' v)"
    using polc_mono [of vs H G _ v "insert (x, Precommit, m, t) G"] by blast
qed

lemma lock_ok_precommit:
  assumes "lock_ok G x s" "\<And>r t. (x, Precommit, r, t) \<in> G \<Longrightarrow> r \<le> m"
    and lock: "t = NIL \<and> rn_locked_round s' = rn_locked_round s \<and> rn_locked_value s' = rn_locked_value s
      \<or> t \<noteq> NIL \<and> rn_locked_round s' = uint m \<and> rn_locked_value s' = Some t"
  shows "lock_ok (insert (x, Precommit, m, t) G) x s'"
  using lock
proof
  assume "t = NIL \<and> rn_locked_round s' = rn_locked_round s \<and> rn_locked_value s' = rn_locked_value s"
  with assms(1) show ?thesis unfolding lock_ok_def by auto
next
  assume "t \<noteq> NIL \<and> rn_locked_round s' = uint m \<and> rn_locked_value s' = Some t"
  with assms(2) show ?thesis unfolding lock_ok_def by (intro disjI2 exI [of _ m] exI [of _ t]) auto
qed

text \<open>
  A precommit for nothing leaves the lock; a precommit for a block moves it, and needs a proof of lock
  change. Both are for the current round, after which no earlier prevote needs a new justification.
\<close>

lemma node_ok_precommit:
  assumes ok: "node_ok vs H C oracle G x s" and st: "rn_step s = Prevote_step"
    and pol: "t = NIL \<or> polc vs H G (rn_round s) t"
    and inputs: "same_inputs s s'" and started: "started s'"
    and guards: "rn_prevoted s' = rn_prevoted s" "rn_precommitted s' = insert (rn_round s) (rn_precommitted s)"
    and lock: "t = NIL \<and> rn_locked_round s' = rn_locked_round s \<and> rn_locked_value s' = rn_locked_value s
      \<or> t \<noteq> NIL \<and> rn_locked_round s' = uint (rn_round s) \<and> rn_locked_value s' = Some t"
  shows "node_ok vs H C oracle (insert (x, Precommit, rn_round s, t) G) x s'"
proof -
  let ?G = "insert (x, Precommit, rn_round s, t) G"
  have sub: "G \<subseteq> ?G" by blast
  have "votes_ok vs H ?G x"
    using ok pol polc_mono [OF _ sub] justified_new_precommit own_round_fresh(3) [OF ok]
    unfolding node_ok_def votes_ok_def by auto
  moreover have "own_ok ?G x s'"
    using ok own_round_fresh(2) [OF ok] st unfolding node_ok_def own_ok_def by (auto simp: guards)
  moreover have "lock_ok ?G x s'"
    using ok lock own_round_fresh(4) [OF ok] by (intro lock_ok_precommit) (auto simp: node_ok_def)
  moreover have "heard_ok H ?G s'"
    using ok heard_ok_mono [OF _ sub] inputs heard_ok_votes [of s' s] by (auto simp: node_ok_def same_inputs_def)
  ultimately show ?thesis
    using ok inputs started tallies_ok_cong [of s' s C "oracle"]
    by (simp add: node_ok_def same_inputs_def proposals_ok_def)
qed

text \<open>A counted quorum of prevotes is a proof of lock change.\<close>

lemma counted_polc:
  assumes ok: "node_ok vs H C oracle G x s"
    and q: "rn_quorum s \<le> tally s r (\<lambda>t. prevote_count t v)"
  shows "polc vs H G r v"
proof -
  let ?Q = "voters Prevote v (tally_at s r)"
  have "is_quorum vs ?Q"
    using counted_quorum [of C "oracle" s r Prevote v] ok q by (simp add: node_ok_def counts_counted)
  moreover have "\<forall>y \<in> ?Q \<inter> H. (y, Prevote, r, v) \<in> G"
    using ok unfolding node_ok_def heard_ok_def voters_def by blast
  ultimately show ?thesis unfolding polc_def by blast
qed

lemma counted_commit:
  assumes ok: "node_ok vs H C oracle G x s"
    and q: "rn_quorum s \<le> tally s r (\<lambda>t. precommit_count t v)"
  shows "commit vs H G r v"
proof -
  let ?Q = "voters Precommit v (tally_at s r)"
  have "is_quorum vs ?Q"
    using counted_quorum [of C "oracle" s r Precommit v] ok q by (simp add: node_ok_def counts_counted)
  moreover have "\<forall>y \<in> ?Q \<inter> H. (y, Precommit, r, v) \<in> G"
    using ok unfolding node_ok_def heard_ok_def voters_def by blast
  ultimately show ?thesis unfolding commit_def by blast
qed

text \<open>Why the machine may prevote a value while locked.\<close>

lemma justified_unlocked:
  "node_ok vs H C oracle G x s \<Longrightarrow> rn_locked_round s = -1 \<Longrightarrow> justified vs H G x r v"
  using uint_ge_0 unfolding node_ok_def lock_ok_def justified_def by (metis neg_0_le_iff_le not_one_le_zero)

lemma lock_cases:
  assumes "node_ok vs H C oracle G x s"
  obtains (unlocked) "rn_locked_round s = -1" "\<And>r v. (x, Precommit, r, v) \<in> G \<Longrightarrow> v = NIL"
  | (locked) lr lv where "rn_locked_round s = uint lr" "rn_locked_value s = Some lv" "(x, Precommit, lr, lv) \<in> G"
      "polc vs H G lr lv" "\<And>r v. (x, Precommit, r, v) \<in> G \<Longrightarrow> v \<noteq> NIL \<Longrightarrow> r \<le> lr"
  using assms unfolding node_ok_def lock_ok_def votes_ok_def by blast

lemma justified_same_lock:
  assumes ok: "node_ok vs H C oracle G x s" and st: "rn_step s = Propose_step"
    and v: "rn_locked_value s = Some v"
  shows "justified vs H G x (rn_round s) v"
  using ok
proof (cases rule: lock_cases)
  case unlocked
  then show ?thesis unfolding justified_def by blast
next
  case (locked lr lv)
  have lt: "lr < rn_round s"
    using own_round_fresh(2) [OF ok, of lv] own_round_fresh(4) [OF ok locked(3)] locked(3) st
    by (cases "lr = rn_round s") auto
  have once: "w = lv" if "(x, Precommit, lr, w) \<in> G" for w
    using ok locked(3) that unfolding node_ok_def own_ok_def by blast
  show ?thesis unfolding justified_def
  proof (intro allI impI)
    fix r w assume a: "(x, Precommit, r, w) \<in> G" "w \<noteq> NIL" "r < rn_round s"
    with locked(5) have "r \<le> lr" by blast
    with a lt once locked(2,4) v show "w = v \<or> (\<exists>r''. r \<le> r'' \<and> r'' < rn_round s \<and> polc vs H G r'' v)"
      by auto
  qed
qed

lemma justified_polc:
  assumes ok: "node_ok vs H C oracle G x s" and w: "w < rn_round s" "polc vs H G w v"
    and lock: "rn_locked_round s \<le> uint w"
  shows "justified vs H G x (rn_round s) v"
  using ok
proof (cases rule: lock_cases)
  case unlocked
  then show ?thesis unfolding justified_def by blast
next
  case (locked lr lv)
  with lock have "lr \<le> w" by (simp add: word_le_def)
  with locked(5) w show ?thesis unfolding justified_def by (blast intro: order.trans)
qed

text \<open>
  One machine between two deliveries: the log it started from together with what it has signed since,
  and every decision it announced backed by a quorum of precommits.
\<close>

definition walks :: "iter_order \<Rightarrow> bool" where
  "walks ord = (\<forall>l. set (ord l) = set l)"

definition decisions_ok :: "ValidatorSet \<Rightarrow> bytes set \<Rightarrow> entry set \<Rightarrow> Action list \<Rightarrow> bool" where
  "decisions_ok vs H G acts =
     (\<forall>qc. Decided qc \<in> set acts \<longrightarrow>
        qc_block_hash qc \<noteq> NIL \<and> commit vs H G (qc_round qc) (qc_block_hash qc))"

definition agree_inv ::
  "iter_order \<Rightarrow> ValidatorSet \<Rightarrow> bytes set \<Rightarrow> crypto \<Rightarrow> kel_oracle \<Rightarrow> entry set \<Rightarrow> bytes \<Rightarrow> Round \<Rightarrow> Action list \<Rightarrow> bool" where
  "agree_inv ord vs H C oracle G x s acts =
     (walks ord \<and> node_ok vs H C oracle (G \<union> signed_by x acts) x s
      \<and> decisions_ok vs H (G \<union> signed_by x acts) acts)"

lemma agree_invI:
  assumes "agree_inv ord vs H C oracle G x s acts"
    and "node_ok vs H C oracle (G \<union> signed_by x acts) x s
      \<Longrightarrow> node_ok vs H C oracle (G \<union> signed_by x acts \<union> signed_by x a) x s'"
    and "node_ok vs H C oracle (G \<union> signed_by x acts) x s
      \<Longrightarrow> decisions_ok vs H (G \<union> signed_by x acts \<union> signed_by x a) a"
  shows "agree_inv ord vs H C oracle G x s' (acts @ a)"
  using assms commit_mono [of vs H "G \<union> signed_by x acts" _ _ "G \<union> signed_by x acts \<union> signed_by x a"]
  unfolding agree_inv_def decisions_ok_def by (auto simp: Un_assoc)

lemma no_decision [simp]:
  "decisions_ok vs H G []" "decisions_ok vs H G [SignPrevote r t]" "decisions_ok vs H G [SignPrecommit r t]"
  "decisions_ok vs H G [ScheduleTimeout st r]" "decisions_ok vs H G [Propose r u vr]"
  "decisions_ok vs H G [Equivocation ev]"
  by (simp_all add: decisions_ok_def)

lemma proposal_ok:
  "node_ok vs H C oracle G x s \<Longrightarrow> map_of (rn_proposals s) r = Some p \<Longrightarrow> pi_id p \<noteq> NIL \<and> pi_valid_round p < 2 ^ 32"
  unfolding node_ok_def proposals_ok_def by (auto dest: map_of_SomeD)

lemma fresh_node_ok:
  assumes ok: "node_ok vs H C oracle G x s" and r: "rule_propose_fresh s = (s', a)"
  shows "node_ok vs H C oracle (G \<union> signed_by x a) x s'"
  using r
proof (cases rule: propose_fresh_cases)
  case (vote p target)
  have "target = NIL \<or> justified vs H G x (rn_round s) target"
    using vote(5) justified_unlocked [OF ok] justified_same_lock [OF ok vote(1)] by auto
  from node_ok_prevote [OF ok vote(1) this] vote(6,7) show ?thesis by simp
qed (simp add: ok)

lemma polc_node_ok:
  assumes ok: "node_ok vs H C oracle G x s" and r: "rule_propose_polc s = (s', a)"
  shows "node_ok vs H C oracle (G \<union> signed_by x a) x s'"
  using r
proof (cases rule: propose_polc_cases)
  case (vote p target)
  let ?w = "word_of_int (pi_valid_round p) :: u32"
  have w: "uint ?w = pi_valid_round p"
    using vote(4) proposal_ok [OF ok vote(3)] by (simp add: uint_word_of_int take_bit_int_eq_self)
  have "polc vs H G ?w (pi_id p)" by (rule counted_polc [OF ok vote(6)])
  then have "target = NIL \<or> justified vs H G x (rn_round s) target"
    using vote(5,7) justified_polc [OF ok vote(5)] justified_same_lock [OF ok vote(1)] by (auto simp: w)
  from node_ok_prevote [OF ok vote(1) this] vote(8,9) show ?thesis by simp
qed (simp add: ok)

lemma quorum_node_ok:
  assumes ok: "node_ok vs H C oracle G x s" and r: "rule_prevote_quorum s = (s', a)"
  shows "node_ok vs H C oracle (G \<union> signed_by x a) x s'"
proof -
  have st: "started s'" using honest.prevote_quorum [of s "[]" s' a] r ok
    by (simp add: node_ok_def honest_votes_def)
  show ?thesis using r
  proof (cases rule: prevote_quorum_cases)
    case (seen p)
    with node_ok_frame [OF ok same_inputs_rules(7) [OF r] st] show ?thesis by simp
  next
    case (lock p)
    have "node_ok vs H C oracle (insert (x, Precommit, rn_round s, pi_id p) G) x s'"
      by (rule node_ok_precommit [OF ok lock(1) _ same_inputs_rules(7) [OF r] st])
         (use lock counted_polc [OF ok lock(5)] proposal_ok [OF ok lock(3)] in \<open>simp_all add: mark_precommit_def\<close>)
    with lock(7) show ?thesis by simp
  qed (simp add: ok)
qed

lemma nil_node_ok:
  assumes ok: "node_ok vs H C oracle G x s" and st: "rn_step s = Prevote_step"
  shows "node_ok vs H C oracle (insert (x, Precommit, rn_round s, NIL) G) x (mark_precommit s (rn_round s))"
  by (rule node_ok_precommit [OF ok st])
     (use ok st started_mark(2) in \<open>simp_all add: node_ok_def\<close>, simp_all add: mark_precommit_def)

lemma decide_agree:
  assumes "agree_inv ord vs H C oracle G x s acts" and r: "rule_decide ord s = (s', a)"
  shows "agree_inv ord vs H C oracle G x s' (acts @ a)"
  using r
proof (cases rule: decide_cases)
  case (decide rd p)
  show ?thesis
  proof (rule agree_invI [OF assms(1)])
    let ?G = "G \<union> signed_by x acts"
    assume ok: "node_ok vs H C oracle ?G x s"
    have "node_ok vs H C oracle ?G x s'"
      by (rule node_ok_frame [OF ok same_inputs_rules(6) [OF r]]) (use decide ok in \<open>simp_all add: node_ok_def started_def\<close>)
    with decide(4) show "node_ok vs H C oracle (?G \<union> signed_by x a) x s'" by simp
    have "(rd, p) \<in> set (rn_proposals s)" using decide(1) assms(1) by (auto simp: agree_inv_def walks_def)
    then have "pi_id p \<noteq> NIL" using ok by (auto simp: node_ok_def proposals_ok_def)
    with decide(2,4) counted_commit [OF ok] show "decisions_ok vs H (?G \<union> signed_by x a) a"
      by (simp add: decisions_ok_def decidable_def)
  qed
qed (simp add: assms)

lemma enter_agree:
  assumes inv: "agree_inv ord vs H C oracle G x s acts" and "rn_round s < rd" and r: "enter_round_core s rd = (s', a)"
  shows "agree_inv ord vs H C oracle G x s' (acts @ a)"
proof (cases "rn_decided s \<or> rd \<in> rn_started s")
  case True
  with r enter_old inv show ?thesis by simp
next
  case False
  note new = enter_new [OF _ _ r]
  have a: "signed_by x a = {}" "decisions_ok vs H G' a" for G'
    using r False by (auto simp: enter_round_core_def Let_def split: if_splits option.splits)
  show ?thesis
  proof (rule agree_invI [OF inv])
    assume ok: "node_ok vs H C oracle (G \<union> signed_by x acts) x s"
    have "started s'" using enter_honest [of s "[]" rd s' a] assms(2) r ok by (simp add: node_ok_def honest_votes_def)
    from node_ok_frame [OF ok same_inputs_enter [OF r] this] new(1) False
    show "node_ok vs H C oracle (G \<union> signed_by x acts \<union> signed_by x a) x s'" by (simp add: a)
  qed (simp add: a)
qed

lemma timer_agree:
  assumes inv: "agree_inv ord vs H C oracle G x s acts"
    and r: "rule_prevote_timeout s = (s', a) \<or> rule_precommit_timeout s = (s', a)"
  shows "agree_inv ord vs H C oracle G x s' (acts @ a)"
proof (rule agree_invI [OF inv])
  assume ok: "node_ok vs H C oracle (G \<union> signed_by x acts) x s"
  have "started s'"
    using honest.prevote_timeout [of s "[]" s' a] honest.precommit_timeout [of s "[]" s' a] r ok
    by (auto simp: node_ok_def honest_votes_def)
  moreover have "same_inputs s s'" using r same_inputs_rules(3,5) by blast
  ultimately have "node_ok vs H C oracle (G \<union> signed_by x acts) x s'"
    using r by (intro node_ok_frame [OF ok])
      (auto simp: rule_prevote_timeout_def rule_precommit_timeout_def Let_def split: if_splits)
  moreover have "signed_by x a = {}"
    using r by (auto simp: rule_prevote_timeout_def rule_precommit_timeout_def Let_def split: if_splits)
  ultimately show "node_ok vs H C oracle (G \<union> signed_by x acts \<union> signed_by x a) x s'" by simp
qed (use r in \<open>auto simp: rule_prevote_timeout_def rule_precommit_timeout_def Let_def split: if_splits\<close>)

lemma rule_no_decision:
  "rule_propose_fresh s = (s', a) \<Longrightarrow> decisions_ok vs H G a"
  "rule_propose_polc s = (s', a) \<Longrightarrow> decisions_ok vs H G a"
  "rule_prevote_quorum s = (s', a) \<Longrightarrow> decisions_ok vs H G a"
  "rule_prevote_nil s = (s', a) \<Longrightarrow> decisions_ok vs H G a"
  by (erule propose_fresh_cases, simp_all, erule propose_polc_cases, simp_all, erule prevote_quorum_cases,
      simp_all, erule prevote_nil_cases, simp_all)

interpretation agree: rule_invariant ord "agree_inv ord vs H C oracle G x"
  for ord :: iter_order and vs :: ValidatorSet and H :: "bytes set" and C :: crypto and "oracle" :: kel_oracle
    and G :: "entry set" and x :: bytes
proof unfold_locales
  fix s s' acts a rd
  assume inv: "agree_inv ord vs H C oracle G x s acts"
  show "rule_propose_fresh s = (s', a) \<Longrightarrow> agree_inv ord vs H C oracle G x s' (acts @ a)"
    by (rule agree_invI [OF inv]) (erule (1) fresh_node_ok, erule rule_no_decision(1))
  show "rule_propose_polc s = (s', a) \<Longrightarrow> agree_inv ord vs H C oracle G x s' (acts @ a)"
    by (rule agree_invI [OF inv]) (erule (1) polc_node_ok, erule rule_no_decision(2))
  show "rule_prevote_quorum s = (s', a) \<Longrightarrow> agree_inv ord vs H C oracle G x s' (acts @ a)"
    by (rule agree_invI [OF inv]) (erule (1) quorum_node_ok, erule rule_no_decision(3))
  show "rule_prevote_nil s = (s', a) \<Longrightarrow> agree_inv ord vs H C oracle G x s' (acts @ a)"
    by (rule agree_invI [OF inv]) (auto elim!: prevote_nil_cases intro: nil_node_ok)
  show "rule_prevote_timeout s = (s', a) \<Longrightarrow> agree_inv ord vs H C oracle G x s' (acts @ a)"
    using timer_agree [OF inv] by blast
  show "rule_precommit_timeout s = (s', a) \<Longrightarrow> agree_inv ord vs H C oracle G x s' (acts @ a)"
    using timer_agree [OF inv] by blast
  show "rule_decide ord s = (s', a) \<Longrightarrow> agree_inv ord vs H C oracle G x s' (acts @ a)"
    by (rule decide_agree [OF inv])
  show "rn_round s < rd \<Longrightarrow> enter_round_core s rd = (s', a) \<Longrightarrow> agree_inv ord vs H C oracle G x s' (acts @ a)"
    by (rule enter_agree [OF inv])
qed

section \<open>The system\<close>

text \<open>
  What the network can hand to a machine, given the log: any proposal, any timer, and any vote, except
  that a vote which verifies as an honest validator's at this height was signed by it.
\<close>

fun deliverable :: "bytes set \<Rightarrow> crypto \<Rightarrow> kel_oracle \<Rightarrow> u64 \<Rightarrow> entry set \<Rightarrow> Event \<Rightarrow> bool" where
  "deliverable H C oracle h G (VoteReceived v) =
     (v_height v = h \<and> oracle_vote_ok C oracle v \<and> did_scid (v_root v) \<in> H
        \<longrightarrow> (did_scid (v_root v), v_kind v, v_round v, v_block_hash v) \<in> G)"
| "deliverable H C oracle h G (ProposalReceived rd bid vr valid) = True"
| "deliverable H C oracle h G (TimerFired st rd) = True"

text \<open>The block identifier and valid round of a proposal, and what agreement asks of them.\<close>

fun proposed_in :: "Event \<Rightarrow> (bytes \<times> int) set" where
  "proposed_in (ProposalReceived rd bid vr valid) = {(bid, vr)}"
| "proposed_in (VoteReceived v) = {}"
| "proposed_in (TimerFired st rd) = {}"

definition proposals_bounded :: "(bytes \<times> int) set \<Rightarrow> bool" where
  "proposals_bounded ps = (\<forall>(bid, vr) \<in> ps. bid \<noteq> NIL \<and> vr < 2 ^ 32)"

lemma proposals_bounded_Un [simp]: "proposals_bounded (P \<union> Q) \<longleftrightarrow> proposals_bounded P \<and> proposals_bounded Q"
  by (auto simp: proposals_bounded_def)

definition height_inv ::
  "u64 \<Rightarrow> iter_order \<Rightarrow> ValidatorSet \<Rightarrow> bytes set \<Rightarrow> crypto \<Rightarrow> kel_oracle \<Rightarrow> entry set \<Rightarrow> bytes \<Rightarrow> Round \<Rightarrow> Action list \<Rightarrow> bool" where
  "height_inv h ord vs H C oracle G x s acts = (rn_height s = h \<and> agree_inv ord vs H C oracle G x s acts)"

lemma set_update_subset: "set (AList.update k v m) \<subseteq> insert (k, v) (set m)"
  by (induction m) auto

lemma heard_ok_put:
  assumes "heard_ok H G s" "\<And>k y v. map_of (by_root k t) y = Some v \<Longrightarrow> y \<in> H \<Longrightarrow> (y, k, rd, v_block_hash v) \<in> G"
  shows "heard_ok H G (put_tally s rd t)"
  using assms unfolding heard_ok_def by simp

lemma node_ok_put:
  assumes "node_ok vs H C oracle G x s" "tally_ok C oracle s rd t"
    "\<And>k y v. map_of (by_root k t) y = Some v \<Longrightarrow> y \<in> H \<Longrightarrow> (y, k, rd, v_block_hash v) \<in> G"
  shows "node_ok vs H C oracle G x (put_tally s rd t)"
  using assms heard_ok_put [of H G s t rd] tallies_ok_put
  by (simp add: node_ok_def own_ok_def lock_ok_def proposals_ok_def started_def)

lemma agree_put:
  assumes "agree_inv ord vs H C oracle G x s acts" "tally_ok C oracle s rd t"
    "\<And>k y v. map_of (by_root k t) y = Some v \<Longrightarrow> y \<in> H \<Longrightarrow> (y, k, rd, v_block_hash v) \<in> G \<union> signed_by x acts"
  shows "agree_inv ord vs H C oracle G x (put_tally s rd t) acts"
  using assms node_ok_put [of vs H C "oracle" "G \<union> signed_by x acts" x s rd t] by (simp add: agree_inv_def)

lemma agree_tally:
  assumes "agree_inv ord vs H C oracle G x s acts"
  shows "tallies_ok C oracle s"
    "map_of (by_root k (tally_at s rd)) y = Some v \<Longrightarrow> y \<in> H \<Longrightarrow> (y, k, rd, v_block_hash v) \<in> G \<union> signed_by x acts"
  using assms unfolding agree_inv_def node_ok_def heard_ok_def by blast+

lemma agree_propose:
  assumes inv: "agree_inv ord vs H C oracle G x s acts" and "bid \<noteq> NIL" "vr < 2 ^ 32"
  shows "agree_inv ord vs H C oracle G x (s\<lparr>rn_proposals := AList.update rd
      \<lparr>pi_id = bid, pi_valid_round = vr, pi_valid = valid\<rparr> (rn_proposals s)\<rparr>) acts" (is "agree_inv _ _ _ _ _ _ _ ?s _")
proof -
  have "proposals_ok ?s"
    using inv assms(2,3) set_update_subset [of rd "\<lparr>pi_id = bid, pi_valid_round = vr, pi_valid = valid\<rparr>" "rn_proposals s"]
    unfolding agree_inv_def node_ok_def proposals_ok_def by auto
  then show ?thesis using inv tallies_ok_cong [of ?s s C "oracle"] heard_ok_votes [of ?s s]
    by (simp add: agree_inv_def node_ok_def own_ok_def lock_ok_def started_def)
qed

lemma rule_invariant_conj:
  assumes P: "rule_invariant ord P" and Q: "rule_invariant ord Q"
  shows "rule_invariant ord (\<lambda>s acts. P s acts \<and> Q s acts)"
proof
  fix s s' acts a rd
  assume inv: "P s acts \<and> Q s acts"
  note p = inv [THEN conjunct1] and q = inv [THEN conjunct2]
  show "rule_propose_fresh s = (s', a) \<Longrightarrow> P s' (acts @ a) \<and> Q s' (acts @ a)"
    using rule_invariant.fresh [OF P p] rule_invariant.fresh [OF Q q] by blast
  show "rule_propose_polc s = (s', a) \<Longrightarrow> P s' (acts @ a) \<and> Q s' (acts @ a)"
    using rule_invariant.polc [OF P p] rule_invariant.polc [OF Q q] by blast
  show "rule_prevote_timeout s = (s', a) \<Longrightarrow> P s' (acts @ a) \<and> Q s' (acts @ a)"
    using rule_invariant.prevote_timeout [OF P p] rule_invariant.prevote_timeout [OF Q q] by blast
  show "rule_prevote_quorum s = (s', a) \<Longrightarrow> P s' (acts @ a) \<and> Q s' (acts @ a)"
    using rule_invariant.prevote_quorum [OF P p] rule_invariant.prevote_quorum [OF Q q] by blast
  show "rule_prevote_nil s = (s', a) \<Longrightarrow> P s' (acts @ a) \<and> Q s' (acts @ a)"
    using rule_invariant.prevote_nil [OF P p] rule_invariant.prevote_nil [OF Q q] by blast
  show "rule_precommit_timeout s = (s', a) \<Longrightarrow> P s' (acts @ a) \<and> Q s' (acts @ a)"
    using rule_invariant.precommit_timeout [OF P p] rule_invariant.precommit_timeout [OF Q q] by blast
  show "rule_decide ord s = (s', a) \<Longrightarrow> P s' (acts @ a) \<and> Q s' (acts @ a)"
    using rule_invariant.decide [OF P p] rule_invariant.decide [OF Q q] by blast
  show "rn_round s < rd \<Longrightarrow> enter_round_core s rd = (s', a) \<Longrightarrow> P s' (acts @ a) \<and> Q s' (acts @ a)"
    using rule_invariant.enter [OF P p] rule_invariant.enter [OF Q q] by blast
qed

lemma height_invariant: "rule_invariant ord (\<lambda>s _. rn_height s = h)"
proof
  fix s s' :: Round and a rd
  assume h: "rn_height s = h"
  have "same_inputs s s' \<Longrightarrow> rn_height s' = h" using h by (simp add: same_inputs_def)
  then show "rule_propose_fresh s = (s', a) \<Longrightarrow> rn_height s' = h" "rule_propose_polc s = (s', a) \<Longrightarrow> rn_height s' = h"
    "rule_prevote_timeout s = (s', a) \<Longrightarrow> rn_height s' = h" "rule_prevote_quorum s = (s', a) \<Longrightarrow> rn_height s' = h"
    "rule_prevote_nil s = (s', a) \<Longrightarrow> rn_height s' = h" "rule_precommit_timeout s = (s', a) \<Longrightarrow> rn_height s' = h"
    "rule_decide ord s = (s', a) \<Longrightarrow> rn_height s' = h" "enter_round_core s rd = (s', a) \<Longrightarrow> rn_height s' = h"
    by (blast intro: same_inputs_rules same_inputs_enter)+
qed

interpretation net: handler_invariant ord "height_inv h ord vs H C oracle G x" C "oracle"
    "\<lambda>e. deliverable H C oracle h G e \<and> proposals_bounded (proposed_in e)"
  for ord :: iter_order and h :: u64 and vs :: ValidatorSet and H :: "bytes set" and C :: crypto
    and "oracle" :: kel_oracle and G :: "entry set" and x :: bytes
proof (intro handler_invariant.intro handler_invariant_axioms.intro)
  show "rule_invariant ord (height_inv h ord vs H C oracle G x)"
    unfolding height_inv_def
    by (rule rule_invariant_conj [OF height_invariant agree.rule_invariant_axioms])
  fix s acts vote and prior :: Vote
  assume "height_inv h ord vs H C oracle G x s acts"
  then have h: "rn_height s = h" and inv: "agree_inv ord vs H C oracle G x s acts"
    by (simp_all add: height_inv_def)
  have ok: "node_ok vs H C oracle (G \<union> signed_by x acts) x s" using inv by (simp add: agree_inv_def)
  show "0 \<in> rn_started s" using ok by (simp add: node_ok_def started_def)
  show "height_inv h ord vs H C oracle G x (s\<lparr>rn_proposals := AList.update rd
      \<lparr>pi_id = bid, pi_valid_round = vr, pi_valid = valid\<rparr> (rn_proposals s)\<rparr>) acts"
    if "deliverable H C oracle h G (ProposalReceived rd bid vr valid)
      \<and> proposals_bounded (proposed_in (ProposalReceived rd bid vr valid))" for rd bid vr valid
    using agree_propose [OF inv] that h by (simp add: height_inv_def proposals_bounded_def)
  show "height_inv h ord vs H C oracle G x (mark_prevote s (rn_round s)) (acts @ [SignPrevote (rn_round s) NIL])"
    if "rn_step s = Propose_step"
    using agree_invI [OF inv, of "[SignPrevote (rn_round s) NIL]"] node_ok_prevote [OF ok that, of NIL] h
    by (simp add: height_inv_def mark_prevote_def)
  show "height_inv h ord vs H C oracle G x (mark_precommit s (rn_round s)) (acts @ [SignPrecommit (rn_round s) NIL])"
    if "rn_step s = Prevote_step"
    using agree_invI [OF inv, of "[SignPrecommit (rn_round s) NIL]"] nil_node_ok [OF ok that] h
    by (simp add: height_inv_def mark_precommit_def)
  show "height_inv h ord vs H C oracle G x s (acts @ [Equivocation \<lparr>ee_first = prior, ee_second = vote\<rparr>])"
    using inv h by (simp add: height_inv_def agree_inv_def decisions_ok_def)
  assume acc: "accept_vote C oracle s vote"
  have j: "tally_ok C oracle s (v_round vote) (joined s vote)" by (rule tally_ok_joined [OF agree_tally(1) [OF inv] acc])
  show "height_inv h ord vs H C oracle G x (put_tally s (v_round vote) (joined s vote)) acts"
    unfolding height_inv_def
    by (intro conjI agree_put [OF inv j]) (use h agree_tally(2) [OF inv] in \<open>simp_all\<close>)
  show "height_inv h ord vs H C oracle G x (put_tally s (v_round vote) (file_vote (joined s vote) vote)) acts"
    if d: "deliverable H C oracle h G (VoteReceived vote) \<and> proposals_bounded (proposed_in (VoteReceived vote))"
      and n: "map_of (by_root (v_kind vote) (joined s vote)) (did_scid (v_root vote)) = None"
    unfolding height_inv_def
  proof (intro conjI agree_put [OF inv tally_ok_file [OF j acc n]])
    fix k y v assume "map_of (by_root k (file_vote (joined s vote) vote)) y = Some v" "y \<in> H"
    then show "(y, k, v_round vote, v_block_hash v) \<in> G \<union> signed_by x acts"
      using d acc h agree_tally(2) [OF inv, of k "v_round vote" y v]
      by (auto simp: file_vote_by_root accept_vote_verified split: if_splits)
  qed (simp add: h)
qed

text \<open>
  A network of honest validators, each with its own root, key event logs and map iteration order, and
  the states it can reach. One step delivers one event to one of them.
\<close>

record Network =
  nw_vs :: ValidatorSet
  nw_honest :: "bytes set"
  nw_height :: u64
  nw_root :: "bytes \<Rightarrow> Did"
  nw_oracle :: "bytes \<Rightarrow> kel_oracle"
  nw_ord :: "bytes \<Rightarrow> iter_order"

record System =
  sy_nodes :: "bytes \<Rightarrow> Round"
  sy_log :: "entry set"
  sy_decided :: "(bytes \<times> QuorumCertificate) set"
  sy_proposed :: "(bytes \<times> int) set"

definition boot :: "Network \<Rightarrow> bytes \<Rightarrow> Round \<times> Action list" where
  "boot N x = round_start (nw_ord N x) (round_new (nw_height N) (nw_vs N) (nw_root N x))"

definition decided_in :: "bytes \<Rightarrow> Action list \<Rightarrow> (bytes \<times> QuorumCertificate) set" where
  "decided_in x acts = {(x, qc) | qc. Decided qc \<in> set acts}"

inductive sys_reach :: "crypto \<Rightarrow> Network \<Rightarrow> System \<Rightarrow> bool" for C N where
  start: "sys_reach C N \<lparr>sy_nodes = (\<lambda>x. fst (boot N x)),
     sy_log = (\<Union>x \<in> nw_honest N. signed_by x (snd (boot N x))),
     sy_decided = (\<Union>x \<in> nw_honest N. decided_in x (snd (boot N x))), sy_proposed = {}\<rparr>"
| deliver: "sys_reach C N S \<Longrightarrow> x \<in> nw_honest N
    \<Longrightarrow> deliverable (nw_honest N) C (nw_oracle N x) (nw_height N) (sy_log S) e
    \<Longrightarrow> handle (nw_ord N x) C (nw_oracle N x) (sy_nodes S x) e = (s', a)
    \<Longrightarrow> sys_reach C N \<lparr>sy_nodes = (sy_nodes S)(x := s'), sy_log = sy_log S \<union> signed_by x a,
         sy_decided = sy_decided S \<union> decided_in x a, sy_proposed = sy_proposed S \<union> proposed_in e\<rparr>"

text \<open>At most a third of the validators are not honest.\<close>

definition network_ok :: "Network \<Rightarrow> bool" where
  "network_ok N =
     (vs_wf (nw_vs N) \<and> nw_honest N \<subseteq> scid_set (nw_vs N)
      \<and> 3 * card (scid_set (nw_vs N) - nw_honest N) \<le> card (scid_set (nw_vs N))
      \<and> (\<forall>x \<in> nw_honest N. walks (nw_ord N x)))"

definition system_ok :: "crypto \<Rightarrow> Network \<Rightarrow> System \<Rightarrow> bool" where
  "system_ok C N S =
     ((\<forall>x \<in> nw_honest N. rn_height (sy_nodes S x) = nw_height N
         \<and> node_ok (nw_vs N) (nw_honest N) C (nw_oracle N x) (sy_log S) x (sy_nodes S x))
      \<and> (\<forall>(x, qc) \<in> sy_decided S. qc_block_hash qc \<noteq> NIL
           \<and> commit (nw_vs N) (nw_honest N) (sy_log S) (qc_round qc) (qc_block_hash qc)))"

lemma signed_by_other: "(y, k, r, v) \<in> signed_by x acts \<Longrightarrow> y = x"
  by (auto simp: signed_by_def)

lemma start_agree:
  assumes "vs_wf vs" "walks ord"
  shows "height_inv h ord vs H C oracle {} x (fst (enter_round_core (round_new h vs root) 0))
    (snd (enter_round_core (round_new h vs root) 0))"
proof -
  let ?s = "fst (enter_round_core (round_new h vs root) 0)" and ?a = "snd (enter_round_core (round_new h vs root) 0)"
  have "sound_outputs C oracle h vs ?s ?a" "honest_votes ?s ?a" using start_sound [OF assms(1)] start_honest by blast+
  then have t: "tallies_ok C oracle ?s" "rn_validators ?s = vs" "rn_height ?s = h" "started ?s"
    by (simp_all add: sound_outputs_def honest_votes_def)
  have e: "rn_votes ?s = []" "rn_proposals ?s = []" "rn_locked_round ?s = -1" "signed_by x ?a = {}"
      "decisions_ok vs H {} ?a"
    by (simp_all add: enter_round_core_def round_new_def Let_def)
  have "heard_ok H {} ?s"
    by (simp add: heard_ok_def tally_at_def e RoundVotes_default_def by_root_def split: VoteKind.split)
  with t e assms show ?thesis
    by (simp add: height_inv_def agree_inv_def node_ok_def own_ok_def lock_ok_def votes_ok_def proposals_ok_def)
qed

lemma boot_agree:
  assumes "network_ok N" "x \<in> nw_honest N"
  shows "height_inv (nw_height N) (nw_ord N x) (nw_vs N) (nw_honest N) C (nw_oracle N x) {} x
    (fst (boot N x)) (snd (boot N x))"
proof -
  have "machine (nw_ord N x) C (nw_oracle N x) (nw_height N) (nw_vs N) (nw_root N x) [] = (fst (boot N x), snd (boot N x))"
    by (simp add: machine_def boot_def split_beta)
  from net.machine [OF start_agree _ this] assms show ?thesis by (simp add: network_ok_def)
qed

lemma start_system_ok:
  assumes net: "network_ok N"
  shows "system_ok C N \<lparr>sy_nodes = (\<lambda>x. fst (boot N x)),
     sy_log = (\<Union>x \<in> nw_honest N. signed_by x (snd (boot N x))),
     sy_decided = (\<Union>x \<in> nw_honest N. decided_in x (snd (boot N x))), sy_proposed = {}\<rparr>"
proof -
  let ?G = "\<Union>x \<in> nw_honest N. signed_by x (snd (boot N x))"
  have node: "rn_height (fst (boot N x)) = nw_height N
      \<and> node_ok (nw_vs N) (nw_honest N) C (nw_oracle N x) ?G x (fst (boot N x))" if x: "x \<in> nw_honest N" for x
  proof -
    from boot_agree [OF net x, of C] have h: "rn_height (fst (boot N x)) = nw_height N"
      and ok: "node_ok (nw_vs N) (nw_honest N) C (nw_oracle N x) (signed_by x (snd (boot N x))) x (fst (boot N x))"
      by (simp_all add: height_inv_def agree_inv_def)
    from node_ok_mono [OF ok, of ?G] x h show ?thesis by (auto dest: signed_by_other)
  qed
  have "qc_block_hash qc \<noteq> NIL \<and> commit (nw_vs N) (nw_honest N) ?G (qc_round qc) (qc_block_hash qc)"
    if "x \<in> nw_honest N" "Decided qc \<in> set (snd (boot N x))" for x qc
  proof -
    have "qc_block_hash qc \<noteq> NIL" and
      "commit (nw_vs N) (nw_honest N) (signed_by x (snd (boot N x))) (qc_round qc) (qc_block_hash qc)"
      using boot_agree [OF net that(1), of C] that(2) by (auto simp: height_inv_def agree_inv_def decisions_ok_def)
    moreover have "signed_by x (snd (boot N x)) \<subseteq> ?G" using that(1) by blast
    ultimately show ?thesis using commit_mono by blast
  qed
  with node show ?thesis by (auto simp: system_ok_def decided_in_def)
qed

lemma deliver_system_ok:
  assumes net: "network_ok N" and sys: "system_ok C N S" and x: "x \<in> nw_honest N"
    and d: "deliverable (nw_honest N) C (nw_oracle N x) (nw_height N) (sy_log S) e" "proposals_bounded (proposed_in e)"
    and hd: "handle (nw_ord N x) C (nw_oracle N x) (sy_nodes S x) e = (s', a)"
  shows "system_ok C N \<lparr>sy_nodes = (sy_nodes S)(x := s'), sy_log = sy_log S \<union> signed_by x a,
         sy_decided = sy_decided S \<union> decided_in x a, sy_proposed = sy_proposed S \<union> proposed_in e\<rparr>"
proof -
  let ?G = "sy_log S" and ?G' = "sy_log S \<union> signed_by x a"
  have "height_inv (nw_height N) (nw_ord N x) (nw_vs N) (nw_honest N) C (nw_oracle N x) ?G x (sy_nodes S x) []"
    using net sys x by (simp add: height_inv_def agree_inv_def system_ok_def network_ok_def)
  from net.handle [OF this conjI [OF d] hd] have h': "rn_height s' = nw_height N"
    and ok': "node_ok (nw_vs N) (nw_honest N) C (nw_oracle N x) ?G' x s'"
    and dec: "decisions_ok (nw_vs N) (nw_honest N) ?G' a"
    by (simp_all add: height_inv_def agree_inv_def)
  have other: "node_ok (nw_vs N) (nw_honest N) C (nw_oracle N y) ?G' y (sy_nodes S y)"
    if "y \<in> nw_honest N" "y \<noteq> x" for y
  proof -
    have "node_ok (nw_vs N) (nw_honest N) C (nw_oracle N y) ?G y (sy_nodes S y)"
      using sys that(1) by (simp add: system_ok_def)
    then show ?thesis by (rule node_ok_mono) (use that(2) signed_by_other in \<open>blast+\<close>)
  qed
  have old: "commit (nw_vs N) (nw_honest N) ?G' r v" if "commit (nw_vs N) (nw_honest N) ?G r v" for r v
    using that by (rule commit_mono) blast
  have "\<forall>y \<in> nw_honest N. rn_height (((sy_nodes S)(x := s')) y) = nw_height N
      \<and> node_ok (nw_vs N) (nw_honest N) C (nw_oracle N y) ?G' y (((sy_nodes S)(x := s')) y)"
    using sys h' ok' other by (simp add: system_ok_def)
  moreover have "\<forall>(y, qc) \<in> sy_decided S \<union> decided_in x a. qc_block_hash qc \<noteq> NIL
      \<and> commit (nw_vs N) (nw_honest N) ?G' (qc_round qc) (qc_block_hash qc)"
    using sys dec old by (auto simp: system_ok_def decisions_ok_def decided_in_def)
  ultimately show ?thesis by (simp add: system_ok_def)
qed

lemma reach_system_ok:
  "sys_reach C N S \<Longrightarrow> network_ok N \<Longrightarrow> proposals_bounded (sy_proposed S) \<Longrightarrow> system_ok C N S"
  by (induction rule: sys_reach.induct) (auto intro: start_system_ok deliver_system_ok)

section \<open>One value\<close>

lemma honest_common:
  assumes "network_ok N" "is_quorum (nw_vs N) Q" "is_quorum (nw_vs N) R"
  shows "\<exists>y \<in> Q \<inter> R. y \<in> nw_honest N"
proof -
  obtain y where "y \<in> Q \<inter> R" "y \<notin> scid_set (nw_vs N) - nw_honest N"
    using vs_quorum.common_outside [OF assms(2,3), of "scid_set (nw_vs N) - nw_honest N"] assms(1)
    by (auto simp: network_ok_def)
  then show ?thesis using vs_quorum.quorum_sub [OF assms(2)] by blast
qed

lemma commit_locks:
  assumes net: "network_ok N" and sys: "system_ok C N S"
    and com: "commit (nw_vs N) (nw_honest N) (sy_log S) r v" "v \<noteq> NIL"
  shows "polc (nw_vs N) (nw_honest N) (sy_log S) r' v' \<Longrightarrow> v' \<noteq> NIL \<Longrightarrow> r \<le> r' \<Longrightarrow> v' = v"
proof (induction "unat r'" arbitrary: r' rule: less_induct)
  case less
  let ?polc = "polc (nw_vs N) (nw_honest N) (sy_log S)"
  have node: "votes_ok (nw_vs N) (nw_honest N) (sy_log S) y" "own_ok (sy_log S) y (sy_nodes S y)"
    if "y \<in> nw_honest N" for y using sys that by (simp_all add: system_ok_def node_ok_def)
  obtain Q where Q: "is_quorum (nw_vs N) Q" "\<forall>y \<in> Q \<inter> nw_honest N. (y, Precommit, r, v) \<in> sy_log S"
    using com(1) by (auto simp: commit_def)
  obtain R where R: "is_quorum (nw_vs N) R" "\<forall>y \<in> R \<inter> nw_honest N. (y, Prevote, r', v') \<in> sy_log S"
    using less.prems(1) by (auto simp: polc_def)
  obtain y where y: "y \<in> Q" "y \<in> R" "y \<in> nw_honest N" using honest_common [OF net Q(1) R(1)] by blast
  show ?case
  proof (cases "r' = r")
    case True
    have "?polc r v" using node(1) [OF y(3)] Q(2) y com(2) unfolding votes_ok_def by blast
    then obtain T where T: "is_quorum (nw_vs N) T" "\<forall>y \<in> T \<inter> nw_honest N. (y, Prevote, r, v) \<in> sy_log S"
      by (auto simp: polc_def)
    obtain z where "z \<in> T" "z \<in> R" "z \<in> nw_honest N" using honest_common [OF net T(1) R(1)] by blast
    with T(2) R(2) True node(2) show ?thesis unfolding own_ok_def by blast
  next
    case False
    then have "r < r'" using less.prems(3) by simp
    moreover have "justified (nw_vs N) (nw_honest N) (sy_log S) y r' v'"
      using node(1) [OF y(3)] R(2) y less.prems(2) unfolding votes_ok_def by blast
    ultimately have "v = v' \<or> (\<exists>r''. r \<le> r'' \<and> r'' < r' \<and> ?polc r'' v')"
      using Q(2) y com(2) unfolding justified_def by blast
    then show ?thesis using less.hyps less.prems(2) by (auto simp: word_less_nat_alt)
  qed
qed

lemma commit_polc:
  assumes net: "network_ok N" and sys: "system_ok C N S"
    and com: "commit (nw_vs N) (nw_honest N) (sy_log S) r v" "v \<noteq> NIL"
  shows "polc (nw_vs N) (nw_honest N) (sy_log S) r v"
proof -
  obtain Q where Q: "is_quorum (nw_vs N) Q" "\<forall>y \<in> Q \<inter> nw_honest N. (y, Precommit, r, v) \<in> sy_log S"
    using com(1) by (auto simp: commit_def)
  obtain y where "y \<in> Q" "y \<in> nw_honest N" using honest_common [OF net Q(1) Q(1)] by blast
  with Q(2) sys com(2) show ?thesis unfolding system_ok_def node_ok_def votes_ok_def by blast
qed

lemma decisions_agree:
  assumes "network_ok N" and "sys_reach C N S" and "proposals_bounded (sy_proposed S)"
    and "(x, qc) \<in> sy_decided S" and "(y, qc') \<in> sy_decided S"
  shows "qc_block_hash qc = qc_block_hash qc'"
proof -
  have sys: "system_ok C N S" using reach_system_ok assms(1-3) by blast
  let ?com = "commit (nw_vs N) (nw_honest N) (sy_log S)"
  have c: "?com (qc_round qc) (qc_block_hash qc)" "qc_block_hash qc \<noteq> NIL"
      "?com (qc_round qc') (qc_block_hash qc')" "qc_block_hash qc' \<noteq> NIL"
    using sys assms(4,5) by (auto simp: system_ok_def)
  note pol = commit_polc [OF assms(1) sys]
  show ?thesis
  proof (cases "qc_round qc \<le> qc_round qc'")
    case True
    then show ?thesis using commit_locks [OF assms(1) sys c(1,2) pol [OF c(3,4)] c(4)] by simp
  next
    case False
    then show ?thesis using commit_locks [OF assms(1) sys c(3,4) pol [OF c(1,2)] c(2)] by simp
  qed
qed

section \<open>Properties\<close>

text \<open>
  Property (C2): agreement. Take any state the network of honest machines can reach, with at most a
  third of the validators faulty, in which no delivered proposal carried the nil identifier or a valid
  round of \<open>2 ^ 32\<close> or more. Then all decisions at the height carry the same block, in whatever rounds
  they were taken. The adversary may otherwise send any proposals, any votes of the faulty validators,
  deliver, repeat, reorder and drop honest votes, and fire the timers at any time. The code does not
  enforce the bound on the valid round: see the property on its truncation below.
\<close>

theorem agreement:
  assumes "network_ok N" and "sys_reach C N S" and "proposals_bounded (sy_proposed S)"
    and "(x, qc) \<in> sy_decided S" and "(y, qc') \<in> sy_decided S"
  shows "qc_block_hash qc = qc_block_hash qc'"
  by (rule decisions_agree [OF assms])

text \<open>A network with one validator, which decides.\<close>

definition demo_scid :: bytes where "demo_scid = did_scid (ctrl_did demo_root)"

definition demo_network :: Network where
  "demo_network = \<lparr>nw_vs = demo_vs, nw_honest = {demo_scid}, nw_height = 1, nw_root = (\<lambda>_. ctrl_did demo_root),
     nw_oracle = (\<lambda>_. demo_oracle), nw_ord = (\<lambda>_ l. l)\<rparr>"

fun demo_state :: "nat \<Rightarrow> Round \<times> Action list" where
  "demo_state 0 = boot demo_network demo_scid"
| "demo_state (Suc n) = handle (\<lambda>l. l) toy_crypto demo_oracle (fst (demo_state n)) (demo_events ! n)"

lemma demo_event_at:
  "demo_events ! 0 = ProposalReceived 0 demo_block (-1) True"
  "demo_events ! Suc 0 = VoteReceived (demo_vote Prevote 1 0 demo_block)"
  "demo_events ! Suc (Suc 0) = VoteReceived (demo_vote Precommit 1 0 demo_block)"
  by (simp_all add: demo_events_def)

lemma demo_actions:
  "snd (demo_state (Suc 0)) = [SignPrevote 0 demo_block]"
  "snd (demo_state (Suc (Suc 0))) = [ScheduleTimeout Prevote_step 0, SignPrecommit 0 demo_block]"
  "snd (demo_state (Suc (Suc (Suc 0)))) = [ScheduleTimeout Precommit_step 0, Decided (demo_qc demo_block)]"
  unfolding demo_state.simps demo_event_at boot_def demo_network_def
  by (simp_all add: round_eval eval_loop_unfold demo_vs_def demo_accepts [unfolded demo_vs_def] demo_vote_ok demo_qc_def)

lemma demo_reach:
  "\<exists>S. sys_reach toy_crypto demo_network S \<and> sy_proposed S = {(demo_block, -1)}
     \<and> (demo_scid, demo_qc demo_block) \<in> sy_decided S"
proof -
  have step: "\<exists>S'. sys_reach toy_crypto demo_network S' \<and> sy_nodes S' demo_scid = fst (demo_state (Suc n))
      \<and> sy_log S' = sy_log S \<union> signed_by demo_scid (snd (demo_state (Suc n)))
      \<and> sy_decided S' = sy_decided S \<union> decided_in demo_scid (snd (demo_state (Suc n)))
      \<and> sy_proposed S' = sy_proposed S \<union> proposed_in (demo_events ! n)"
    if "sys_reach toy_crypto demo_network S" "sy_nodes S demo_scid = fst (demo_state n)"
      "deliverable {demo_scid} toy_crypto demo_oracle 1 (sy_log S) (demo_events ! n)" for S n
    using sys_reach.deliver [OF that(1), of demo_scid "demo_events ! n" "fst (demo_state (Suc n))" "snd (demo_state (Suc n))"]
      that(2,3) by (force simp: demo_network_def)
  obtain S0 where S0: "sys_reach toy_crypto demo_network S0" "sy_nodes S0 demo_scid = fst (demo_state 0)" "sy_proposed S0 = {}"
    using sys_reach.start [of toy_crypto demo_network] by force
  obtain S1 where S1: "sys_reach toy_crypto demo_network S1" "sy_nodes S1 demo_scid = fst (demo_state (Suc 0))"
      "(demo_scid, Prevote, 0, demo_block) \<in> sy_log S1" "sy_proposed S1 = {(demo_block, -1)}"
    using step [OF S0(1,2)] S0(3) demo_actions(1) by (auto simp: demo_events_def demo_block_def NIL_def signed_by_def)
  obtain S2 where S2: "sys_reach toy_crypto demo_network S2" "sy_nodes S2 demo_scid = fst (demo_state (Suc (Suc 0)))"
      "(demo_scid, Precommit, 0, demo_block) \<in> sy_log S2" "sy_proposed S2 = {(demo_block, -1)}"
    using step [OF S1(1,2)] S1(3,4) demo_actions(2)
    by (auto simp: demo_events_def demo_vote_ok demo_scid_def signed_by_def)
  show ?thesis
    using step [OF S2(1,2)] S2(3,4) demo_actions(3)
    by (auto simp: demo_events_def demo_vote_ok demo_scid_def decided_in_def)
qed

lemma demo_network_ok: "network_ok demo_network"
  by (simp add: network_ok_def demo_network_def demo_vs_wf demo_scid_def scid_set_def walks_def)
     (simp add: demo_vs_def)

lemma demo_proposal_bounded: "proposals_bounded {(demo_block, -1)}"
  by (simp add: proposals_bounded_def demo_block_def NIL_def)

theorem agreement_witness:
  "\<exists>S. network_ok demo_network \<and> sys_reach toy_crypto demo_network S \<and> proposals_bounded (sy_proposed S)
     \<and> (demo_scid, demo_qc demo_block) \<in> sy_decided S
     \<and> (\<forall>y qc. (y, qc) \<in> sy_decided S \<longrightarrow> qc_block_hash qc = demo_block)"
proof -
  note net = demo_network_ok
  obtain S where S: "sys_reach toy_crypto demo_network S" "proposals_bounded (sy_proposed S)"
      "(demo_scid, demo_qc demo_block) \<in> sy_decided S"
    using demo_reach demo_proposal_bounded by metis
  have "qc_block_hash qc = demo_block" if "(y, qc) \<in> sy_decided S" for y qc
    using agreement [OF net S(1,2) that S(3)] by (simp add: demo_qc_def)
  with net S show ?thesis by blast
qed

text \<open>
  Property (C40): where the bound on the valid round matters. The proof-of-lock-change rule compares
  the proposal's valid round with the current round after cutting it to 32 bits, but with the lock
  before cutting it: with a valid round of two to the 32 plus \<open>k\<close> an old quorum of prevotes in round
  \<open>k\<close> makes a machine locked on another block in any later round prevote the proposed block.
\<close>

theorem valid_round_truncation:
  assumes "rn_step s = Propose_step" "rn_round s \<notin> rn_prevoted s"
    and "map_of (rn_proposals s) (rn_round s) = Some p" "pi_valid p"
    and "pi_valid_round p = 2 ^ 32 + uint k" "k < rn_round s"
    and "rn_quorum s \<le> tally s k (\<lambda>t. prevote_count t (pi_id p))"
    and "rn_locked_round s = uint lr" "k < lr" "rn_locked_value s = Some other" "other \<noteq> pi_id p"
  shows "rule_propose_polc s = (mark_prevote s (rn_round s), [SignPrevote (rn_round s) (pi_id p)])"
proof -
  have k: "word_of_int (pi_valid_round p) = k" using assms(5) by simp
  have "uint lr < 4294967296" using unsigned_less [of lr, where ?'a = int] by simp
  then have "uint lr \<le> 4294967296 + uint k" "0 \<le> 4294967296 + uint k" using uint_ge_0 [of k] by linarith+
  then have "rn_locked_round s \<le> pi_valid_round p" "0 \<le> pi_valid_round p" using assms(5,8) by simp_all
  with assms(1-4,6,7) show ?thesis by (simp add: rule_propose_polc_def Let_def k)
qed

definition demo_locked :: Round where
  "demo_locked = (round_new 1 demo_vs (ctrl_did demo_root))
     \<lparr>rn_round := 3, rn_locked_round := 2, rn_locked_value := Some [1],
      rn_proposals := [(3, \<lparr>pi_id = [2], pi_valid_round = 2 ^ 32, pi_valid = True\<rparr>)],
      rn_votes := [(0, RoundVotes_default\<lparr>rv_prevotes := [([2], {demo_scid})]\<rparr>)]\<rparr>"

theorem valid_round_truncation_witness:
  "rn_locked_round demo_locked = 2 \<and> rn_locked_value demo_locked = Some [1]
   \<and> snd (rule_propose_polc demo_locked) = [SignPrevote 3 [2]]"
proof -
  have "rule_propose_polc demo_locked = (mark_prevote demo_locked (rn_round demo_locked),
      [SignPrevote (rn_round demo_locked) (pi_id \<lparr>pi_id = [2], pi_valid_round = 2 ^ 32, pi_valid = True\<rparr>)])"
    by (rule valid_round_truncation [where k = 0 and lr = 2 and other = "[1]"])
       (simp_all add: demo_locked_def round_new_def tally_def rn_quorum_def quorum_threshold_def demo_vs_def prevote_count_def)
  then show ?thesis by (simp add: demo_locked_def)
qed

end
