(* ===== verification/Checked.thy ===== *)
theory Checked
  imports Prelude
begin

text \<open>
  Checked and saturating machine arithmetic as the economic crates use it, sums that fail on
  overflow, and the prefix-free encodings their commitments hash.
\<close>

section \<open>Checked arithmetic\<close>

definition checked_add :: "'a::len word \<Rightarrow> 'a word \<Rightarrow> 'a word option" where
  "checked_add x y = (if unat x + unat y < 2 ^ LENGTH('a) then Some (x + y) else None)"

definition checked_sub :: "'a::len word \<Rightarrow> 'a word \<Rightarrow> 'a word option" where
  "checked_sub x y = (if y \<le> x then Some (x - y) else None)"

definition checked_mul :: "'a::len word \<Rightarrow> 'a word \<Rightarrow> 'a word option" where
  "checked_mul x y = (if unat x * unat y < 2 ^ LENGTH('a) then Some (x * y) else None)"

definition saturating_sub :: "'a::len word \<Rightarrow> 'a word \<Rightarrow> 'a word" where
  "saturating_sub x y = (if y \<le> x then x - y else 0)"

text \<open>Plain \<open>+\<close>, \<open>*\<close> and \<open>-\<close> on unsigned integers panic when the result does not fit.\<close>

definition ck_add :: "'a::len word \<Rightarrow> 'a word \<Rightarrow> 'e fault + 'a word" where
  "ck_add x y = ok_or (checked_add x y) Panic"

definition ck_mul :: "'a::len word \<Rightarrow> 'a word \<Rightarrow> 'e fault + 'a word" where
  "ck_mul x y = ok_or (checked_mul x y) Panic"

definition ck_sub :: "'a::len word \<Rightarrow> 'a word \<Rightarrow> 'e fault + 'a word" where
  "ck_sub x y = ok_or (checked_sub x y) Panic"

lemma checked_add_Some: "checked_add x y = Some z \<longleftrightarrow> unat z = unat x + unat y" for x y z :: "'a::len word"
  by (auto simp: checked_add_def unat_word_ariths word_unat_eq_iff) (metis unsigned_less)

lemma checked_add_None: "checked_add x y = None \<longleftrightarrow> 2 ^ LENGTH('a) \<le> unat x + unat y" for x y :: "'a::len word"
  by (auto simp: checked_add_def)

lemma checked_sub_Some: "checked_sub x y = Some z \<longleftrightarrow> unat z + unat y = unat x"
  by (auto simp: checked_sub_def word_le_nat_alt unat_sub word_unat_eq_iff)

lemma checked_mul_Some: "checked_mul x y = Some z \<longleftrightarrow> unat z = unat x * unat y" for x y z :: "'a::len word"
  by (auto simp: checked_mul_def unat_word_ariths word_unat_eq_iff) (metis unsigned_less)

lemma checked_mul_None: "checked_mul x y = None \<longleftrightarrow> 2 ^ LENGTH('a) \<le> unat x * unat y" for x y :: "'a::len word"
  by (auto simp: checked_mul_def)

lemma unat_saturating_sub: "unat (saturating_sub x y) = unat x - unat y"
  by (auto simp: saturating_sub_def word_le_nat_alt unat_sub)

lemma ck_Inr [simp]:
  "ck_add x y = Inr z \<longleftrightarrow> unat z = unat x + unat y"
  "ck_mul x y = Inr z \<longleftrightarrow> unat z = unat x * unat y"
  "ck_sub x y = Inr z \<longleftrightarrow> unat z + unat y = unat x"
  for x y z :: "'a::len word"
  by (simp_all add: ck_add_def ck_mul_def ck_sub_def checked_add_Some checked_mul_Some checked_sub_Some)

lemma ck_ok:
  "unat x + unat y < 2 ^ LENGTH('a) \<Longrightarrow> ck_add x y = Inr (x + y)"
  "unat x * unat y < 2 ^ LENGTH('a) \<Longrightarrow> ck_mul x y = Inr (x * y)"
  "y \<le> x \<Longrightarrow> ck_sub x y = Inr (x - y)"
  for x y :: "'a::len word"
  by (simp_all add: ck_add_def ck_mul_def ck_sub_def checked_add_def checked_mul_def checked_sub_def)

lemma unat_widen [simp]:
  "unat (ucast (x :: u32) :: u128) = unat x" "unat (ucast (y :: u64) :: u128) = unat y"
  using unsigned_less [of x, where ?'a = nat] unsigned_less [of y, where ?'a = nat]
  by (simp_all add: unsigned_ucast_eq take_bit_nat_eq_self)

lemmas checked_iff = checked_add_Some checked_sub_Some checked_mul_Some

section \<open>Sixteen-byte integers\<close>

definition rd_u128 :: "'e \<Rightarrow> bytes \<Rightarrow> 'e + u128 \<times> bytes" where
  "rd_u128 e bs = andThen (take_n e 16 bs) (\<lambda>(x, r). Inr (from_be128 x, r))"

lemma rd_u128_append [simp, wire_simps]: "rd_u128 e (to_be128 w @ r) = Inr (w, r)"
  by (simp add: rd_u128_def)

lemma rd_u128_iff [wire_iff]: "rd_u128 e bs = Inr (w, r) \<longleftrightarrow> bs = to_be128 w @ r"
  by (auto simp: rd_u128_def take_n_eq_Inr to_be_from_be)

interpretation u128_codec: canonical_codec to_be128 "rd_u128 e" "\<lambda>_. True" for e
  by unfold_locales (simp add: rd_u128_iff)

section \<open>Prefix-free encodings\<close>

text \<open>
  What a commitment needs of the encoding it hashes: no value's encoding is the beginning of
  another's. A counted list of such values is again prefix-free. Every codec with a decoder is one.
\<close>

locale prefix_code =
  fixes enc :: "'a \<Rightarrow> bytes" and ok :: "'a \<Rightarrow> bool"
  assumes split: "ok x \<Longrightarrow> ok y \<Longrightarrow> enc x @ r = enc y @ s \<Longrightarrow> x = y \<and> r = s"
begin

lemma list_split:
  "list_all ok xs \<Longrightarrow> list_all ok ys \<Longrightarrow> length xs = length ys
    \<Longrightarrow> concat (map enc xs) @ r = concat (map enc ys) @ s \<Longrightarrow> xs = ys \<and> r = s"
proof (induction xs arbitrary: ys)
  case (Cons x xs)
  then obtain y ys' where ys: "ys = y # ys'" by (cases ys) simp_all
  have "x = y \<and> concat (map enc xs) @ r = concat (map enc ys') @ s"
    by (rule split) (use Cons.prems in \<open>simp_all add: ys\<close>)
  moreover from this have "xs = ys' \<and> r = s" by (intro Cons.IH) (use Cons.prems in \<open>simp_all add: ys\<close>)
  ultimately show ?case by (simp add: ys)
qed simp

lemma code_inj: "ok x \<Longrightarrow> ok y \<Longrightarrow> enc x = enc y \<longleftrightarrow> x = y"
  using split [of x y "[]" "[]"] by auto

end

sublocale wire_codec \<subseteq> prefix_code enc ok
  by unfold_locales (rule prefix_free)

text \<open>Fixed-width pieces at the front of two equal encodings agree.\<close>

lemma be_split [simp]:
  "to_be32 a @ r = to_be32 b @ s \<longleftrightarrow> a = b \<and> r = s"
  "to_be64 c @ r = to_be64 d @ s \<longleftrightarrow> c = d \<and> r = s"
  "to_be128 x @ r = to_be128 y @ s \<longleftrightarrow> x = y \<and> r = s"
  by (auto simp: append_eq_append_conv)

text \<open>A list behind its 32-bit or 64-bit count.\<close>

context prefix_code
begin

lemma counted32:
  assumes "to_be32 (len32 xs) @ concat (map enc xs) @ r = to_be32 (len32 ys) @ concat (map enc ys) @ s"
    and "list_all ok xs" "list_all ok ys" "length xs < 2 ^ 32" "length ys < 2 ^ 32"
  shows "xs = ys \<and> r = s"
proof -
  from assms(1) have "len32 xs = len32 ys" and e: "concat (map enc xs) @ r = concat (map enc ys) @ s" by simp_all
  from list_split [OF assms(2,3) len32_inj [OF assms(4,5) this(1)] e] show ?thesis .
qed

lemma counted64:
  assumes "to_be64 (len64 xs) @ concat (map enc xs) @ r = to_be64 (len64 ys) @ concat (map enc ys) @ s"
    and "list_all ok xs" "list_all ok ys" "length xs < 2 ^ 64" "length ys < 2 ^ 64"
  shows "xs = ys \<and> r = s"
proof -
  from assms(1) have "len64 xs = len64 ys" and e: "concat (map enc xs) @ r = concat (map enc ys) @ s" by simp_all
  from list_split [OF assms(2,3) len64_inj [OF assms(4,5) this(1)] e] show ?thesis .
qed

end

text \<open>A byte string behind its 64-bit length.\<close>

definition put_bytes64 :: "bytes \<Rightarrow> bytes" where
  "put_bytes64 b = to_be64 (len64 b) @ b"

interpretation bytes64: prefix_code put_bytes64 "\<lambda>b. length b < 2 ^ 64"
proof
  fix x y r s :: bytes
  assume l: "length x < 2 ^ 64" "length y < 2 ^ 64" and e: "put_bytes64 x @ r = put_bytes64 y @ s"
  then have "length x = length y" by (intro len64_inj) (simp_all add: put_bytes64_def)
  with e show "x = y \<and> r = s" by (simp add: put_bytes64_def append_eq_append_conv)
qed

section \<open>Failing sums\<close>

fun checked_sum :: "'a::len word \<Rightarrow> 'a word list \<Rightarrow> 'a word option" where
  "checked_sum a [] = Some a"
| "checked_sum a (x # xs) = (case checked_add a x of None \<Rightarrow> None | Some b \<Rightarrow> checked_sum b xs)"

lemma checked_sum_Some:
  "checked_sum a xs = Some z \<longleftrightarrow> unat z = unat a + sum_list (map unat xs)" for a z :: "'a::len word"
proof (induction xs arbitrary: a)
  case (Cons x xs)
  show ?case
  proof (cases "checked_add a x")
    case None
    then have "2 ^ LENGTH('a) \<le> unat a + sum_list (map unat (x # xs))" by (simp add: checked_add_None)
    moreover have "unat z < 2 ^ LENGTH('a)" by (rule unsigned_less)
    ultimately have "unat z \<noteq> unat a + sum_list (map unat (x # xs))" by linarith
    with None show ?thesis by simp
  next
    case (Some b)
    then have "unat b = unat a + unat x" by (simp add: checked_add_Some)
    with Some Cons show ?thesis by (simp add: add.assoc)
  qed
qed (auto simp: word_unat_eq_iff)

lemma checked_sum_None:
  "checked_sum a xs = None \<longleftrightarrow> 2 ^ LENGTH('a) \<le> unat a + sum_list (map unat xs)" for a :: "'a::len word"
proof (cases "checked_sum a xs")
  case None
  have "unat (of_nat (unat a + sum_list (map unat xs)) :: 'a word) \<noteq> unat a + sum_list (map unat xs)"
    using None checked_sum_Some [of a xs "of_nat (unat a + sum_list (map unat xs))"] by auto
  then have "2 ^ LENGTH('a) \<le> unat a + sum_list (map unat xs)"
    by (metis unat_of_nat mod_less not_less)
  with None show ?thesis by simp
next
  case (Some z)
  then have "unat a + sum_list (map unat xs) < 2 ^ LENGTH('a)" by (metis checked_sum_Some unsigned_less)
  with Some show ?thesis by simp
qed

end
