(* ===== verification/CreditPermit.thy ===== *)
theory CreditPermit
  imports Crypto Checked
begin

text \<open>
  Offline credit authorisations of \<open>mini-settlement\<close> (\<open>credit_permit.rs\<close>) and the wallet's journal of
  signed coupons (\<open>credit_journal.rs\<close>). The journal is the content of its file: a nonce and the
  encrypted list of coupons. Authenticated encryption and the fresh nonce are arguments; locks,
  directories and write-through are not modelled.
\<close>

section \<open>Terms and signatures (credit\_permit.rs)\<close>

definition PERMIT_DOMAIN :: bytes where "PERMIT_DOMAIN = ascii ''mini-settlement/offline-credit-permit/v1''"
definition IOU_DOMAIN :: bytes where "IOU_DOMAIN = ascii ''mini-settlement/offline-credit-iou/v1''"

datatype CreditSignatureError =
    UnsupportedSuite
  | SigInvalidTerms
  | WrongNetwork
  | WrongBorrower
  | WrongPermit
  | SigBadSignature
  | SigOutsideWindow
  | AllowanceExhausted
  | JournalFailure
  | SigMalformedEncoding

record CreditPermitTerms =
  pt_network_id :: bytes
  pt_policy_revision :: bytes
  pt_serial :: bytes
  pt_borrower_key :: bytes
  pt_limit_micro :: u64
  pt_issued_height :: u64
  pt_valid_through_height :: u64

definition permit_message :: "CreditPermitTerms \<Rightarrow> bytes" where
  "permit_message t =
     PERMIT_DOMAIN @ pt_network_id t @ pt_policy_revision t @ pt_serial t @ pt_borrower_key t
       @ to_be64 (pt_limit_micro t) @ to_be64 (pt_issued_height t) @ to_be64 (pt_valid_through_height t)"

definition permit_validate :: "crypto \<Rightarrow> CreditPermitTerms \<Rightarrow> u64 \<Rightarrow> CreditSignatureError + unit" where
  "permit_validate C t max_height_span =
     (if pt_limit_micro t = 0 \<or> pt_serial t = replicate 32 0 \<or> pt_policy_revision t = replicate 32 0
         \<or> pt_valid_through_height t \<le> pt_issued_height t
         \<or> pt_valid_through_height t - pt_issued_height t > max_height_span
      then Inl SigInvalidTerms
      else andThen (map_err (\<lambda>_. SigInvalidTerms) (vk_from_suite_bytes C DEFAULT_SUITE (pt_borrower_key t))) (\<lambda>_. Inr ()))"

record SignedCreditPermit =
  scp_terms :: CreditPermitTerms
  scp_signature :: Signature

definition permit_encode :: "SignedCreditPermit \<Rightarrow> CreditSignatureError + bytes" where
  "permit_encode p =
     andThen (ensure (sig_suite (scp_signature p) = DEFAULT_SUITE) UnsupportedSuite) (\<lambda>_.
       Inr (permit_message (scp_terms p) @ sig_bytes (scp_signature p)))"

text \<open>The decoder reads fixed slices; the length was checked, so no slice is out of range.\<close>

definition slice :: "nat \<Rightarrow> nat \<Rightarrow> bytes \<Rightarrow> bytes" where
  "slice at n b = take n (drop at b)"

definition permit_decode :: "crypto \<Rightarrow> bytes \<Rightarrow> CreditSignatureError + SignedCreditPermit" where
  "permit_decode C b =
     (let d = length PERMIT_DOMAIN in
      if length b \<noteq> d + 128 + 24 + 64 \<or> take d b \<noteq> PERMIT_DOMAIN then Inl SigMalformedEncoding
      else
        let terms = \<lparr>pt_network_id = slice d 32 b, pt_policy_revision = slice (d + 32) 32 b,
              pt_serial = slice (d + 64) 32 b, pt_borrower_key = slice (d + 96) 32 b,
              pt_limit_micro = from_be64 (slice (d + 128) 8 b), pt_issued_height = from_be64 (slice (d + 136) 8 b),
              pt_valid_through_height = from_be64 (slice (d + 144) 8 b)\<rparr>
        in andThen (map_err (\<lambda>_. SigMalformedEncoding) (sig_from_suite_bytes C DEFAULT_SUITE (drop (d + 152) b)))
             (\<lambda>signature. Inr \<lparr>scp_terms = terms, scp_signature = signature\<rparr>))"

record VerifiedCreditPermit =
  vcp_terms :: CreditPermitTerms
  vcp_id :: bytes

definition sign_credit_permit ::
  "crypto \<Rightarrow> SigningKey \<Rightarrow> CreditPermitTerms \<Rightarrow> u64 \<Rightarrow> CreditSignatureError fault + SignedCreditPermit" where
  "sign_credit_permit C issuer terms max_height_span =
     andThen (ensure (sk_suite issuer = DEFAULT_SUITE) (Fail UnsupportedSuite)) (\<lambda>_.
     andThen (map_err Fail (permit_validate C terms max_height_span)) (\<lambda>_.
     andThen (ok_or (sk_sign C issuer (permit_message terms)) Panic) (\<lambda>signature.
       Inr \<lparr>scp_terms = terms, scp_signature = signature\<rparr>)))"

definition verify_credit_permit ::
  "crypto \<Rightarrow> SignedCreditPermit \<Rightarrow> VerifyingKey \<Rightarrow> bytes \<Rightarrow> u64 \<Rightarrow> CreditSignatureError + VerifiedCreditPermit" where
  "verify_credit_permit C permit issuer network_id max_height_span =
     andThen (ensure (\<not> (vk_suite issuer \<noteq> DEFAULT_SUITE \<or> sig_suite (scp_signature permit) \<noteq> DEFAULT_SUITE)) UnsupportedSuite) (\<lambda>_.
     andThen (ensure (pt_network_id (scp_terms permit) = network_id) WrongNetwork) (\<lambda>_.
     andThen (permit_validate C (scp_terms permit) max_height_span) (\<lambda>_.
     let message = permit_message (scp_terms permit) in
     andThen (map_err (\<lambda>_. SigBadSignature) (vk_verify C issuer message (scp_signature permit))) (\<lambda>_.
       Inr \<lparr>vcp_terms = scp_terms permit, vcp_id = hash_digest C Blake3 message\<rparr>))))"

record CreditIouTerms =
  it_permit_id :: bytes
  it_sequence :: u64
  it_payee_commitment :: bytes
  it_amount_micro :: u64

definition iou_message :: "CreditIouTerms \<Rightarrow> bytes" where
  "iou_message t =
     IOU_DOMAIN @ it_permit_id t @ to_be64 (it_sequence t) @ it_payee_commitment t @ to_be64 (it_amount_micro t)"

definition iou_validate :: "CreditIouTerms \<Rightarrow> VerifiedCreditPermit \<Rightarrow> CreditSignatureError + unit" where
  "iou_validate t permit =
     (if it_permit_id t \<noteq> vcp_id permit then Inl WrongPermit
      else if it_amount_micro t = 0 \<or> it_amount_micro t > pt_limit_micro (vcp_terms permit)
              \<or> it_payee_commitment t = replicate 32 0 then Inl SigInvalidTerms
      else Inr ())"

record SignedCreditIou =
  sci_terms :: CreditIouTerms
  sci_signature :: Signature

definition iou_encode :: "SignedCreditIou \<Rightarrow> CreditSignatureError + bytes" where
  "iou_encode i =
     andThen (ensure (sig_suite (sci_signature i) = DEFAULT_SUITE) UnsupportedSuite) (\<lambda>_.
       Inr (iou_message (sci_terms i) @ sig_bytes (sci_signature i)))"

definition iou_decode :: "crypto \<Rightarrow> bytes \<Rightarrow> CreditSignatureError + SignedCreditIou" where
  "iou_decode C b =
     (let d = length IOU_DOMAIN in
      if length b \<noteq> d + 32 + 8 + 32 + 8 + 64 \<or> take d b \<noteq> IOU_DOMAIN then Inl SigMalformedEncoding
      else
        let terms = \<lparr>it_permit_id = slice d 32 b, it_sequence = from_be64 (slice (d + 32) 8 b),
              it_payee_commitment = slice (d + 40) 32 b, it_amount_micro = from_be64 (slice (d + 72) 8 b)\<rparr>
        in andThen (map_err (\<lambda>_. SigMalformedEncoding) (sig_from_suite_bytes C DEFAULT_SUITE (drop (d + 80) b)))
             (\<lambda>signature. Inr \<lparr>sci_terms = terms, sci_signature = signature\<rparr>))"

record VerifiedCreditIou =
  vci_terms :: CreditIouTerms
  vci_digest :: bytes

definition sign_credit_iou ::
  "crypto \<Rightarrow> SigningKey \<Rightarrow> VerifiedCreditPermit \<Rightarrow> CreditIouTerms \<Rightarrow> CreditSignatureError fault + SignedCreditIou" where
  "sign_credit_iou C borrower permit terms =
     andThen (ensure (sk_suite borrower = DEFAULT_SUITE) (Fail UnsupportedSuite)) (\<lambda>_.
     andThen (ensure (vk_to_bytes (verifying_key C borrower) = pt_borrower_key (vcp_terms permit)) (Fail WrongBorrower)) (\<lambda>_.
     andThen (map_err Fail (iou_validate terms permit)) (\<lambda>_.
     andThen (ok_or (sk_sign C borrower (iou_message terms)) Panic) (\<lambda>signature.
       Inr \<lparr>sci_terms = terms, sci_signature = signature\<rparr>))))"

definition verify_credit_iou ::
  "crypto \<Rightarrow> SignedCreditIou \<Rightarrow> VerifiedCreditPermit \<Rightarrow> u64 \<Rightarrow> CreditSignatureError + VerifiedCreditIou" where
  "verify_credit_iou C iou permit observed_height =
     andThen (ensure (sig_suite (sci_signature iou) = DEFAULT_SUITE) UnsupportedSuite) (\<lambda>_.
     andThen (iou_validate (sci_terms iou) permit) (\<lambda>_.
     andThen (ensure (\<not> (observed_height < pt_issued_height (vcp_terms permit)
         \<or> observed_height > pt_valid_through_height (vcp_terms permit))) SigOutsideWindow) (\<lambda>_.
     andThen (map_err (\<lambda>_. SigInvalidTerms)
       (vk_from_suite_bytes C DEFAULT_SUITE (pt_borrower_key (vcp_terms permit)))) (\<lambda>key.
     let message = iou_message (sci_terms iou) in
     andThen (map_err (\<lambda>_. SigBadSignature) (vk_verify C key message (sci_signature iou))) (\<lambda>_.
       Inr \<lparr>vci_terms = sci_terms iou, vci_digest = hash_digest C Blake3 message\<rparr>)))))"

record CreditUse =
  cu_signed_micro :: u64
  cu_next_sequence :: u64

definition CreditUse_default :: CreditUse where
  "CreditUse_default = \<lparr>cu_signed_micro = 0, cu_next_sequence = 0\<rparr>"

section \<open>The journal file (credit\_journal.rs)\<close>

definition MAX_COUPONS :: nat where "MAX_COUPONS = 4096"
definition JOURNAL_MAX_BYTES :: nat where "JOURNAL_MAX_BYTES = 1024 * 1024"
definition JOURNAL_DOMAIN :: bytes where "JOURNAL_DOMAIN = ascii ''mininet/credit-journal/v1''"

text \<open>Authenticated encryption under the wallet's storage key: nonce, text and associated data.\<close>

record aead =
  ae_encrypt :: "bytes \<Rightarrow> bytes \<Rightarrow> bytes \<Rightarrow> bytes"
  ae_decrypt :: "bytes \<Rightarrow> bytes \<Rightarrow> bytes \<Rightarrow> bytes option"

definition aead_ok :: "aead \<Rightarrow> bool" where
  "aead_ok A =
     (\<forall>n p a. ae_decrypt A n (ae_encrypt A n p a) a = Some p \<and> length (ae_encrypt A n p a) = length p + 16)"

record FileCreditJournal =
  fj_permit :: VerifiedCreditPermit
  fj_data :: "bytes option"

definition journal_aad :: "FileCreditJournal \<Rightarrow> bytes" where
  "journal_aad J = JOURNAL_DOMAIN @ vcp_id (fj_permit J)"

function read_coupons ::
  "crypto \<Rightarrow> VerifiedCreditPermit \<Rightarrow> CreditUse \<Rightarrow> SignedCreditIou list \<Rightarrow> bytes \<Rightarrow> (CreditUse \<times> SignedCreditIou list) option" where
  "read_coupons C permit usage coupons plain =
     (if plain = [] then Some (usage, coupons)
      else if length plain < 4 \<or> length coupons \<ge> MAX_COUPONS then None
      else let n = unat (from_be32 (take 4 plain)); rest = drop 4 plain in
        if n > length rest then None
        else case iou_decode C (take n rest) of
          Inl _ \<Rightarrow> None
        | Inr coupon \<Rightarrow>
            if \<not> is_ok (verify_credit_iou C coupon permit (pt_issued_height (vcp_terms permit))) then None
            else if it_sequence (sci_terms coupon) \<noteq> cu_next_sequence usage then None
            else case checked_add (cu_signed_micro usage) (it_amount_micro (sci_terms coupon)) of
              None \<Rightarrow> None
            | Some used \<Rightarrow>
                if used > pt_limit_micro (vcp_terms permit) then None
                else read_coupons C permit \<lparr>cu_signed_micro = used, cu_next_sequence = cu_next_sequence usage + 1\<rparr>
                       (coupons @ [coupon]) (drop n rest))"
  by auto
termination by (relation "measure (\<lambda>(_, _, _, _, plain). length plain)") auto

declare read_coupons.simps [simp del]

definition journal_read ::
  "crypto \<Rightarrow> aead \<Rightarrow> FileCreditJournal \<Rightarrow> CreditSignatureError + CreditUse \<times> SignedCreditIou list" where
  "journal_read C A J =
     (case fj_data J of
        None \<Rightarrow> Inl JournalFailure
      | Some b \<Rightarrow>
          if length b < 28 \<or> length b > JOURNAL_MAX_BYTES then Inl JournalFailure
          else ok_or (case ae_decrypt A (take 12 b) (drop 12 b) (journal_aad J) of
              None \<Rightarrow> None
            | Some plain \<Rightarrow> read_coupons C (fj_permit J) CreditUse_default [] plain) JournalFailure)"

fun encode_all :: "SignedCreditIou list \<Rightarrow> CreditSignatureError + bytes" where
  "encode_all [] = Inr []"
| "encode_all (c # cs) =
     andThen (iou_encode c) (\<lambda>b. andThen (encode_all cs) (\<lambda>r. Inr (to_be32 (len32 b) @ b @ r)))"

text \<open>\<open>nonce\<close> is what \<open>AeadNonce::generate\<close> returned: twelve fresh bytes, or no entropy.\<close>

definition journal_write ::
  "aead \<Rightarrow> FileCreditJournal \<Rightarrow> bytes option \<Rightarrow> SignedCreditIou list \<Rightarrow> CreditSignatureError + FileCreditJournal" where
  "journal_write A J nonce coupons =
     andThen (encode_all coupons) (\<lambda>plain.
     andThen (ok_or nonce JournalFailure) (\<lambda>n.
       Inr (J\<lparr>fj_data := Some (n @ ae_encrypt A n plain (journal_aad J))\<rparr>)))"

definition journal_create ::
  "aead \<Rightarrow> VerifiedCreditPermit \<Rightarrow> bytes option \<Rightarrow> CreditSignatureError + FileCreditJournal" where
  "journal_create A permit nonce = journal_write A \<lparr>fj_permit = permit, fj_data = None\<rparr> nonce []"

definition journal_outbox :: "crypto \<Rightarrow> aead \<Rightarrow> FileCreditJournal \<Rightarrow> CreditSignatureError + SignedCreditIou list" where
  "journal_outbox C A J = andThen (journal_read C A J) (\<lambda>(_, coupons). Inr coupons)"

definition journal_load :: "crypto \<Rightarrow> aead \<Rightarrow> FileCreditJournal \<Rightarrow> bytes \<Rightarrow> CreditSignatureError + CreditUse" where
  "journal_load C A J permit_id =
     andThen (ensure (permit_id = vcp_id (fj_permit J)) WrongPermit) (\<lambda>_.
     andThen (journal_read C A J) (\<lambda>(usage, _). Inr usage))"

definition compare_and_record ::
  "crypto \<Rightarrow> aead \<Rightarrow> FileCreditJournal \<Rightarrow> bytes option \<Rightarrow> CreditUse \<Rightarrow> CreditUse \<Rightarrow> SignedCreditIou
     \<Rightarrow> CreditSignatureError + bool \<times> FileCreditJournal" where
  "compare_and_record C A J nonce expected next_use coupon =
     andThen (journal_read C A J) (\<lambda>(usage, coupons).
       if usage \<noteq> expected then Inr (False, J)
       else
         andThen (ensure (length coupons < MAX_COUPONS) JournalFailure) (\<lambda>_.
         andThen (verify_credit_iou C coupon (fj_permit J) (pt_issued_height (vcp_terms (fj_permit J)))) (\<lambda>_.
         andThen (ensure (\<not> (it_sequence (sci_terms coupon) \<noteq> cu_next_sequence usage
             \<or> checked_add (cu_next_sequence usage) 1 \<noteq> Some (cu_next_sequence next_use)
             \<or> checked_add (cu_signed_micro usage) (it_amount_micro (sci_terms coupon)) \<noteq> Some (cu_signed_micro next_use)
             \<or> cu_signed_micro next_use > pt_limit_micro (vcp_terms (fj_permit J)))) JournalFailure) (\<lambda>_.
         andThen (journal_write A J nonce (coupons @ [coupon])) (\<lambda>J'. Inr (True, J'))))))"

definition sign_next_credit_iou ::
  "crypto \<Rightarrow> aead \<Rightarrow> SigningKey \<Rightarrow> VerifiedCreditPermit \<Rightarrow> u64 \<Rightarrow> bytes \<Rightarrow> bytes option \<Rightarrow> FileCreditJournal
     \<Rightarrow> CreditSignatureError fault + SignedCreditIou \<times> FileCreditJournal" where
  "sign_next_credit_iou C A borrower permit amount_micro payee nonce J =
     andThen (map_err Fail (journal_load C A J (vcp_id permit))) (\<lambda>prior.
     andThen (ok_or (checked_add (cu_signed_micro prior) amount_micro) (Fail AllowanceExhausted)) (\<lambda>signed_micro.
     andThen (ensure (signed_micro \<le> pt_limit_micro (vcp_terms permit)) (Fail AllowanceExhausted)) (\<lambda>_.
     andThen (ok_or (checked_add (cu_next_sequence prior) 1) (Fail AllowanceExhausted)) (\<lambda>next_sequence.
     andThen (sign_credit_iou C borrower permit
        \<lparr>it_permit_id = vcp_id permit, it_sequence = cu_next_sequence prior, it_payee_commitment = payee,
         it_amount_micro = amount_micro\<rparr>) (\<lambda>coupon.
     andThen (map_err Fail (compare_and_record C A J nonce prior
        \<lparr>cu_signed_micro = signed_micro, cu_next_sequence = next_sequence\<rparr> coupon)) (\<lambda>(recorded, J').
       if recorded then Inr (coupon, J') else Inl (Fail JournalFailure)))))))"

section \<open>Coupons and their encoding\<close>

text \<open>Rust values of the coupon type: 32-byte arrays and a signature of its suite's length.\<close>

definition coupon_typed :: "crypto \<Rightarrow> SignedCreditIou \<Rightarrow> bool" where
  "coupon_typed C c =
     (length (it_permit_id (sci_terms c)) = 32 \<and> length (it_payee_commitment (sci_terms c)) = 32 \<and> sig_wf C (sci_signature c))"

definition IOU_LEN :: nat where "IOU_LEN = 181"

lemma length_IOU_DOMAIN [simp]: "length IOU_DOMAIN = 37"
  by (simp add: IOU_DOMAIN_def)

lemma DEFAULT_len [simp]: "signature_len C DEFAULT_SUITE = 64"
  by (simp add: DEFAULT_SUITE_def)

lemma iou_encode_length:
  "coupon_typed C c \<Longrightarrow> iou_encode c = Inr b \<Longrightarrow> length b = IOU_LEN"
  by (auto simp: iou_encode_def iou_message_def coupon_typed_def sig_wf_def IOU_LEN_def)

lemma iou_decode_encode:
  assumes "coupon_typed C c" "iou_encode c = Inr b"
  shows "iou_decode C b = Inr c"
proof -
  let ?t = "sci_terms c" and ?s = "sci_signature c"
  have s: "sig_suite ?s = DEFAULT_SUITE" and b: "b = iou_message ?t @ sig_bytes ?s"
    using assms(2) by (auto simp: iou_encode_def)
  have l: "length (it_permit_id ?t) = 32" "length (it_payee_commitment ?t) = 32" "sig_wf C ?s"
    using assms(1) by (simp_all add: coupon_typed_def)
  have sl: "length (sig_bytes ?s) = 64" using l(3) s by (simp add: sig_wf_def)
  have f: "take 37 b = IOU_DOMAIN" "slice 37 32 b = it_permit_id ?t" "slice (37 + 32) 8 b = to_be64 (it_sequence ?t)"
    "slice (37 + 40) 32 b = it_payee_commitment ?t" "slice (37 + 72) 8 b = to_be64 (it_amount_micro ?t)"
    "drop (37 + 80) b = sig_bytes ?s" "length b = 37 + 32 + 8 + 32 + 8 + 64"
    using l sl by (simp_all add: b iou_message_def slice_def)
  have g: "sig_from_suite_bytes C DEFAULT_SUITE (sig_bytes ?s) = Inr ?s" using l(3) s sig_roundtrip by metis
  show ?thesis unfolding iou_decode_def Let_def length_IOU_DOMAIN f by (simp add: g)
qed

text \<open>The list of coupons a journal may hold, and the counters that go with it.\<close>

definition coupon_ok :: "crypto \<Rightarrow> VerifiedCreditPermit \<Rightarrow> SignedCreditIou \<Rightarrow> bool" where
  "coupon_ok C permit c =
     (coupon_typed C c \<and> is_ok (verify_credit_iou C c permit (pt_issued_height (vcp_terms permit))))"

definition signed_total :: "SignedCreditIou list \<Rightarrow> nat" where
  "signed_total cs = (\<Sum>c\<leftarrow>cs. unat (it_amount_micro (sci_terms c)))"

definition coupons_ok :: "crypto \<Rightarrow> VerifiedCreditPermit \<Rightarrow> SignedCreditIou list \<Rightarrow> bool" where
  "coupons_ok C permit cs =
     (length cs \<le> MAX_COUPONS \<and> list_all (coupon_ok C permit) cs
      \<and> map (\<lambda>c. unat (it_sequence (sci_terms c))) cs = [0..<length cs]
      \<and> signed_total cs \<le> unat (pt_limit_micro (vcp_terms permit)))"

definition use_of :: "SignedCreditIou list \<Rightarrow> CreditUse" where
  "use_of cs = \<lparr>cu_signed_micro = of_nat (signed_total cs), cu_next_sequence = of_nat (length cs)\<rparr>"

lemma signed_total_simps [simp]:
  "signed_total [] = 0" "signed_total (xs @ ys) = signed_total xs + signed_total ys"
  "signed_total (c # cs) = unat (it_amount_micro (sci_terms c)) + signed_total cs"
  by (simp_all add: signed_total_def)

lemma use_of_Nil [simp]: "use_of [] = CreditUse_default"
  by (simp add: use_of_def CreditUse_default_def)

lemma coupons_ok_Nil [simp]: "coupons_ok C permit []"
  by (simp add: coupons_ok_def)

lemma coupons_ok_snoc:
  "coupons_ok C permit (cs @ [c]) \<longleftrightarrow>
     coupons_ok C permit cs \<and> length cs < MAX_COUPONS \<and> coupon_ok C permit c
     \<and> unat (it_sequence (sci_terms c)) = length cs
     \<and> signed_total cs + unat (it_amount_micro (sci_terms c)) \<le> unat (pt_limit_micro (vcp_terms permit))"
  by (auto simp: coupons_ok_def)

lemma coupons_ok_prefix: "coupons_ok C permit (xs @ ys) \<Longrightarrow> coupons_ok C permit xs"
  by (induction ys rule: rev_induct) (simp_all add: coupons_ok_snoc flip: append_assoc)

lemma use_of_unat:
  assumes "coupons_ok C permit cs"
  shows "unat (cu_signed_micro (use_of cs)) = signed_total cs" "unat (cu_next_sequence (use_of cs)) = length cs"
proof -
  have "signed_total cs < 2 ^ 64" "length cs < 2 ^ 64"
    using assms unsigned_less [of "pt_limit_micro (vcp_terms permit)", where ?'a = nat]
    by (simp_all add: coupons_ok_def MAX_COUPONS_def)
  then show "unat (cu_signed_micro (use_of cs)) = signed_total cs" "unat (cu_next_sequence (use_of cs)) = length cs"
    by (simp_all add: use_of_def unat_of_nat)
qed

lemma use_of_snoc:
  assumes "coupons_ok C permit (cs @ [c])"
  shows "it_sequence (sci_terms c) = cu_next_sequence (use_of cs)"
    "checked_add (cu_signed_micro (use_of cs)) (it_amount_micro (sci_terms c)) = Some (cu_signed_micro (use_of (cs @ [c])))"
    "checked_add (cu_next_sequence (use_of cs)) 1 = Some (cu_next_sequence (use_of (cs @ [c])))"
    "cu_next_sequence (use_of cs) + 1 = cu_next_sequence (use_of (cs @ [c]))"
proof -
  have cs: "coupons_ok C permit cs" and q: "unat (it_sequence (sci_terms c)) = length cs"
    using assms by (simp_all add: coupons_ok_snoc)
  note u = use_of_unat [OF cs] use_of_unat [OF assms]
  show "it_sequence (sci_terms c) = cu_next_sequence (use_of cs)" using q u(2) by (simp add: word_unat_eq_iff)
  show "checked_add (cu_signed_micro (use_of cs)) (it_amount_micro (sci_terms c)) = Some (cu_signed_micro (use_of (cs @ [c])))"
    "checked_add (cu_next_sequence (use_of cs)) 1 = Some (cu_next_sequence (use_of (cs @ [c])))"
    using u by (simp_all add: checked_add_Some)
  then show "cu_next_sequence (use_of cs) + 1 = cu_next_sequence (use_of (cs @ [c]))"
    by (simp add: checked_add_def split: if_splits)
qed

lemma read_encoded_coupons:
  assumes "coupons_ok C permit (done @ cs)" "encode_all cs = Inr plain"
  shows "read_coupons C permit (use_of done) done plain = Some (use_of (done @ cs), done @ cs)"
  using assms
proof (induction cs arbitrary: "done" plain)
  case Nil
  then show ?case by (simp add: read_coupons.simps)
next
  case (Cons c cs)
  then obtain b r where b: "iou_encode c = Inr b" and r: "encode_all cs = Inr r" and p: "plain = to_be32 (len32 b) @ b @ r"
    by auto
  have all: "coupons_ok C permit ((done @ [c]) @ cs)" using Cons.prems(1) by simp
  have ok: "coupons_ok C permit (done @ [c])"
    using coupons_ok_prefix [OF all] .
  have c: "coupon_ok C permit c" and len: "length done < MAX_COUPONS" using ok by (simp_all add: coupons_ok_snoc)
  have t: "coupon_typed C c" and v: "is_ok (verify_credit_iou C c permit (pt_issued_height (vcp_terms permit)))"
    using c by (simp_all add: coupon_ok_def)
  have lb: "length b = 181" using iou_encode_length [OF t b] by (simp add: IOU_LEN_def)
  have n: "unat (len32 b) = 181" using lb by simp
  note u = use_of_snoc [OF ok]
  have lim: "\<not> cu_signed_micro (use_of (done @ [c])) > pt_limit_micro (vcp_terms permit)"
    using use_of_unat(1) [OF ok] ok by (simp add: word_less_nat_alt coupons_ok_def)
  have next_use: "\<lparr>cu_signed_micro = cu_signed_micro (use_of (done @ [c])), cu_next_sequence = cu_next_sequence (use_of (done @ [c]))\<rparr>
      = use_of (done @ [c])" by simp
  have "plain \<noteq> []" "\<not> length plain < 4" "take 4 plain = to_be32 (len32 b)" "drop 4 plain = b @ r" by (simp_all add: p)
  then show ?case
    unfolding read_coupons.simps [of C permit "use_of done" "done" plain]
    using Cons.IH [OF all r] len t v lim
    by (simp add: n lb iou_decode_encode [OF t b] u next_use)
qed

section \<open>The journal reads back what it wrote\<close>

lemma verify_credit_iou_Inr:
  "verify_credit_iou C c permit h = Inr v \<longleftrightarrow>
     sig_suite (sci_signature c) = DEFAULT_SUITE \<and> iou_validate (sci_terms c) permit = Inr ()
     \<and> pt_issued_height (vcp_terms permit) \<le> h \<and> h \<le> pt_valid_through_height (vcp_terms permit)
     \<and> (\<exists>key. vk_from_suite_bytes C DEFAULT_SUITE (pt_borrower_key (vcp_terms permit)) = Inr key
          \<and> vk_verify C key (iou_message (sci_terms c)) (sci_signature c) = Inr ())
     \<and> v = \<lparr>vci_terms = sci_terms c, vci_digest = hash_digest C Blake3 (iou_message (sci_terms c))\<rparr>"
  by (auto simp: verify_credit_iou_def Let_def not_less)

lemma verified_sig_wf:
  assumes "verify_credit_iou C c permit h = Inr v"
  shows "sig_wf C (sci_signature c)"
proof -
  from assms obtain key where s: "sig_suite (sci_signature c) = DEFAULT_SUITE" and w: "vk_wf C key" "vk_suite key = DEFAULT_SUITE"
    and v: "vk_verify C key (iou_message (sci_terms c)) (sci_signature c) = Inr ()"
    by (auto simp: verify_credit_iou_Inr vk_decode_iff)
  from w obtain b where "vk_inner key = KM_Ed25519 b" by (cases "vk_inner key") (auto simp: vk_wf_def DEFAULT_SUITE_def)
  with v s show ?thesis by (auto simp: vk_verify_def sig_wf_def DEFAULT_SUITE_def split: if_splits)
qed

lemma encode_all_ok:
  "list_all (coupon_ok C permit) cs \<Longrightarrow> \<exists>b. encode_all cs = Inr b \<and> length b = 185 * length cs"
proof (induction cs)
  case (Cons c cs)
  then obtain b where b: "encode_all cs = Inr b" "length b = 185 * length cs" by auto
  have c: "coupon_typed C c" "sig_suite (sci_signature c) = DEFAULT_SUITE"
    using Cons.prems by (auto simp: coupon_ok_def is_ok_iff verify_credit_iou_Inr)
  then obtain e where e: "iou_encode c = Inr e" by (simp add: iou_encode_def)
  with b iou_encode_length [OF c(1) e] show ?case by (simp add: IOU_LEN_def)
qed simp

lemma journal_write_read:
  assumes A: "aead_ok A" and ok: "coupons_ok C (fj_permit J) cs" and n: "length n = 12"
    and w: "journal_write A J (Some n) cs = Inr J'"
  shows "fj_permit J' = fj_permit J" "journal_read C A J' = Inr (use_of cs, cs)"
proof -
  obtain plain where p: "encode_all cs = Inr plain" "length plain = 185 * length cs"
    using encode_all_ok ok by (metis coupons_ok_def)
  have J': "J' = J\<lparr>fj_data := Some (n @ ae_encrypt A n plain (journal_aad J))\<rparr>" using w p(1) by (simp add: journal_write_def)
  then show "fj_permit J' = fj_permit J" by simp
  have "length cs \<le> 4096" using ok by (simp add: coupons_ok_def MAX_COUPONS_def)
  then have "length (n @ ae_encrypt A n plain (journal_aad J)) \<le> JOURNAL_MAX_BYTES"
    using A n p(2) by (simp add: aead_ok_def JOURNAL_MAX_BYTES_def)
  moreover have "journal_aad J' = journal_aad J" by (simp add: J' journal_aad_def)
  moreover have "read_coupons C (fj_permit J) CreditUse_default [] plain = Some (use_of cs, cs)"
    using read_encoded_coupons [of C "fj_permit J" "[]" cs plain] ok p(1) by simp
  ultimately show "journal_read C A J' = Inr (use_of cs, cs)"
    using A n by (simp add: journal_read_def J' aead_ok_def)
qed

section \<open>The honest wallet\<close>

text \<open>A journal created for a permit and the coupons signed through it so far.\<close>

inductive wallet :: "crypto \<Rightarrow> aead \<Rightarrow> SigningKey \<Rightarrow> VerifiedCreditPermit \<Rightarrow> FileCreditJournal \<Rightarrow> SignedCreditIou list \<Rightarrow> bool"
  for C A borrower permit where
  created: "length n = 12 \<Longrightarrow> journal_create A permit (Some n) = Inr J \<Longrightarrow> wallet C A borrower permit J []"
| signs: "wallet C A borrower permit J cs \<Longrightarrow> length n = 12 \<Longrightarrow> length payee = 32
    \<Longrightarrow> sign_next_credit_iou C A borrower permit amount payee (Some n) J = Inr (c, J')
    \<Longrightarrow> wallet C A borrower permit J' (cs @ [c])"

lemma compare_and_record_step:
  assumes A: "aead_ok A" and ok: "coupons_ok C (fj_permit J) cs" and r: "journal_read C A J = Inr (use_of cs, cs)"
    and n: "length n = 12" and t: "length (it_permit_id (sci_terms c)) = 32" "length (it_payee_commitment (sci_terms c)) = 32"
    and rec: "compare_and_record C A J (Some n) (use_of cs) nu c = Inr (True, J')"
  shows "coupons_ok C (fj_permit J) (cs @ [c])" "fj_permit J' = fj_permit J" "journal_read C A J' = Inr (use_of (cs @ [c]), cs @ [c])"
proof -
  let ?p = "fj_permit J"
  from rec r obtain v where len: "length cs < MAX_COUPONS"
    and v: "verify_credit_iou C c ?p (pt_issued_height (vcp_terms ?p)) = Inr v"
    and q: "it_sequence (sci_terms c) = cu_next_sequence (use_of cs)"
    and add: "checked_add (cu_signed_micro (use_of cs)) (it_amount_micro (sci_terms c)) = Some (cu_signed_micro nu)"
    and lim: "cu_signed_micro nu \<le> pt_limit_micro (vcp_terms ?p)"
    and w: "journal_write A J (Some n) (cs @ [c]) = Inr J'"
    by (auto simp: compare_and_record_def not_less)
  have "coupon_ok C ?p c" using v t verified_sig_wf [OF v] by (simp add: coupon_ok_def coupon_typed_def)
  with ok len q add lim show ok': "coupons_ok C ?p (cs @ [c])"
    using use_of_unat [OF ok] by (simp add: coupons_ok_snoc checked_add_Some word_le_nat_alt)
  show "fj_permit J' = fj_permit J" "journal_read C A J' = Inr (use_of (cs @ [c]), cs @ [c])"
    using journal_write_read [OF A ok' n w] by simp_all
qed

lemma wallet_inv:
  assumes "aead_ok A" "length (vcp_id permit) = 32"
  shows "wallet C A borrower permit J cs \<Longrightarrow>
    coupons_ok C permit cs \<and> fj_permit J = permit \<and> journal_read C A J = Inr (use_of cs, cs)"
proof (induction rule: wallet.induct)
  case (created n J)
  then have "journal_write A \<lparr>fj_permit = permit, fj_data = None\<rparr> (Some n) [] = Inr J" by (simp add: journal_create_def)
  from journal_write_read [OF assms(1) _ created(1) this, of C] show ?case by simp
next
  case (signs J cs n payee amount c J')
  then have ok: "coupons_ok C (fj_permit J) cs" and p: "fj_permit J = permit"
    and r: "journal_read C A J = Inr (use_of cs, cs)" by simp_all
  from signs.hyps(4) r obtain nu where c: "length (it_permit_id (sci_terms c)) = 32" "length (it_payee_commitment (sci_terms c)) = 32"
    and rec: "compare_and_record C A J (Some n) (use_of cs) nu c = Inr (True, J')"
    using assms(2) signs.hyps(3)
    by (auto simp: sign_next_credit_iou_def journal_load_def sign_credit_iou_def split: if_splits)
  from compare_and_record_step [OF assms(1) ok r signs.hyps(2) c rec] p show ?case by simp
qed

section \<open>Properties\<close>

text \<open>Property (C17): a wallet that signs through its journal never promises more than its permit allows.
  Whatever was signed is in the outbox in order, the sequence numbers are 0, 1, 2 and so on without
  repetition, the amounts add up to at most the permit's limit, and every coupon verifies against the
  permit at every height of its window.\<close>

theorem wallet_never_oversigns:
  assumes "aead_ok A" "digests_ok C" "verify_credit_permit C signed_permit issuer network span = Inr permit"
    "wallet C A borrower permit J cs"
  shows "journal_outbox C A J = Inr cs
    \<and> (\<Sum>c\<leftarrow>cs. unat (it_amount_micro (sci_terms c))) \<le> unat (pt_limit_micro (vcp_terms permit))
    \<and> map (\<lambda>c. unat (it_sequence (sci_terms c))) cs = [0..<length cs]
    \<and> (\<forall>c \<in> set cs. \<forall>h. pt_issued_height (vcp_terms permit) \<le> h \<and> h \<le> pt_valid_through_height (vcp_terms permit)
        \<longrightarrow> (\<exists>v. verify_credit_iou C c permit h = Inr v \<and> vci_terms v = sci_terms c))"
proof -
  have "length (vcp_id permit) = 32" using assms(2,3) by (auto simp: verify_credit_permit_def Let_def)
  from wallet_inv [OF assms(1) this assms(4)] have ok: "coupons_ok C permit cs"
    and r: "journal_read C A J = Inr (use_of cs, cs)" by blast+
  have "\<exists>v. verify_credit_iou C c permit h = Inr v \<and> vci_terms v = sci_terms c"
    if "c \<in> set cs" "pt_issued_height (vcp_terms permit) \<le> h" "h \<le> pt_valid_through_height (vcp_terms permit)" for c h
  proof -
    have "coupon_ok C permit c" using ok that(1) by (simp add: coupons_ok_def list_all_iff)
    with that(2,3) show ?thesis by (auto simp: coupon_ok_def is_ok_iff verify_credit_iou_Inr)
  qed
  with ok r show ?thesis by (simp add: journal_outbox_def coupons_ok_def signed_total_def)
qed

text \<open>A permit for a hundred units and one coupon signed under it, over the concrete primitives.\<close>

definition toy_aead :: aead where
  "toy_aead = \<lparr>ae_encrypt = (\<lambda>n p a. p @ replicate 16 0), ae_decrypt = (\<lambda>n c a. Some (take (length c - 16) c))\<rparr>"

definition demo_permit_terms :: CreditPermitTerms where
  "demo_permit_terms =
     \<lparr>pt_network_id = replicate 32 1, pt_policy_revision = replicate 32 2, pt_serial = replicate 32 3,
      pt_borrower_key = c_ed_public toy_crypto [7], pt_limit_micro = 100, pt_issued_height = 10, pt_valid_through_height = 20\<rparr>"

definition demo_signed_permit :: SignedCreditPermit where
  "demo_signed_permit =
     \<lparr>scp_terms = demo_permit_terms,
      scp_signature = \<lparr>sig_suite = Ed25519, sig_bytes = c_ed_sign toy_crypto [9] (permit_message demo_permit_terms)\<rparr>\<rparr>"

definition demo_permit :: VerifiedCreditPermit where
  "demo_permit = \<lparr>vcp_terms = demo_permit_terms, vcp_id = toy_digest (permit_message demo_permit_terms)\<rparr>"

definition demo_coupon :: SignedCreditIou where
  "demo_coupon =
     (let t = \<lparr>it_permit_id = vcp_id demo_permit, it_sequence = 0, it_payee_commitment = replicate 32 4, it_amount_micro = 60\<rparr>
      in \<lparr>sci_terms = t, sci_signature = \<lparr>sig_suite = Ed25519, sig_bytes = c_ed_sign toy_crypto [7] (iou_message t)\<rparr>\<rparr>)"

lemma toy_aead_ok: "aead_ok toy_aead"
  by (simp add: aead_ok_def toy_aead_def)

lemma demo_permit_verifies:
  "verify_credit_permit toy_crypto demo_signed_permit (verifying_key toy_crypto (from_seed [9])) (replicate 32 1) 10 = Inr demo_permit"
  by (simp add: verify_credit_permit_def demo_signed_permit_def demo_permit_def permit_validate_def demo_permit_terms_def
      toy_crypto_def verifying_key_def from_seed_def DEFAULT_SUITE_def vk_from_suite_bytes_def vk_verify_def)

lemma demo_coupon_verifies:
  "verify_credit_iou toy_crypto demo_coupon demo_permit 10
     = Inr \<lparr>vci_terms = sci_terms demo_coupon, vci_digest = toy_digest (iou_message (sci_terms demo_coupon))\<rparr>"
  by (simp add: verify_credit_iou_def iou_validate_def demo_coupon_def demo_permit_def demo_permit_terms_def
      toy_crypto_def DEFAULT_SUITE_def vk_from_suite_bytes_def vk_verify_def Let_def)

lemma demo_wallet: "\<exists>J. wallet toy_crypto toy_aead (from_seed [7]) demo_permit J [demo_coupon]"
proof -
  have id: "length (vcp_id demo_permit) = 32" by (simp add: demo_permit_def)
  obtain J where J: "journal_create toy_aead demo_permit (Some (replicate 12 0)) = Inr J"
    by (simp add: journal_create_def journal_write_def)
  have w: "wallet toy_crypto toy_aead (from_seed [7]) demo_permit J []" by (rule wallet.created [OF _ J]) simp
  from wallet_inv [OF toy_aead_ok id w] have p: "fj_permit J = demo_permit"
    and r: "journal_read toy_crypto toy_aead J = Inr (CreditUse_default, [])" by simp_all
  have sgn: "sign_credit_iou toy_crypto (from_seed [7]) demo_permit (sci_terms demo_coupon) = Inr demo_coupon"
    by (simp add: sign_credit_iou_def from_seed_def DEFAULT_SUITE_def vk_to_bytes_def verifying_key_def sk_sign_def
        iou_validate_def demo_coupon_def demo_permit_def demo_permit_terms_def toy_crypto_def Let_def)
  have enc: "iou_encode demo_coupon = Inr (iou_message (sci_terms demo_coupon) @ sig_bytes (sci_signature demo_coupon))"
    by (simp add: iou_encode_def demo_coupon_def DEFAULT_SUITE_def Let_def)
  have lim: "pt_limit_micro (vcp_terms demo_permit) = 100" "pt_issued_height (vcp_terms demo_permit) = 10"
    by (simp_all add: demo_permit_def demo_permit_terms_def)
  have t: "sci_terms demo_coupon = \<lparr>it_permit_id = vcp_id demo_permit, it_sequence = 0, it_payee_commitment = replicate 32 4, it_amount_micro = 60\<rparr>"
    by (simp add: demo_coupon_def Let_def)
  have "\<exists>J'. sign_next_credit_iou toy_crypto toy_aead (from_seed [7]) demo_permit 60 (replicate 32 4) (Some (replicate 12 0)) J
      = Inr (demo_coupon, J')"
    using sgn enc demo_coupon_verifies
    by (simp add: sign_next_credit_iou_def journal_load_def p r CreditUse_default_def checked_add_def lim t
        compare_and_record_def MAX_COUPONS_def journal_write_def)
  then obtain J' where J': "sign_next_credit_iou toy_crypto toy_aead (from_seed [7]) demo_permit 60 (replicate 32 4)
      (Some (replicate 12 0)) J = Inr (demo_coupon, J')" by blast
  have "wallet toy_crypto toy_aead (from_seed [7]) demo_permit J' ([] @ [demo_coupon])" by (rule wallet.signs [OF w _ _ J']) simp_all
  then show ?thesis by auto
qed

theorem wallet_never_oversigns_witness:
  "aead_ok toy_aead \<and> digests_ok toy_crypto
   \<and> verify_credit_permit toy_crypto demo_signed_permit (verifying_key toy_crypto (from_seed [9])) (replicate 32 1) 10 = Inr demo_permit
   \<and> (\<exists>J. wallet toy_crypto toy_aead (from_seed [7]) demo_permit J [demo_coupon]
        \<and> journal_outbox toy_crypto toy_aead J = Inr [demo_coupon])"
proof -
  obtain J where J: "wallet toy_crypto toy_aead (from_seed [7]) demo_permit J [demo_coupon]" using demo_wallet by blast
  from wallet_never_oversigns [OF toy_aead_ok toy_crypto_ok(1) demo_permit_verifies J] J demo_permit_verifies
  show ?thesis using toy_aead_ok toy_crypto_ok(1) by blast
qed

end
