(* ===== verification/Economy.thy ===== *)
theory Economy
  imports Crypto Checked
begin

text \<open>
  The crate \<open>mini-economy\<close>: amounts, the settlement cadence, the genesis manifest, issuance
  planning, the monetary ledger with its vesting positions, and its validated snapshots. Amounts
  are 128-bit words with checked arithmetic; \<open>as_micro\<close> and \<open>from_micro\<close> are the identity.
\<close>

section \<open>Errors and amounts (error.rs, amount.rs)\<close>

datatype EconomyError =
    EOverflow
  | EUnderflow
  | EmptyEligibleSet
  | DuplicateBeneficiary
  | InvalidDuration
  | InvalidPolicy
  | ChannelExceeded
  | TotalExceeded
  | InvalidGenesis
  | InvalidSnapshot
  | UnexpectedEpoch
  | OpeningSupplyMismatch
  | InvalidEpochPlan
  | MalformedEncoding
  | ELimitExceeded

type_synonym Amount = u128

definition amount_add :: "Amount \<Rightarrow> Amount \<Rightarrow> EconomyError + Amount" where
  "amount_add a b = ok_or (checked_add a b) EOverflow"

definition amount_sub :: "Amount \<Rightarrow> Amount \<Rightarrow> EconomyError + Amount" where
  "amount_sub a b = ok_or (checked_sub a b) EUnderflow"

section \<open>Issuance policy and plans (issuance.rs)\<close>

definition MILLION :: u128 where "MILLION = 1000000"
definition YEAR_MS :: u64 where "YEAR_MS = 365 * 24 * 60 * 60 * 1000"

datatype Channel = HumanShare | Service | TreasuryContribution

record Allocation =
  al_beneficiary :: bytes
  al_amount :: Amount

record VestingGrant =
  vg_beneficiary :: bytes
  vg_channel :: Channel
  vg_amount :: Amount
  vg_vesting_ms :: u64

record IssuancePolicy =
  ip_total_ceiling_ppm :: u32
  ip_human_floor_ppm :: u32
  ip_service_ceiling_ppm :: u32
  ip_treasury_ceiling_ppm :: u32
  ip_human_vesting_ms :: u64
  ip_treasury_vesting_ms :: u64

definition d0074 :: IssuancePolicy where
  "d0074 = \<lparr>ip_total_ceiling_ppm = 30000, ip_human_floor_ppm = 20000, ip_service_ceiling_ppm = 7500,
     ip_treasury_ceiling_ppm = 2500, ip_human_vesting_ms = YEAR_MS,
     ip_treasury_vesting_ms = 90 * 24 * 60 * 60 * 1000\<rparr>"

definition policy_validate :: "IssuancePolicy \<Rightarrow> EconomyError + unit" where
  "policy_validate p =
     andThen (ok_or (case checked_add (ip_human_floor_ppm p) (ip_service_ceiling_ppm p) of
         None \<Rightarrow> None | Some v \<Rightarrow> checked_add v (ip_treasury_ceiling_ppm p)) InvalidPolicy) (\<lambda>channels.
       if channels > ip_total_ceiling_ppm p \<or> ip_total_ceiling_ppm p > ucast MILLION
          \<or> ip_human_vesting_ms p = 0 \<or> ip_treasury_vesting_ms p = 0
       then Inl InvalidPolicy else Inr ())"

record EpochRequest =
  er_epoch :: u64
  er_duration_ms :: u64
  er_opening_circulating :: Amount
  er_eligible_humans :: "bytes list"
  er_service :: "Allocation list"
  er_treasury :: "Allocation list"

record EpochPlan =
  ep_epoch :: u64
  ep_duration_ms :: u64
  ep_opening_circulating :: Amount
  ep_human_cap :: Amount
  ep_service_cap :: Amount
  ep_treasury_cap :: Amount
  ep_total_cap :: Amount
  ep_human_issued :: Amount
  ep_service_issued :: Amount
  ep_treasury_issued :: Amount
  ep_total_issued :: Amount
  ep_grants :: "VestingGrant list"

record HumanSnapshot =
  hs_root :: bytes
  hs_eligible_count :: u64

record HumanSharePlan =
  hp_epoch :: u64
  hp_snapshot :: HumanSnapshot
  hp_cap :: Amount
  hp_per_human :: Amount
  hp_issued :: Amount
  hp_unissued_remainder :: Amount
  hp_vesting_ms :: u64

record ScalableEpochRequest =
  sr_epoch :: u64
  sr_duration_ms :: u64
  sr_opening_circulating :: Amount
  sr_human_snapshot :: HumanSnapshot
  sr_service :: "Allocation list"
  sr_treasury :: "Allocation list"

record ScalableEpochPlan =
  sp_epoch :: u64
  sp_duration_ms :: u64
  sp_opening_circulating :: Amount
  sp_human :: HumanSharePlan
  sp_service_cap :: Amount
  sp_treasury_cap :: Amount
  sp_total_cap :: Amount
  sp_service_issued :: Amount
  sp_treasury_issued :: Amount
  sp_total_issued :: Amount
  sp_optional_grants :: "VestingGrant list"

function gcd_loop :: "u128 \<Rightarrow> u128 \<Rightarrow> u128" where
  "gcd_loop left right = (if right = 0 then left else gcd_loop right (left mod right))"
  by auto
termination
proof (relation "measure (\<lambda>(_, right). unat right)")
  fix left right :: u128
  assume "right \<noteq> 0"
  then show "((right, left mod right), (left, right)) \<in> measure (\<lambda>(_, right). unat right)"
    by (simp add: unat_mod_distrib unat_gt_0)
qed simp

declare gcd_loop.simps [simp del]

text \<open>One turn of the loop that cancels a factor against the denominator.\<close>

definition reduce :: "u128 \<Rightarrow> u128 \<Rightarrow> u128 \<times> u128" where
  "reduce factor denominator =
     (let divisor = gcd_loop factor denominator in (factor div divisor, denominator div divisor))"

definition prorated :: "Amount \<Rightarrow> u32 \<Rightarrow> u64 \<Rightarrow> EconomyError + Amount" where
  "prorated supply ppm duration_ms =
     (let (f0, d0) = reduce supply (MILLION * ucast YEAR_MS);
          (f1, d1) = reduce (ucast ppm) d0;
          (f2, d2) = reduce (ucast duration_ms) d1
      in andThen (ok_or (case checked_mul f0 f1 of None \<Rightarrow> None | Some v \<Rightarrow> checked_mul v f2) EOverflow)
           (\<lambda>numerator. Inr (numerator div d2)))"

definition plan_human_share ::
  "u64 \<Rightarrow> u64 \<Rightarrow> Amount \<Rightarrow> HumanSnapshot \<Rightarrow> IssuancePolicy \<Rightarrow> EconomyError + HumanSharePlan" where
  "plan_human_share epoch duration_ms opening snapshot policy =
     andThen (policy_validate policy) (\<lambda>_.
     andThen (ensure (\<not> (duration_ms = 0 \<or> duration_ms > YEAR_MS)) InvalidDuration) (\<lambda>_.
     andThen (ensure (\<not> (hs_eligible_count snapshot = 0 \<or> hs_root snapshot = replicate 32 0)) InvalidSnapshot) (\<lambda>_.
     andThen (prorated opening (ip_human_floor_ppm policy) duration_ms) (\<lambda>cap.
       let per_human = cap div ucast (hs_eligible_count snapshot) in
     andThen (ok_or (checked_mul per_human (ucast (hs_eligible_count snapshot))) EOverflow) (\<lambda>issued.
     andThen (amount_sub cap issued) (\<lambda>rest.
       Inr \<lparr>hp_epoch = epoch, hp_snapshot = snapshot, hp_cap = cap, hp_per_human = per_human,
            hp_issued = issued, hp_unissued_remainder = rest, hp_vesting_ms = ip_human_vesting_ms policy\<rparr>))))))"

fun validate_loop :: "bytes list \<Rightarrow> Amount \<Rightarrow> Allocation list \<Rightarrow> EconomyError + Amount" where
  "validate_loop seen acc [] = Inr acc"
| "validate_loop seen acc (a # as) =
     (if al_beneficiary a = [] \<or> al_beneficiary a \<in> set seen then Inl DuplicateBeneficiary
      else andThen (amount_add acc (al_amount a)) (\<lambda>acc. validate_loop (al_beneficiary a # seen) acc as))"

definition validate_allocations :: "Allocation list \<Rightarrow> Amount \<Rightarrow> EconomyError + Amount" where
  "validate_allocations allocations cap =
     andThen (validate_loop [] 0 allocations) (\<lambda>sum.
       if sum > cap then Inl ChannelExceeded else Inr sum)"

definition grant_of :: "Channel \<Rightarrow> u64 \<Rightarrow> Allocation \<Rightarrow> VestingGrant" where
  "grant_of channel vesting_ms a =
     \<lparr>vg_beneficiary = al_beneficiary a, vg_channel = channel, vg_amount = al_amount a, vg_vesting_ms = vesting_ms\<rparr>"

definition plan_scalable_epoch ::
  "ScalableEpochRequest \<Rightarrow> IssuancePolicy \<Rightarrow> EconomyError + ScalableEpochPlan" where
  "plan_scalable_epoch request policy =
     andThen (policy_validate policy) (\<lambda>_.
     andThen (plan_human_share (sr_epoch request) (sr_duration_ms request) (sr_opening_circulating request)
        (sr_human_snapshot request) policy) (\<lambda>human.
     andThen (prorated (sr_opening_circulating request) (ip_service_ceiling_ppm policy) (sr_duration_ms request)) (\<lambda>service_cap.
     andThen (prorated (sr_opening_circulating request) (ip_treasury_ceiling_ppm policy) (sr_duration_ms request)) (\<lambda>treasury_cap.
     andThen (prorated (sr_opening_circulating request) (ip_total_ceiling_ppm policy) (sr_duration_ms request)) (\<lambda>total_cap.
     andThen (validate_allocations (sr_service request) service_cap) (\<lambda>service_issued.
     andThen (validate_allocations (sr_treasury request) treasury_cap) (\<lambda>treasury_issued.
     andThen (andThen (amount_add (hp_issued human) service_issued) (\<lambda>t. amount_add t treasury_issued)) (\<lambda>total_issued.
       if total_issued > total_cap then Inl TotalExceeded
       else Inr \<lparr>sp_epoch = sr_epoch request, sp_duration_ms = sr_duration_ms request,
              sp_opening_circulating = sr_opening_circulating request, sp_human = human,
              sp_service_cap = service_cap, sp_treasury_cap = treasury_cap, sp_total_cap = total_cap,
              sp_service_issued = service_issued, sp_treasury_issued = treasury_issued,
              sp_total_issued = total_issued,
              sp_optional_grants = map (grant_of Service 0) (sr_service request)
                @ map (grant_of TreasuryContribution (ip_treasury_vesting_ms policy)) (sr_treasury request)\<rparr>))))))))"

definition canonical_humans :: "bytes list \<Rightarrow> EconomyError + bytes list" where
  "canonical_humans humans =
     (if humans = [] then Inl EmptyEligibleSet
      else let unique = sort (remdups humans) in
        if length unique \<noteq> length humans \<or> list_ex (\<lambda>h. h = []) unique then Inl DuplicateBeneficiary
        else Inr unique)"

definition plan_epoch :: "EpochRequest \<Rightarrow> IssuancePolicy \<Rightarrow> EconomyError + EpochPlan" where
  "plan_epoch request policy =
     andThen (policy_validate policy) (\<lambda>_.
     andThen (ensure (\<not> (er_duration_ms request = 0 \<or> er_duration_ms request > YEAR_MS)) InvalidDuration) (\<lambda>_.
     andThen (canonical_humans (er_eligible_humans request)) (\<lambda>humans.
     andThen (prorated (er_opening_circulating request) (ip_human_floor_ppm policy) (er_duration_ms request)) (\<lambda>human_cap.
     andThen (prorated (er_opening_circulating request) (ip_service_ceiling_ppm policy) (er_duration_ms request)) (\<lambda>service_cap.
     andThen (prorated (er_opening_circulating request) (ip_treasury_ceiling_ppm policy) (er_duration_ms request)) (\<lambda>treasury_cap.
     andThen (prorated (er_opening_circulating request) (ip_total_ceiling_ppm policy) (er_duration_ms request)) (\<lambda>total_cap.
       let equal_human = human_cap div of_nat (length humans) in
     andThen (ok_or (checked_mul equal_human (of_nat (length humans))) EOverflow) (\<lambda>human_issued.
     andThen (validate_allocations (er_service request) service_cap) (\<lambda>service_issued.
     andThen (validate_allocations (er_treasury request) treasury_cap) (\<lambda>treasury_issued.
     andThen (andThen (amount_add human_issued service_issued) (\<lambda>t. amount_add t treasury_issued)) (\<lambda>total_issued.
       if total_issued > total_cap then Inl TotalExceeded
       else Inr \<lparr>ep_epoch = er_epoch request, ep_duration_ms = er_duration_ms request,
              ep_opening_circulating = er_opening_circulating request, ep_human_cap = human_cap,
              ep_service_cap = service_cap, ep_treasury_cap = treasury_cap, ep_total_cap = total_cap,
              ep_human_issued = human_issued, ep_service_issued = service_issued,
              ep_treasury_issued = treasury_issued, ep_total_issued = total_issued,
              ep_grants =
                map (\<lambda>h. \<lparr>vg_beneficiary = h, vg_channel = HumanShare, vg_amount = equal_human,
                        vg_vesting_ms = ip_human_vesting_ms policy\<rparr>) humans
                @ map (grant_of Service 0) (er_service request)
                @ map (grant_of TreasuryContribution (ip_treasury_vesting_ms policy)) (er_treasury request)\<rparr>)))))))))))"

section \<open>The monetary ledger (ledger.rs)\<close>

datatype VestingSubject = SnapshotSubject HumanSnapshot | Beneficiary bytes

record VestingPosition =
  vp_epoch :: u64
  vp_subject :: VestingSubject
  vp_channel :: Channel
  vp_amount :: Amount
  vp_starts_at_policy_ms :: u128
  vp_duration_ms :: u64

definition vested_at :: "VestingPosition \<Rightarrow> u128 \<Rightarrow> EconomyError + Amount" where
  "vested_at p policy_ms =
     (if vp_duration_ms p = 0 then Inr (vp_amount p)
      else let elapsed = saturating_sub policy_ms (vp_starts_at_policy_ms p);
               denominator = ucast (vp_duration_ms p) in
        if elapsed \<ge> denominator then Inr (vp_amount p)
        else
          andThen (ok_or (checked_mul (vp_amount p div denominator) elapsed) EOverflow) (\<lambda>whole.
          andThen (ok_or (checked_mul (vp_amount p mod denominator) elapsed) EOverflow) (\<lambda>fraction.
            ok_or (checked_add whole (fraction div denominator)) EOverflow)))"

record MonetaryLedger =
  ml_genesis_circulating :: Amount
  ml_total_issued :: Amount
  ml_policy_time_ms :: u128
  ml_last_epoch :: "u64 option"
  ml_positions :: "VestingPosition list"

definition ml_new :: "Amount \<Rightarrow> MonetaryLedger" where
  "ml_new genesis =
     \<lparr>ml_genesis_circulating = genesis, ml_total_issued = 0, ml_policy_time_ms = 0, ml_last_epoch = None,
      ml_positions = []\<rparr>"

definition total_supply :: "MonetaryLedger \<Rightarrow> EconomyError + Amount" where
  "total_supply L = amount_add (ml_genesis_circulating L) (ml_total_issued L)"

fun circulating_loop :: "u128 \<Rightarrow> Amount \<Rightarrow> VestingPosition list \<Rightarrow> EconomyError + Amount" where
  "circulating_loop now c [] = Inr c"
| "circulating_loop now c (p # ps) =
     andThen (vested_at p now) (\<lambda>v. andThen (amount_add c v) (\<lambda>c. circulating_loop now c ps))"

definition circulating_supply :: "MonetaryLedger \<Rightarrow> EconomyError + Amount" where
  "circulating_supply L = circulating_loop (ml_policy_time_ms L) (ml_genesis_circulating L) (ml_positions L)"

definition locked_supply :: "MonetaryLedger \<Rightarrow> EconomyError + Amount" where
  "locked_supply L =
     andThen (total_supply L) (\<lambda>t. andThen (circulating_supply L) (\<lambda>c. amount_sub t c))"

definition allocations_of :: "VestingGrant list \<Rightarrow> Channel \<Rightarrow> Allocation list" where
  "allocations_of grants channel =
     map (\<lambda>g. \<lparr>al_beneficiary = vg_beneficiary g, al_amount = vg_amount g\<rparr>)
       (filter (\<lambda>g. vg_channel g = channel) grants)"

definition validate_plan_shape :: "ScalableEpochPlan \<Rightarrow> IssuancePolicy \<Rightarrow> EconomyError + unit" where
  "validate_plan_shape plan policy =
     andThen (plan_scalable_epoch
        \<lparr>sr_epoch = sp_epoch plan, sr_duration_ms = sp_duration_ms plan,
         sr_opening_circulating = sp_opening_circulating plan, sr_human_snapshot = hp_snapshot (sp_human plan),
         sr_service = allocations_of (sp_optional_grants plan) Service,
         sr_treasury = allocations_of (sp_optional_grants plan) TreasuryContribution\<rparr> policy) (\<lambda>expected.
       if expected \<noteq> plan then Inl InvalidEpochPlan else Inr ())"

definition human_position :: "ScalableEpochPlan \<Rightarrow> u128 \<Rightarrow> VestingPosition" where
  "human_position plan end =
     \<lparr>vp_epoch = sp_epoch plan, vp_subject = SnapshotSubject (hp_snapshot (sp_human plan)),
      vp_channel = HumanShare, vp_amount = hp_issued (sp_human plan), vp_starts_at_policy_ms = end,
      vp_duration_ms = hp_vesting_ms (sp_human plan)\<rparr>"

definition grant_position :: "ScalableEpochPlan \<Rightarrow> u128 \<Rightarrow> VestingGrant \<Rightarrow> VestingPosition" where
  "grant_position plan end g =
     \<lparr>vp_epoch = sp_epoch plan, vp_subject = Beneficiary (vg_beneficiary g), vp_channel = vg_channel g,
      vp_amount = vg_amount g, vp_starts_at_policy_ms = end, vp_duration_ms = vg_vesting_ms g\<rparr>"

definition apply_epoch ::
  "MonetaryLedger \<Rightarrow> ScalableEpochPlan \<Rightarrow> IssuancePolicy \<Rightarrow> EconomyError + MonetaryLedger" where
  "apply_epoch L plan policy =
     andThen (case ml_last_epoch L of None \<Rightarrow> Inr 0 | Some e \<Rightarrow> ok_or (checked_add e 1) UnexpectedEpoch) (\<lambda>expected.
     andThen (ensure (sp_epoch plan = expected) UnexpectedEpoch) (\<lambda>_.
     andThen (ensure (\<not> (sp_duration_ms plan = 0 \<or> sp_duration_ms plan > YEAR_MS)) InvalidDuration) (\<lambda>_.
     andThen (circulating_supply L) (\<lambda>circulating.
     andThen (ensure (sp_opening_circulating plan = circulating) OpeningSupplyMismatch) (\<lambda>_.
     andThen (validate_plan_shape plan policy) (\<lambda>_.
     andThen (ok_or (checked_add (ml_policy_time_ms L) (ucast (sp_duration_ms plan))) EOverflow) (\<lambda>end.
     andThen (amount_add (ml_total_issued L) (sp_total_issued plan)) (\<lambda>issued.
       Inr (L\<lparr>ml_total_issued := issued, ml_policy_time_ms := end, ml_last_epoch := Some (sp_epoch plan),
              ml_positions := ml_positions L @ [human_position plan end]
                @ map (grant_position plan end) (sp_optional_grants plan)\<rparr>)))))))))"

section \<open>Snapshots (snapshot.rs)\<close>

definition MAX_VESTING_POSITIONS :: nat where "MAX_VESTING_POSITIONS = 65536"
definition MAX_SNAPSHOT_BENEFICIARY_BYTES :: nat where "MAX_SNAPSHOT_BENEFICIARY_BYTES = 4096"

record MonetaryLedgerSnapshot =
  ms_genesis_circulating :: Amount
  ms_total_issued :: Amount
  ms_policy_time_ms :: u128
  ms_last_epoch :: "u64 option"
  ms_positions :: "VestingPosition list"

definition export_snapshot :: "MonetaryLedger \<Rightarrow> MonetaryLedgerSnapshot" where
  "export_snapshot L =
     \<lparr>ms_genesis_circulating = ml_genesis_circulating L, ms_total_issued = ml_total_issued L,
      ms_policy_time_ms = ml_policy_time_ms L, ms_last_epoch = ml_last_epoch L, ms_positions = ml_positions L\<rparr>"

definition validate_position :: "VestingPosition \<Rightarrow> u128 \<Rightarrow> EconomyError + unit" where
  "validate_position p now =
     (if vp_starts_at_policy_ms p > now then Inl InvalidSnapshot
      else case vp_subject p of
        SnapshotSubject s \<Rightarrow>
          if hs_root s = replicate 32 0 \<or> hs_eligible_count s = 0 then Inl InvalidSnapshot else Inr ()
      | Beneficiary b \<Rightarrow>
          if b = [] \<or> length b > MAX_SNAPSHOT_BENEFICIARY_BYTES then Inl InvalidSnapshot else Inr ())"

fun snapshot_loop ::
  "u128 \<Rightarrow> Amount \<Rightarrow> u64 option \<Rightarrow> VestingPosition list \<Rightarrow> EconomyError + Amount \<times> u64 option" where
  "snapshot_loop now issued greatest [] = Inr (issued, greatest)"
| "snapshot_loop now issued greatest (p # ps) =
     andThen (validate_position p now) (\<lambda>_.
     andThen (amount_add issued (vp_amount p)) (\<lambda>issued.
       snapshot_loop now issued
         (Some (case greatest of None \<Rightarrow> vp_epoch p | Some e \<Rightarrow> max e (vp_epoch p))) ps))"

definition import_snapshot :: "MonetaryLedgerSnapshot \<Rightarrow> EconomyError + MonetaryLedger" where
  "import_snapshot s =
     (if length (ms_positions s) > MAX_VESTING_POSITIONS then Inl InvalidSnapshot
      else if ms_last_epoch s = None
              \<and> (ms_total_issued s \<noteq> 0 \<or> ms_policy_time_ms s \<noteq> 0 \<or> ms_positions s \<noteq> []) then Inl InvalidSnapshot
      else
        andThen (snapshot_loop (ms_policy_time_ms s) 0 None (ms_positions s)) (\<lambda>(issued, greatest).
          if issued \<noteq> ms_total_issued s then Inl InvalidSnapshot
          else if (case (greatest, ms_last_epoch s) of (Some g, Some l) \<Rightarrow> g > l | _ \<Rightarrow> False) then Inl InvalidSnapshot
          else
            let L = \<lparr>ml_genesis_circulating = ms_genesis_circulating s, ml_total_issued = ms_total_issued s,
                     ml_policy_time_ms = ms_policy_time_ms s, ml_last_epoch = ms_last_epoch s,
                     ml_positions = ms_positions s\<rparr>
            in andThen (total_supply L) (\<lambda>_. andThen (circulating_supply L) (\<lambda>_. andThen (locked_supply L) (\<lambda>_. Inr L)))))"

end
