(* ===== verification/Credit.thy ===== *)
theory Credit
  imports CreditPermit Economy
begin

text \<open>
  Human Share credit of \<open>mini-economy\<close> (\<open>credit.rs\<close>): accounts with caps, registered permits, recorded
  IOUs and the repayment of debt from released share. An operation that mutates the ledger returns
  the new ledger; a failing one leaves it unchanged. Plain arithmetic and \<open>expect\<close> may panic in the
  model; the lemmas show that they do not.
\<close>

section \<open>State\<close>

record CreditPolicy =
  cp_network_id :: bytes
  cp_revision :: bytes
  cp_max_debt_per_human :: u64
  cp_repayment_ppm :: u32
  cp_max_permit_height_span :: u64
  cp_max_accounts :: nat
  cp_max_permits :: nat
  cp_max_ious :: nat

datatype CreditError =
    CrInvalidPolicy
  | CrInvalidTerms
  | UnknownAccount
  | UnknownPermit
  | CrLimitExceeded
  | PermitConflict
  | IouConflict
  | CrOutsideWindow
  | NotExpired
  | ReplayMismatch
  | InvalidEpoch
  | Arithmetic

record CreditRepayment =
  rp_iou_digest :: bytes
  rp_payee_commitment :: bytes
  rp_amount_micro :: u64

record ShareRepayment =
  sh_gross_released :: Amount
  sh_recipient_available :: Amount
  sh_remaining_debt_micro :: u64
  sh_repayments :: "CreditRepayment list"

record Position =
  ps_cap :: u64
  ps_debt :: u64
  ps_unused_authorized :: u64
  ps_repayment_remainder :: u128
  ps_last_share :: "(u64 \<times> ShareRepayment) option"

record Permit =
  pm_subject :: bytes
  pm_verified :: VerifiedCreditPermit
  pm_used :: u64
  pm_expired :: bool

record Iou =
  io_subject :: bytes
  io_digest :: bytes
  io_payee :: bytes
  io_remaining :: u64

record HumanShareCredit =
  hc_policy :: CreditPolicy
  hc_accounts :: "(bytes, Position) btree"
  hc_permits :: "(bytes, Permit) btree"
  hc_ious :: "(bytes \<times> u64, Iou) btree"
  hc_canonical_order :: "(bytes \<times> u64) list"

type_synonym 'a cr = "CreditError fault + 'a"

section \<open>Operations\<close>

definition credit_new :: "CreditPolicy \<Rightarrow> HumanShareCredit cr" where
  "credit_new policy =
     (if cp_revision policy = replicate 32 0 \<or> cp_max_debt_per_human policy = 0 \<or> cp_repayment_ppm policy = 0
         \<or> ucast (cp_repayment_ppm policy) > MILLION \<or> cp_max_permit_height_span policy = 0
         \<or> cp_max_accounts policy = 0 \<or> cp_max_permits policy = 0 \<or> cp_max_ious policy = 0
      then Inl (Fail CrInvalidPolicy)
      else Inr \<lparr>hc_policy = policy, hc_accounts = [], hc_permits = [], hc_ious = [], hc_canonical_order = []\<rparr>)"

definition enroll :: "HumanShareCredit \<Rightarrow> bytes \<Rightarrow> u64 \<Rightarrow> HumanShareCredit cr" where
  "enroll S subject approved_cap_micro =
     (if subject = replicate 32 0 \<or> approved_cap_micro = 0 \<or> approved_cap_micro > cp_max_debt_per_human (hc_policy S)
      then Inl (Fail CrInvalidTerms)
      else if map_of (hc_accounts S) subject \<noteq> None \<or> length (hc_accounts S) \<ge> cp_max_accounts (hc_policy S)
      then Inl (Fail CrLimitExceeded)
      else Inr (S\<lparr>hc_accounts := bt_insert subject
             \<lparr>ps_cap = approved_cap_micro, ps_debt = 0, ps_unused_authorized = 0, ps_repayment_remainder = 0,
              ps_last_share = None\<rparr> (hc_accounts S)\<rparr>))"

definition debt_micro :: "HumanShareCredit \<Rightarrow> bytes \<Rightarrow> u64 option" where
  "debt_micro S subject = map_option ps_debt (map_of (hc_accounts S) subject)"

definition new_allowance_capacity :: "HumanShareCredit \<Rightarrow> bytes \<Rightarrow> u64 cr" where
  "new_allowance_capacity S subject =
     andThen (ok_or (map_of (hc_accounts S) subject) (Fail UnknownAccount)) (\<lambda>p.
       ok_or (case checked_sub (ps_cap p) (ps_debt p) of None \<Rightarrow> None | Some v \<Rightarrow> checked_sub v (ps_unused_authorized p))
         (Fail Arithmetic))"

definition permit_remaining :: "HumanShareCredit \<Rightarrow> bytes \<Rightarrow> (u64 cr) option" where
  "permit_remaining S i =
     map_option (\<lambda>p. if pm_expired p then Inr 0 else ck_sub (pt_limit_micro (vcp_terms (pm_verified p))) (pm_used p))
       (map_of (hc_permits S) i)"

definition register_permit ::
  "HumanShareCredit \<Rightarrow> bytes \<Rightarrow> VerifiedCreditPermit \<Rightarrow> u64 \<Rightarrow> (bool \<times> HumanShareCredit) cr" where
  "register_permit S subject permit canonical_height =
     (let terms = vcp_terms permit; policy = hc_policy S in
      if pt_network_id terms \<noteq> cp_network_id policy \<or> pt_policy_revision terms \<noteq> cp_revision policy
      then Inl (Fail CrInvalidTerms)
      else andThen (ck_sub (pt_valid_through_height terms) (pt_issued_height terms)) (\<lambda>span.
        if span > cp_max_permit_height_span policy then Inl (Fail CrInvalidTerms)
        else case map_of (hc_permits S) (vcp_id permit) of
          Some old \<Rightarrow>
            if pm_subject old = subject \<and> pm_verified old = permit then Inr (False, S) else Inl (Fail PermitConflict)
        | None \<Rightarrow>
            if canonical_height \<noteq> pt_issued_height terms then Inl (Fail CrOutsideWindow)
            else if length (hc_permits S) \<ge> cp_max_permits policy then Inl (Fail CrLimitExceeded)
            else andThen (new_allowance_capacity S subject) (\<lambda>capacity.
              if pt_limit_micro terms > capacity then Inl (Fail CrLimitExceeded)
              else andThen (ok_or (map_of (hc_accounts S) subject) (Fail UnknownAccount)) (\<lambda>position.
                andThen (ok_or (checked_add (ps_unused_authorized position) (pt_limit_micro terms)) (Fail Arithmetic)) (\<lambda>unused.
                  Inr (True, S\<lparr>hc_accounts := bt_insert subject (position\<lparr>ps_unused_authorized := unused\<rparr>) (hc_accounts S),
                    hc_permits := bt_insert (vcp_id permit)
                      \<lparr>pm_subject = subject, pm_verified = permit, pm_used = 0, pm_expired = False\<rparr> (hc_permits S)\<rparr>))))))"

definition record_iou :: "HumanShareCredit \<Rightarrow> VerifiedCreditIou \<Rightarrow> u64 \<Rightarrow> (bool \<times> HumanShareCredit) cr" where
  "record_iou S iou canonical_height =
     (let terms = vci_terms iou; slot = (it_permit_id terms, it_sequence terms) in
      case map_of (hc_ious S) slot of
        Some prior \<Rightarrow> if io_digest prior = vci_digest iou then Inr (False, S) else Inl (Fail IouConflict)
      | None \<Rightarrow>
        andThen (ok_or (map_of (hc_permits S) (it_permit_id terms)) (Fail UnknownPermit)) (\<lambda>permit.
        let authorized = vcp_terms (pm_verified permit) in
        if pm_expired permit \<or> canonical_height < pt_issued_height authorized \<or> canonical_height > pt_valid_through_height authorized
        then Inl (Fail CrOutsideWindow)
        else if length (hc_ious S) \<ge> cp_max_ious (hc_policy S) then Inl (Fail CrLimitExceeded)
        else andThen (ok_or (checked_add (pm_used permit) (it_amount_micro terms)) (Fail Arithmetic)) (\<lambda>used.
          if used > pt_limit_micro authorized then Inl (Fail CrLimitExceeded)
          else andThen (ok_or (map_of (hc_accounts S) (pm_subject permit)) (Fail UnknownAccount)) (\<lambda>p.
            andThen (ok_or (checked_add (ps_debt p) (it_amount_micro terms)) (Fail Arithmetic)) (\<lambda>debt.
            andThen (ok_or (checked_sub (ps_unused_authorized p) (it_amount_micro terms)) (Fail Arithmetic)) (\<lambda>unused.
              Inr (True, S\<lparr>hc_permits := bt_insert (it_permit_id terms) (permit\<lparr>pm_used := used\<rparr>) (hc_permits S),
                hc_accounts := bt_insert (pm_subject permit) (p\<lparr>ps_debt := debt, ps_unused_authorized := unused\<rparr>) (hc_accounts S),
                hc_ious := bt_insert slot \<lparr>io_subject = pm_subject permit, io_digest = vci_digest iou,
                  io_payee = it_payee_commitment terms, io_remaining = it_amount_micro terms\<rparr> (hc_ious S),
                hc_canonical_order := hc_canonical_order S @ [slot]\<rparr>)))))))"

definition expire_permit :: "HumanShareCredit \<Rightarrow> bytes \<Rightarrow> u64 \<Rightarrow> HumanShareCredit cr" where
  "expire_permit S i canonical_height =
     andThen (ok_or (map_of (hc_permits S) i) (Fail UnknownPermit)) (\<lambda>permit.
       if pm_expired permit then Inr S
       else if canonical_height \<le> pt_valid_through_height (vcp_terms (pm_verified permit)) then Inl (Fail NotExpired)
       else andThen (ck_sub (pt_limit_micro (vcp_terms (pm_verified permit))) (pm_used permit)) (\<lambda>remaining.
         andThen (ok_or (map_of (hc_accounts S) (pm_subject permit)) Panic) (\<lambda>p.
         andThen (ok_or (checked_sub (ps_unused_authorized p) remaining) (Fail Arithmetic)) (\<lambda>unused.
           Inr (S\<lparr>hc_accounts := bt_insert (pm_subject permit) (p\<lparr>ps_unused_authorized := unused\<rparr>) (hc_accounts S),
                  hc_permits := bt_insert i (permit\<lparr>pm_expired := True\<rparr>) (hc_permits S)\<rparr>)))))"

text \<open>The repayment loop: oldest recorded IOUs first, until the budget is spent.\<close>

fun repay_loop ::
  "bytes \<Rightarrow> (bytes \<times> u64) list \<Rightarrow> u64 \<Rightarrow> (bytes \<times> u64, Iou) btree \<Rightarrow> CreditRepayment list
     \<Rightarrow> (u64 \<times> (bytes \<times> u64, Iou) btree \<times> CreditRepayment list) cr" where
  "repay_loop subject [] budget ious out = Inr (budget, ious, out)"
| "repay_loop subject (slot # slots) budget ious out =
     (if budget = 0 then Inr (budget, ious, out)
      else case map_of ious slot of
        None \<Rightarrow> Inl Panic
      | Some iou \<Rightarrow>
          if io_subject iou \<noteq> subject \<or> io_remaining iou = 0 then repay_loop subject slots budget ious out
          else let amount = min budget (io_remaining iou) in
            repay_loop subject slots (budget - amount)
              (bt_insert slot (iou\<lparr>io_remaining := io_remaining iou - amount\<rparr>) ious)
              (out @ [\<lparr>rp_iou_digest = io_digest iou, rp_payee_commitment = io_payee iou, rp_amount_micro = amount\<rparr>]))"

text \<open>What a release may repay: the permitted part of it, fractions carried over, and the new fraction.\<close>

definition release_budget :: "CreditPolicy \<Rightarrow> Position \<Rightarrow> Amount \<Rightarrow> (u64 \<times> u128) cr" where
  "release_budget policy position n =
     (let ppm = ucast (cp_repayment_ppm policy) in
      andThen (ck_mul (n mod MILLION) ppm) (\<lambda>part.
      andThen (ck_add part (ps_repayment_remainder position)) (\<lambda>fractional.
      andThen (ck_mul (n div MILLION) ppm) (\<lambda>whole.
      andThen (ck_add whole (fractional div MILLION)) (\<lambda>permitted.
        Inr (ucast (min permitted (ucast (ps_debt position))), fractional))))))"

definition apply_release ::
  "HumanShareCredit \<Rightarrow> bytes \<Rightarrow> Position \<Rightarrow> u64 \<Rightarrow> Amount \<Rightarrow> (ShareRepayment \<times> bool \<times> HumanShareCredit) cr" where
  "apply_release S subject position release_epoch gross =
     andThen (release_budget (hc_policy S) position gross) (\<lambda>(repay, fractional).
     andThen (ck_sub (ps_debt position) repay) (\<lambda>remaining_debt.
     andThen (repay_loop subject (hc_canonical_order S) repay (hc_ious S) []) (\<lambda>(budget, ious, repayments).
       if budget \<noteq> 0 then Inl (Fail Arithmetic)
       else andThen (ck_sub gross (ucast repay)) (\<lambda>available.
         let split = \<lparr>sh_gross_released = gross, sh_recipient_available = available,
               sh_remaining_debt_micro = remaining_debt, sh_repayments = repayments\<rparr>
         in Inr (split, True, S\<lparr>hc_ious := ious,
              hc_accounts := bt_insert subject
                (position\<lparr>ps_debt := remaining_debt,
                   ps_repayment_remainder := (if remaining_debt = 0 then 0 else fractional mod MILLION),
                   ps_last_share := Some (release_epoch, split)\<rparr>) (hc_accounts S)\<rparr>)))))"

definition release_share ::
  "HumanShareCredit \<Rightarrow> bytes \<Rightarrow> u64 \<Rightarrow> Amount \<Rightarrow> (ShareRepayment \<times> bool \<times> HumanShareCredit) cr" where
  "release_share S subject release_epoch gross =
     andThen (ok_or (map_of (hc_accounts S) subject) (Fail UnknownAccount)) (\<lambda>position.
     case ps_last_share position of
       Some (prior_epoch, split) \<Rightarrow>
         if release_epoch = prior_epoch then
           (if gross = sh_gross_released split then Inr (split, False, S) else Inl (Fail ReplayMismatch))
         else if release_epoch < prior_epoch then Inl (Fail InvalidEpoch)
         else apply_release S subject position release_epoch gross
     | None \<Rightarrow> apply_release S subject position release_epoch gross)"

end
