(* ===== verification/CreditProps.thy ===== *)
theory CreditProps
  imports Credit
begin

text \<open>
  Accounting of Human Share credit: debts and allowances are exactly the sums over recorded IOUs and
  live permits and stay within the caps, releases are split exactly and never fail on a reachable
  ledger, and the coupons an honest wallet signs are accepted.
\<close>

section \<open>Sums over maps\<close>

lemma bt_total_0: "(\<And>k v. map_of m k = Some v \<Longrightarrow> f v = 0) \<Longrightarrow> bt_wf m \<Longrightarrow> bt_total f m = 0"
  unfolding bt_total_def by (auto simp: bt_wf_distinct intro!: map_of_is_SomeI)

lemma bt_total_new: "bt_wf m \<Longrightarrow> map_of m k = None \<Longrightarrow> bt_total f (bt_insert k v m) = bt_total f m + f v"
  using bt_total_insert [of m f k v] by simp

lemma bt_total_write: "bt_wf m \<Longrightarrow> map_of m k = Some w \<Longrightarrow> bt_total f (bt_insert k v m) + f w = bt_total f m + f v"
  using bt_total_insert [of m f k v] by simp

lemma bt_total_same: "bt_wf m \<Longrightarrow> map_of m k = Some w \<Longrightarrow> f v = f w \<Longrightarrow> bt_total f (bt_insert k v m) = bt_total f m"
  using bt_total_write [of m k w f v] by simp

lemma fst_set_map_of: "k \<in> fst ` set m \<longleftrightarrow> map_of m k \<noteq> None"
  by (simp add: map_of_eq_None_iff)

section \<open>The accounting invariant\<close>

definition debt_of :: "bytes \<Rightarrow> Iou \<Rightarrow> nat" where
  "debt_of subject i = (if io_subject i = subject then unat (io_remaining i) else 0)"

definition allowance_of :: "bytes \<Rightarrow> Permit \<Rightarrow> nat" where
  "allowance_of subject p =
     (if pm_subject p = subject \<and> \<not> pm_expired p then unat (pt_limit_micro (vcp_terms (pm_verified p))) - unat (pm_used p) else 0)"

definition position_inv :: "HumanShareCredit \<Rightarrow> bytes \<Rightarrow> Position \<Rightarrow> bool" where
  "position_inv S subject p =
     (unat (ps_debt p) = bt_total (debt_of subject) (hc_ious S)
      \<and> unat (ps_unused_authorized p) = bt_total (allowance_of subject) (hc_permits S)
      \<and> unat (ps_debt p) + unat (ps_unused_authorized p) \<le> unat (ps_cap p)
      \<and> ps_cap p \<le> cp_max_debt_per_human (hc_policy S)
      \<and> unat (ps_repayment_remainder p) < 1000000
      \<and> (unat (cp_repayment_ppm (hc_policy S)) = 1000000 \<longrightarrow> ps_repayment_remainder p = 0))"

definition permit_inv :: "HumanShareCredit \<Rightarrow> Permit \<Rightarrow> bool" where
  "permit_inv S p = (map_of (hc_accounts S) (pm_subject p) \<noteq> None \<and> pm_used p \<le> pt_limit_micro (vcp_terms (pm_verified p)))"

definition iou_inv :: "HumanShareCredit \<Rightarrow> bytes \<times> u64 \<Rightarrow> Iou \<Rightarrow> bool" where
  "iou_inv S slot i = (map_of (hc_accounts S) (io_subject i) \<noteq> None \<and> map_of (hc_permits S) (fst slot) \<noteq> None)"

definition credit_inv :: "HumanShareCredit \<Rightarrow> bool" where
  "credit_inv S =
     (bt_wf (hc_accounts S) \<and> bt_wf (hc_permits S) \<and> bt_wf (hc_ious S)
      \<and> unat (cp_repayment_ppm (hc_policy S)) \<le> 1000000
      \<and> distinct (hc_canonical_order S) \<and> set (hc_canonical_order S) = fst ` set (hc_ious S)
      \<and> (\<forall>s p. map_of (hc_accounts S) s = Some p \<longrightarrow> position_inv S s p)
      \<and> (\<forall>i p. map_of (hc_permits S) i = Some p \<longrightarrow> permit_inv S p)
      \<and> (\<forall>slot i. map_of (hc_ious S) slot = Some i \<longrightarrow> iou_inv S slot i))"

lemma credit_invI:
  assumes "bt_wf (hc_accounts S)" "bt_wf (hc_permits S)" "bt_wf (hc_ious S)"
    "unat (cp_repayment_ppm (hc_policy S)) \<le> 1000000"
    "distinct (hc_canonical_order S)" "set (hc_canonical_order S) = fst ` set (hc_ious S)"
    "\<And>s p. map_of (hc_accounts S) s = Some p \<Longrightarrow> position_inv S s p"
    "\<And>i p. map_of (hc_permits S) i = Some p \<Longrightarrow> permit_inv S p"
    "\<And>slot i. map_of (hc_ious S) slot = Some i \<Longrightarrow> iou_inv S slot i"
  shows "credit_inv S"
  using assms unfolding credit_inv_def by blast

lemma credit_invD:
  assumes "credit_inv S"
  shows "bt_wf (hc_accounts S)" "bt_wf (hc_permits S)" "bt_wf (hc_ious S)"
    "unat (cp_repayment_ppm (hc_policy S)) \<le> 1000000"
    "distinct (hc_canonical_order S)" "set (hc_canonical_order S) = fst ` set (hc_ious S)"
    "\<And>s p. map_of (hc_accounts S) s = Some p \<Longrightarrow> position_inv S s p"
    "\<And>i p. map_of (hc_permits S) i = Some p \<Longrightarrow> permit_inv S p"
    "\<And>slot i. map_of (hc_ious S) slot = Some i \<Longrightarrow> iou_inv S slot i"
  using assms unfolding credit_inv_def by blast+

lemma credit_new_inv:
  assumes "credit_new policy = Inr S"
  shows "credit_inv S"
proof (rule credit_invI)
  have S: "S = \<lparr>hc_policy = policy, hc_accounts = [], hc_permits = [], hc_ious = [], hc_canonical_order = []\<rparr>"
    and ppm: "\<not> ucast (cp_repayment_ppm policy) > MILLION" using assms by (auto simp: credit_new_def split: if_splits)
  have "unat (ucast (cp_repayment_ppm policy) :: u128) \<le> 1000000"
    using ppm by (simp add: word_less_nat_alt MILLION_def)
  then show "unat (cp_repayment_ppm (hc_policy S)) \<le> 1000000" by (simp add: S)
qed (use assms in \<open>auto simp: credit_new_def split: if_splits\<close>)

lemma enroll_inv:
  assumes inv: "credit_inv S" and e: "enroll S subject cap = Inr S'"
  shows "credit_inv S'"
proof -
  note I = credit_invD [OF inv]
  let ?p = "\<lparr>ps_cap = cap, ps_debt = 0, ps_unused_authorized = 0, ps_repayment_remainder = 0, ps_last_share = None\<rparr>"
  from e have S': "S' = S\<lparr>hc_accounts := bt_insert subject ?p (hc_accounts S)\<rparr>"
    and new: "map_of (hc_accounts S) subject = None" and cap: "cap \<le> cp_max_debt_per_human (hc_policy S)"
    by (auto simp: enroll_def split: if_splits)
  have d0: "bt_total (debt_of subject) (hc_ious S) = 0"
    using I(9) new by (intro bt_total_0 [OF _ I(3)]) (fastforce simp: iou_inv_def debt_of_def)
  have a0: "bt_total (allowance_of subject) (hc_permits S) = 0"
    using I(8) new by (intro bt_total_0 [OF _ I(2)]) (fastforce simp: permit_inv_def allowance_of_def)
  show ?thesis
  proof (rule credit_invI)
    fix s p assume "map_of (hc_accounts S') s = Some p"
    then show "position_inv S' s p"
    proof (cases "s = subject")
      case False
      with I(7) [of s p] \<open>map_of (hc_accounts S') s = Some p\<close> show ?thesis by (simp add: S' position_inv_def)
    qed (use d0 a0 cap in \<open>auto simp: S' position_inv_def\<close>)
  qed (use I in \<open>auto simp: S' permit_inv_def iou_inv_def\<close>)
qed

lemma capacity_Inr:
  "new_allowance_capacity S subject = Inr c \<longleftrightarrow>
     (\<exists>p. map_of (hc_accounts S) subject = Some p \<and> unat c + unat (ps_unused_authorized p) + unat (ps_debt p) = unat (ps_cap p))"
proof -
  have "(case checked_sub (ps_cap p) (ps_debt p) of None \<Rightarrow> None | Some v \<Rightarrow> checked_sub v (ps_unused_authorized p)) = Some c
      \<longleftrightarrow> unat c + unat (ps_unused_authorized p) + unat (ps_debt p) = unat (ps_cap p)" for p :: Position
  proof (cases "checked_sub (ps_cap p) (ps_debt p)")
    case None
    then have "unat (ps_cap p) < unat (ps_debt p)" by (simp add: checked_sub_def word_less_nat_alt not_le split: if_splits)
    with None show ?thesis by simp
  next
    case (Some v)
    then have "unat v + unat (ps_debt p) = unat (ps_cap p)" by (simp add: checked_sub_Some)
    then show ?thesis unfolding Some option.case checked_sub_Some by linarith
  qed
  then show ?thesis by (simp only: new_allowance_capacity_def andThen_eq_Inr ok_or_eq_Inr)
qed

lemma register_Inr:
  assumes "register_permit S subject permit h = Inr (b, S')"
  obtains (replay) "b = False" "S' = S"
  | (fresh) p u where "b = True" "map_of (hc_permits S) (vcp_id permit) = None" "map_of (hc_accounts S) subject = Some p"
      "unat u = unat (ps_unused_authorized p) + unat (pt_limit_micro (vcp_terms permit))"
      "unat (ps_debt p) + unat u \<le> unat (ps_cap p)"
      "S' = S\<lparr>hc_accounts := bt_insert subject (p\<lparr>ps_unused_authorized := u\<rparr>) (hc_accounts S),
        hc_permits := bt_insert (vcp_id permit) \<lparr>pm_subject = subject, pm_verified = permit, pm_used = 0, pm_expired = False\<rparr> (hc_permits S)\<rparr>"
proof (cases "map_of (hc_permits S) (vcp_id permit)")
  case None
  with assms obtain c p u where "new_allowance_capacity S subject = Inr c" "pt_limit_micro (vcp_terms permit) \<le> c"
      "map_of (hc_accounts S) subject = Some p" "unat u = unat (ps_unused_authorized p) + unat (pt_limit_micro (vcp_terms permit))"
      "b = True"
      "S' = S\<lparr>hc_accounts := bt_insert subject (p\<lparr>ps_unused_authorized := u\<rparr>) (hc_accounts S),
        hc_permits := bt_insert (vcp_id permit) \<lparr>pm_subject = subject, pm_verified = permit, pm_used = 0, pm_expired = False\<rparr> (hc_permits S)\<rparr>"
    by (auto simp: register_permit_def Let_def checked_add_Some not_less split: if_splits)
  then show ?thesis using None by (intro fresh) (auto simp: capacity_Inr word_le_nat_alt)
next
  case (Some old)
  with assms show ?thesis by (intro replay) (auto simp: register_permit_def Let_def split: if_splits)
qed

lemma register_inv:
  assumes inv: "credit_inv S" and r: "register_permit S subject permit h = Inr (b, S')"
  shows "credit_inv S'"
  using r
proof (cases rule: register_Inr)
  case replay
  with inv show ?thesis by simp
next
  case (fresh p u)
  note I = credit_invD [OF inv] and S' = fresh(6)
  have at: "bt_total (allowance_of s) (hc_permits S') = bt_total (allowance_of s) (hc_permits S)
      + (if s = subject then unat (pt_limit_micro (vcp_terms permit)) else 0)" for s
    using fresh(2) by (auto simp: S' bt_total_new [OF I(2)] allowance_of_def)
  show ?thesis
  proof (rule credit_invI)
    fix s q assume q: "map_of (hc_accounts S') s = Some q"
    show "position_inv S' s q"
    proof (cases "s = subject")
      case True
      then have "q = p\<lparr>ps_unused_authorized := u\<rparr>" using q by (simp add: S')
      with I(7) [OF fresh(3)] fresh(4,5) at [of s] True show ?thesis by (simp add: position_inv_def) (simp add: S')
    next
      case False
      with q I(7) [of s q] at [of s] show ?thesis by (simp add: position_inv_def) (simp add: S')
    qed
  next
    fix i q assume "map_of (hc_permits S') i = Some q"
    then show "permit_inv S' q" using I(8) fresh(3) by (auto simp: S' permit_inv_def split: if_splits)
  next
    fix slot i assume "map_of (hc_ious S') slot = Some i"
    then have "iou_inv S slot i" using I(9) by (simp add: S')
    then show "iou_inv S' slot i" by (auto simp: S' iou_inv_def)
  qed (use I in \<open>auto simp: S'\<close>)
qed

lemma record_Inr:
  assumes "record_iou S iou h = Inr (b, S')"
  obtains (replay) "b = False" "S' = S"
  | (fresh) permit used p d u where "b = True"
      "map_of (hc_ious S) (it_permit_id (vci_terms iou), it_sequence (vci_terms iou)) = None"
      "map_of (hc_permits S) (it_permit_id (vci_terms iou)) = Some permit" "\<not> pm_expired permit"
      "unat used = unat (pm_used permit) + unat (it_amount_micro (vci_terms iou))"
      "used \<le> pt_limit_micro (vcp_terms (pm_verified permit))"
      "map_of (hc_accounts S) (pm_subject permit) = Some p"
      "unat d = unat (ps_debt p) + unat (it_amount_micro (vci_terms iou))"
      "unat u + unat (it_amount_micro (vci_terms iou)) = unat (ps_unused_authorized p)"
      "S' = S\<lparr>hc_permits := bt_insert (it_permit_id (vci_terms iou)) (permit\<lparr>pm_used := used\<rparr>) (hc_permits S),
         hc_accounts := bt_insert (pm_subject permit) (p\<lparr>ps_debt := d, ps_unused_authorized := u\<rparr>) (hc_accounts S),
         hc_ious := bt_insert (it_permit_id (vci_terms iou), it_sequence (vci_terms iou))
           \<lparr>io_subject = pm_subject permit, io_digest = vci_digest iou, io_payee = it_payee_commitment (vci_terms iou),
            io_remaining = it_amount_micro (vci_terms iou)\<rparr> (hc_ious S),
         hc_canonical_order := hc_canonical_order S @ [(it_permit_id (vci_terms iou), it_sequence (vci_terms iou))]\<rparr>"
proof (cases "map_of (hc_ious S) (it_permit_id (vci_terms iou), it_sequence (vci_terms iou))")
  case None
  with assms show ?thesis
    by (auto simp: record_iou_def Let_def checked_add_Some checked_sub_Some not_less split: if_splits intro!: fresh)
next
  case (Some prior)
  with assms show ?thesis by (intro replay) (auto simp: record_iou_def Let_def split: if_splits)
qed

lemma record_inv:
  assumes inv: "credit_inv S" and r: "record_iou S iou h = Inr (b, S')"
  shows "credit_inv S'"
  using r
proof (cases rule: record_Inr)
  case replay
  with inv show ?thesis by simp
next
  case (fresh permit used p d u)
  note I = credit_invD [OF inv] and S' = fresh(10)
  let ?a = "unat (it_amount_micro (vci_terms iou))"
  have dt: "bt_total (debt_of s) (hc_ious S') = bt_total (debt_of s) (hc_ious S) + (if s = pm_subject permit then ?a else 0)" for s
    using fresh(2) by (auto simp: S' bt_total_new [OF I(3)] debt_of_def)
  have at: "bt_total (allowance_of s) (hc_permits S') + (if s = pm_subject permit then ?a else 0)
      = bt_total (allowance_of s) (hc_permits S)" for s
    using bt_total_write [OF I(2) fresh(3), of "allowance_of s" "permit\<lparr>pm_used := used\<rparr>"] fresh(4,5,6)
    by (auto simp: S' allowance_of_def word_le_nat_alt split: if_splits)
  show ?thesis
  proof (rule credit_invI)
    fix s q assume q: "map_of (hc_accounts S') s = Some q"
    show "position_inv S' s q"
    proof (cases "s = pm_subject permit")
      case True
      then have "q = p\<lparr>ps_debt := d, ps_unused_authorized := u\<rparr>" using q by (simp add: S')
      with I(7) [OF fresh(7)] fresh(8,9) dt [of s] at [of s] True show ?thesis by (simp add: position_inv_def) (simp add: S')
    next
      case False
      with q I(7) [of s q] dt [of s] at [of s] show ?thesis by (simp add: position_inv_def) (simp add: S')
    qed
  next
    fix i q assume "map_of (hc_permits S') i = Some q"
    then show "permit_inv S' q" using I(8) fresh(3,6,7) by (auto simp: S' permit_inv_def split: if_splits)
  next
    fix slot i assume "map_of (hc_ious S') slot = Some i"
    then show "iou_inv S' slot i" using I(9) fresh(3,7) by (auto simp: S' iou_inv_def split: if_splits)
  next
    show "distinct (hc_canonical_order S')" using I(5,6) fresh(2) by (simp add: S' map_of_eq_None_iff)
    show "set (hc_canonical_order S') = fst ` set (hc_ious S')" using I(6) by (simp add: S' fst_set_bt_insert)
  qed (use I in \<open>auto simp: S'\<close>)
qed

lemma expire_Inr:
  assumes "expire_permit S i h = Inr S'"
  obtains (idle) "S' = S"
  | (expired) permit p u and r :: u64 where "map_of (hc_permits S) i = Some permit" "\<not> pm_expired permit"
      "map_of (hc_accounts S) (pm_subject permit) = Some p"
      "unat r + unat (pm_used permit) = unat (pt_limit_micro (vcp_terms (pm_verified permit)))"
      "unat u + unat r = unat (ps_unused_authorized p)"
      "S' = S\<lparr>hc_accounts := bt_insert (pm_subject permit) (p\<lparr>ps_unused_authorized := u\<rparr>) (hc_accounts S),
         hc_permits := bt_insert i (permit\<lparr>pm_expired := True\<rparr>) (hc_permits S)\<rparr>"
proof -
  from assms obtain permit where m: "map_of (hc_permits S) i = Some permit" by (auto simp: expire_permit_def)
  show ?thesis
  proof (cases "pm_expired permit")
    case True
    with assms m show ?thesis by (intro idle) (simp add: expire_permit_def)
  next
    case False
    with assms m show ?thesis by (auto simp: expire_permit_def checked_sub_Some split: if_splits intro!: expired)
  qed
qed

lemma expire_inv:
  assumes inv: "credit_inv S" and r: "expire_permit S i h = Inr S'"
  shows "credit_inv S'"
  using r
proof (cases rule: expire_Inr)
  case idle
  with inv show ?thesis by simp
next
  case (expired permit p u r)
  note I = credit_invD [OF inv] and S' = expired(6)
  let ?l = "unat r"
  have at: "bt_total (allowance_of s) (hc_permits S') + (if s = pm_subject permit then ?l else 0)
      = bt_total (allowance_of s) (hc_permits S)" for s
    using bt_total_write [OF I(2) expired(1), of "allowance_of s" "permit\<lparr>pm_expired := True\<rparr>"] expired(2,4)
    by (auto simp: S' allowance_of_def split: if_splits)
  show ?thesis
  proof (rule credit_invI)
    fix s q assume q: "map_of (hc_accounts S') s = Some q"
    show "position_inv S' s q"
    proof (cases "s = pm_subject permit")
      case True
      then have "q = p\<lparr>ps_unused_authorized := u\<rparr>" using q by (simp add: S')
      with I(7) [OF expired(3)] expired(5) at [of s] True show ?thesis by (simp add: position_inv_def) (simp add: S')
    next
      case False
      with q I(7) [of s q] at [of s] show ?thesis by (simp add: position_inv_def) (simp add: S')
    qed
  next
    fix j q assume "map_of (hc_permits S') j = Some q"
    then show "permit_inv S' q" using I(8) expired(1,3) by (auto simp: S' permit_inv_def split: if_splits)
  next
    fix slot j assume "map_of (hc_ious S') slot = Some j"
    then have "iou_inv S slot j" using I(9) by (simp add: S')
    then show "iou_inv S' slot j" using expired(1,3) by (auto simp: S' iou_inv_def)
  qed (use I in \<open>auto simp: S'\<close>)
qed

section \<open>Releasing share\<close>

lemma unat_MILLION [simp]: "unat MILLION = 1000000"
  by (simp add: MILLION_def)

lemma permitted_split:
  "(n div 1000000) * ppm + ((n mod 1000000) * ppm + rem) div 1000000 = (n * ppm + rem) div (1000000 :: nat)"
proof -
  have "(q * 1000000 + r) * ppm + rem = (r * ppm + rem) + 1000000 * (q * ppm)" for q r by (simp add: algebra_simps)
  from this [of "n div 1000000" "n mod 1000000"]
  have "n * ppm + rem = (n mod 1000000 * ppm + rem) + 1000000 * (n div 1000000 * ppm)" by (simp only: div_mult_mod_eq)
  then show ?thesis by simp
qed

lemma permitted_le:
  assumes "ppm \<le> 1000000" "rem < 1000000" "ppm = 1000000 \<longrightarrow> rem = 0"
  shows "(n * ppm + rem) div 1000000 \<le> (n :: nat)"
proof (cases "ppm = 1000000")
  case False
  then have "n * ppm \<le> n * 999999" using assms(1) by (intro mult_le_mono) simp_all
  then have "n * ppm + rem < n * 1000000 + 1000000" using assms(2) by linarith
  then show ?thesis using less_mult_imp_div_less [of "n * ppm + rem" "n + 1" 1000000] by simp
qed (use assms in simp)

lemma release_budget_ok:
  assumes ppm: "unat (cp_repayment_ppm policy) \<le> 1000000" and rem: "unat (ps_repayment_remainder p) < 1000000"
    "unat (cp_repayment_ppm policy) = 1000000 \<longrightarrow> ps_repayment_remainder p = 0"
  shows "\<exists>repay frac. release_budget policy p n = Inr (repay, frac)
    \<and> unat frac = (unat n mod 1000000) * unat (cp_repayment_ppm policy) + unat (ps_repayment_remainder p)
    \<and> unat repay = min ((unat n * unat (cp_repayment_ppm policy) + unat (ps_repayment_remainder p)) div 1000000) (unat (ps_debt p))
    \<and> unat repay \<le> unat n"
proof -
  let ?q = "unat (cp_repayment_ppm policy)" and ?r = "unat (ps_repayment_remainder p)" and ?w = "ucast (cp_repayment_ppm policy) :: u128"
  let ?part = "n mod MILLION * ?w" and ?P = "(unat n * ?q + ?r) div 1000000"
  have P: "?P \<le> unat n" using permitted_le [of ?q ?r "unat n"] ppm rem by simp
  have n: "unat n < 2 ^ 128" using unsigned_less [of n, where ?'a = nat] by simp
  have "(unat n mod 1000000) * ?q \<le> 1000000 * 1000000" using ppm by (intro mult_le_mono) simp_all
  then have b1: "unat (n mod MILLION) * unat ?w < 2 ^ LENGTH(128)" by (simp add: unat_mod_distrib)
  then have u1: "unat ?part = (unat n mod 1000000) * ?q" by (subst (asm) unat_mult_lem) (simp add: unat_mod_distrib)
  have b2: "unat ?part + ?r < 2 ^ LENGTH(128)" using \<open>_ \<le> 1000000 * 1000000\<close> rem by (simp add: u1)
  then have u2: "unat (?part + ps_repayment_remainder p) = (unat n mod 1000000) * ?q + ?r"
    by (subst (asm) unat_add_lem) (simp add: u1)
  have sp: "unat n div 1000000 * ?q + ((unat n mod 1000000) * ?q + ?r) div 1000000 = ?P" by (rule permitted_split)
  have b3: "unat (n div MILLION) * unat ?w < 2 ^ LENGTH(128)" using sp P n by (simp add: unat_div_distrib)
  then have u3: "unat (n div MILLION * ?w) = unat n div 1000000 * ?q" by (subst (asm) unat_mult_lem) (simp add: unat_div_distrib)
  have b4: "unat (n div MILLION * ?w) + unat ((?part + ps_repayment_remainder p) div MILLION) < 2 ^ LENGTH(128)"
    using sp P n by (simp add: u3 unat_div_distrib u2)
  let ?perm = "n div MILLION * ?w + (?part + ps_repayment_remainder p) div MILLION"
  have u4: "unat ?perm = ?P" using b4 sp by (subst (asm) unat_add_lem) (simp add: u3 unat_div_distrib u2)
  have m: "unat (min ?perm (ucast (ps_debt p))) = min ?P (unat (ps_debt p))"
    by (simp add: min_def word_le_nat_alt u4)
  moreover have "unat (ps_debt p) < 2 ^ 64" using unsigned_less [of "ps_debt p", where ?'a = nat] by simp
  ultimately have "unat (ucast (min ?perm (ucast (ps_debt p))) :: u64) = min ?P (unat (ps_debt p))"
    by (simp add: unsigned_ucast_eq take_bit_nat_eq_self)
  moreover have "release_budget policy p n = Inr (ucast (min ?perm (ucast (ps_debt p))), ?part + ps_repayment_remainder p)"
    by (simp add: release_budget_def Let_def ck_ok(1) [OF b2] ck_ok(1) [OF b4] ck_ok(2) [OF b1] ck_ok(2) [OF b3])
  ultimately show ?thesis using u2 P by auto
qed

text \<open>Oldest first: the amounts the loop pays, as a function of what each IOU still owes.\<close>

fun oldest_first :: "nat \<Rightarrow> nat list \<Rightarrow> nat list" where
  "oldest_first b [] = []"
| "oldest_first b (x # xs) =
     (if b = 0 then [] else if x = 0 then oldest_first b xs else min b x # oldest_first (b - min b x) xs)"

definition owed :: "bytes \<Rightarrow> (bytes \<times> u64, Iou) btree \<Rightarrow> bytes \<times> u64 \<Rightarrow> nat" where
  "owed subject m slot = val_or0 (debt_of subject) (map_of m slot)"

definition paid :: "CreditRepayment list \<Rightarrow> nat list" where
  "paid out = map (\<lambda>r. unat (rp_amount_micro r)) out"

lemma paid_simps [simp]: "paid [] = []" "paid (r # out) = unat (rp_amount_micro r) # paid out"
  by (simp_all add: paid_def)

lemma oldest_first_sum: "b \<le> sum_list xs \<Longrightarrow> sum_list (oldest_first b xs) = b"
proof (induction b xs rule: oldest_first.induct)
  case (2 b x xs)
  then show ?case by (cases "b \<le> x") auto
qed simp

lemma oldest_first_0 [simp]: "oldest_first 0 xs = []"
  by (cases xs) simp_all

lemma total_over_order:
  assumes "bt_wf m" "distinct order" "set order = fst ` set m"
  shows "bt_total f m = (\<Sum>k\<leftarrow>order. val_or0 f (map_of m k))"
proof -
  note d = bt_wf_distinct [OF assms(1)]
  have "(\<Sum>k\<leftarrow>order. val_or0 f (map_of m k)) = (\<Sum>k \<in> fst ` set m. val_or0 f (map_of m k))"
    using assms(2,3) by (simp add: sum_list_distinct_conv_sum_set)
  also have "\<dots> = (\<Sum>k\<leftarrow>map fst m. val_or0 f (map_of m k))"
    using d by (simp only: sum_list_distinct_conv_sum_set set_map)
  also have "\<dots> = (\<Sum>e\<leftarrow>m. f (snd e))"
    using d by (auto simp: comp_def map_of_is_SomeI split_beta intro!: arg_cong [where f = sum_list] map_cong)
  finally show ?thesis by (simp add: bt_total_def)
qed

lemma repay_loop_ok:
  assumes "bt_wf m" "distinct slots" "\<And>k. k \<in> set slots \<Longrightarrow> map_of m k \<noteq> None" "unat b \<le> (\<Sum>k\<leftarrow>slots. owed s m k)"
  shows "\<exists>m' out'. repay_loop s slots b m out = Inr (0, m', out @ out') \<and> bt_wf m' \<and> fst ` set m' = fst ` set m
    \<and> paid out' = oldest_first (unat b) (map (owed s m) slots)
    \<and> (\<forall>t. bt_total (debt_of t) m' + (if t = s then unat b else 0) = bt_total (debt_of t) m)
    \<and> (\<forall>k. map_option io_subject (map_of m' k) = map_option io_subject (map_of m k))"
  using assms
proof (induction slots arbitrary: b m out)
  case Nil
  then have "b = 0" by (simp add: unat_eq_0)
  with Nil show ?case by simp
next
  case (Cons k slots)
  obtain i where i: "map_of m k = Some i" using Cons.prems(3) [of k] by auto
  show ?case
  proof (cases "b = 0 \<or> io_subject i \<noteq> s \<or> io_remaining i = 0")
    case True
    then show ?thesis
    proof (cases "b = 0")
      case False
      then have o: "owed s m k = 0" using True i by (auto simp: owed_def debt_of_def)
      then have le: "unat b \<le> (\<Sum>k\<leftarrow>slots. owed s m k)" using Cons.prems(4) by simp
      have d: "distinct slots" "\<And>k. k \<in> set slots \<Longrightarrow> map_of m k \<noteq> None" using Cons.prems(2,3) by simp_all
      have eq: "repay_loop s (k # slots) b m out = repay_loop s slots b m out" using False True i by simp
      have "oldest_first (unat b) (map (owed s m) (k # slots)) = oldest_first (unat b) (map (owed s m) slots)"
        using o False by (simp add: unat_eq_0)
      with Cons.IH [OF Cons.prems(1) d le, of out] show ?thesis unfolding eq by simp
    qed (use Cons.prems in auto)
  next
    case False
    define a where "a = min b (io_remaining i)"
    define m1 where "m1 = bt_insert k (i\<lparr>io_remaining := io_remaining i - a\<rparr>) m"
    let ?rp = "\<lparr>rp_iou_digest = io_digest i, rp_payee_commitment = io_payee i, rp_amount_micro = a\<rparr>"
    have ua: "unat a = min (unat b) (unat (io_remaining i))" by (simp add: a_def min_def word_le_nat_alt)
    have ub: "unat (b - a) = unat b - unat a" and ur: "unat (io_remaining i - a) = unat (io_remaining i) - unat a"
      by (simp_all add: unat_sub a_def)
    have o: "owed s m k = unat (io_remaining i)" using False i by (simp add: owed_def debt_of_def)
    have same: "owed s m1 x = owed s m x" if "x \<in> set slots" for x
      using that Cons.prems(2) by (auto simp: m1_def owed_def)
    have le: "unat (b - a) \<le> (\<Sum>k\<leftarrow>slots. owed s m1 k)"
      using Cons.prems(4) o same by (simp add: ub ua cong: map_cong)
    have d: "distinct slots" "\<And>x. x \<in> set slots \<Longrightarrow> map_of m1 x \<noteq> None"
      using Cons.prems(2,3) by (auto simp: m1_def)
    have wf: "bt_wf m1" using Cons.prems(1) by (simp add: m1_def)
    have tot: "bt_total (debt_of t) m1 + (if t = s then unat a else 0) = bt_total (debt_of t) m" for t
      using bt_total_write [OF Cons.prems(1) i, of "debt_of t" "i\<lparr>io_remaining := io_remaining i - a\<rparr>"] False
      by (auto simp: m1_def debt_of_def ur ua)
    have keys: "fst ` set m1 = fst ` set m" using i by (auto simp: m1_def fst_set_bt_insert fst_set_map_of)
    have subj: "map_option io_subject (map_of m1 x) = map_option io_subject (map_of m x)" for x using i by (simp add: m1_def)
    have pays: "oldest_first (unat b) (map (owed s m) (k # slots)) = unat a # oldest_first (unat (b - a)) (map (owed s m1) slots)"
      using False o same by (auto simp: ua ub unat_eq_0 cong: map_cong)
    have eq: "repay_loop s (k # slots) b m out = repay_loop s slots (b - a) m1 (out @ [?rp])"
      using False i by (simp add: a_def m1_def Let_def)
    from Cons.IH [OF wf d le, of "out @ [?rp]"] obtain m' out' where
      r: "repay_loop s slots (b - a) m1 (out @ [?rp]) = Inr (0, m', (out @ [?rp]) @ out')" "bt_wf m'" "fst ` set m' = fst ` set m1"
        "paid out' = oldest_first (unat (b - a)) (map (owed s m1) slots)"
        "\<forall>t. bt_total (debt_of t) m' + (if t = s then unat (b - a) else 0) = bt_total (debt_of t) m1"
        "\<forall>k. map_option io_subject (map_of m' k) = map_option io_subject (map_of m1 k)" by blast
    have "bt_total (debt_of t) m' + (if t = s then unat b else 0) = bt_total (debt_of t) m" for t
      using r(5) [rule_format, of t] tot [of t] ua by (auto simp: ub)
    then show ?thesis using r keys subj pays eq by (intro exI [of _ m'] exI [of _ "?rp # out'"]) simp
  qed
qed

text \<open>
  The IOUs a human still owes, oldest first; what a repayment of \<open>n\<close> pays on each of them, with its
  digest and payee; and what it leaves of them.
\<close>

definition outstanding :: "bytes \<Rightarrow> (bytes \<times> u64, Iou) btree \<Rightarrow> (bytes \<times> u64) list \<Rightarrow> Iou list" where
  "outstanding subject m slots =
     concat (map (\<lambda>k. case map_of m k of None \<Rightarrow> []
       | Some i \<Rightarrow> if io_subject i = subject \<and> io_remaining i \<noteq> 0 then [i] else []) slots)"

fun pay_oldest :: "nat \<Rightarrow> Iou list \<Rightarrow> (bytes \<times> bytes \<times> nat) list" where
  "pay_oldest n [] = []"
| "pay_oldest n (i # is) =
     (if n = 0 then [] else (io_digest i, io_payee i, min n (unat (io_remaining i))) # pay_oldest (n - unat (io_remaining i)) is)"

fun leave_oldest :: "nat \<Rightarrow> Iou list \<Rightarrow> Iou list" where
  "leave_oldest n [] = []"
| "leave_oldest n (i # is) =
     (if n < unat (io_remaining i) then i\<lparr>io_remaining := io_remaining i - of_nat n\<rparr> # is
      else leave_oldest (n - unat (io_remaining i)) is)"

definition receipt :: "CreditRepayment \<Rightarrow> bytes \<times> bytes \<times> nat" where
  "receipt r = (rp_iou_digest r, rp_payee_commitment r, unat (rp_amount_micro r))"

lemma outstanding_simps [simp]:
  "outstanding s m [] = []"
  "outstanding s m (k # slots) = (case map_of m k of None \<Rightarrow> []
     | Some i \<Rightarrow> if io_subject i = s \<and> io_remaining i \<noteq> 0 then [i] else []) @ outstanding s m slots"
  by (simp_all add: outstanding_def)

lemma outstanding_cong: "(\<And>k. k \<in> set slots \<Longrightarrow> map_of m k = map_of m' k) \<Longrightarrow> outstanding s m slots = outstanding s m' slots"
  by (simp add: outstanding_def cong: map_cong)

lemma pay_oldest_0 [simp]: "pay_oldest 0 is = []"
  by (cases "is") simp_all

lemma leave_oldest_0 [simp]: "leave_oldest 0 (outstanding s m slots) = outstanding s m slots"
  by (induction slots) (auto simp: unat_gt_0 split: option.splits)

lemma repay_loop_book:
  assumes "distinct slots" "repay_loop s slots b m out = Inr (b', m', out')"
  shows "\<exists>new. out' = out @ new \<and> map receipt new = pay_oldest (unat b) (outstanding s m slots)
    \<and> outstanding s m' slots = leave_oldest (unat b) (outstanding s m slots)
    \<and> (\<forall>t. t \<noteq> s \<longrightarrow> outstanding t m' slots = outstanding t m slots)
    \<and> (\<forall>k. k \<notin> set slots \<longrightarrow> map_of m' k = map_of m k)"
  using assms
proof (induction slots arbitrary: b m out)
  case (Cons k slots)
  show ?case
  proof (cases "b = 0")
    case True
    with Cons.prems(2) show ?thesis using leave_oldest_0 [of s m "k # slots"] by simp
  next
    case b: False
    then obtain i where i: "map_of m k = Some i" using Cons.prems(2) by (auto split: option.splits)
    have k: "distinct slots" "k \<notin> set slots" using Cons.prems(1) by simp_all
    show ?thesis
    proof (cases "io_subject i \<noteq> s \<or> io_remaining i = 0")
      case True
      with b i Cons.prems(2) have "repay_loop s slots b m out = Inr (b', m', out')" by simp
      from Cons.IH [OF k(1) this] obtain new where
        n: "out' = out @ new" "map receipt new = pay_oldest (unat b) (outstanding s m slots)"
          "outstanding s m' slots = leave_oldest (unat b) (outstanding s m slots)"
          "\<And>t. t \<noteq> s \<Longrightarrow> outstanding t m' slots = outstanding t m slots" "\<And>k. k \<notin> set slots \<Longrightarrow> map_of m' k = map_of m k"
        by blast
      have mk: "map_of m' k = Some i" using n(5) [OF k(2)] i by simp
      show ?thesis using n True by (intro exI [of _ new]) (simp add: mk i)
    next
      case False
      define a where "a = min b (io_remaining i)"
      define m1 where "m1 = bt_insert k (i\<lparr>io_remaining := io_remaining i - a\<rparr>) m"
      let ?rp = "\<lparr>rp_iou_digest = io_digest i, rp_payee_commitment = io_payee i, rp_amount_micro = a\<rparr>"
      have "repay_loop s slots (b - a) m1 (out @ [?rp]) = Inr (b', m', out')"
        using Cons.prems(2) b False i by (simp add: a_def m1_def Let_def)
      from Cons.IH [OF k(1) this] obtain new where
        n: "out' = out @ ?rp # new" "map receipt new = pay_oldest (unat (b - a)) (outstanding s m1 slots)"
          "outstanding s m' slots = leave_oldest (unat (b - a)) (outstanding s m1 slots)"
          "\<And>t. t \<noteq> s \<Longrightarrow> outstanding t m' slots = outstanding t m1 slots" "\<And>k. k \<notin> set slots \<Longrightarrow> map_of m' k = map_of m1 k"
        by auto
      have o: "outstanding t m1 slots = outstanding t m slots" for t
        by (rule outstanding_cong) (use k(2) in \<open>auto simp: m1_def\<close>)
      have mk: "map_of m' k = Some (i\<lparr>io_remaining := io_remaining i - a\<rparr>)" using n(5) k(2) by (simp add: m1_def)
      have ub: "unat a = min (unat b) (unat (io_remaining i))" "unat (b - a) = unat b - unat (io_remaining i)"
        by (auto simp: a_def min_def word_le_nat_alt unat_sub)
      have "outstanding s m' (k # slots) = leave_oldest (unat b) (outstanding s m (k # slots))"
      proof (cases "unat b < unat (io_remaining i)")
        case True
        then have "a = b" "io_remaining i - b \<noteq> 0" by (auto simp: a_def min_def word_le_nat_alt)
        with True False show ?thesis using n(3) by (simp add: mk i o)
      next
        case nb: False
        then have "a = io_remaining i" by (simp add: a_def min_absorb2 word_le_nat_alt)
        with nb False show ?thesis using n(3) ub by (simp add: mk i o)
      qed
      moreover have "map receipt (?rp # new) = pay_oldest (unat b) (outstanding s m (k # slots))"
        using n(2) False b ub by (simp add: i o receipt_def unat_eq_0)
      moreover have "outstanding t m' (k # slots) = outstanding t m (k # slots)" if "t \<noteq> s" for t
        using n(4) [OF that] False that by (simp add: mk i o)
      moreover have "map_of m' x = map_of m x" if "x \<notin> set (k # slots)" for x
        using n(5) that by (simp add: m1_def)
      ultimately show ?thesis using n(1) by (intro exI [of _ "?rp # new"]) blast
    qed
  qed
qed simp

text \<open>What a release of \<open>n\<close> may repay of the debt of a position.\<close>

definition due :: "CreditPolicy \<Rightarrow> Position \<Rightarrow> Amount \<Rightarrow> nat" where
  "due policy p n =
     min ((unat n * unat (cp_repayment_ppm policy) + unat (ps_repayment_remainder p)) div 1000000) (unat (ps_debt p))"

definition release_split :: "HumanShareCredit \<Rightarrow> bytes \<Rightarrow> Position \<Rightarrow> Amount \<Rightarrow> ShareRepayment \<Rightarrow> bool" where
  "release_split S s p gross split =
     (sh_gross_released split = gross
      \<and> unat gross = unat (sh_recipient_available split) + sum_list (paid (sh_repayments split))
      \<and> sum_list (paid (sh_repayments split)) = due (hc_policy S) p gross
      \<and> unat (sh_remaining_debt_micro split) + due (hc_policy S) p gross = unat (ps_debt p)
      \<and> map receipt (sh_repayments split) = pay_oldest (due (hc_policy S) p gross) (outstanding s (hc_ious S) (hc_canonical_order S)))"

text \<open>The ledger after a release: the oldest IOUs are paid down, the position keeps the new fraction.\<close>

definition released_position :: "HumanShareCredit \<Rightarrow> Position \<Rightarrow> u64 \<Rightarrow> Amount \<Rightarrow> ShareRepayment \<Rightarrow> Position" where
  "released_position S p e gross split =
     p\<lparr>ps_debt := sh_remaining_debt_micro split,
       ps_repayment_remainder := (if sh_remaining_debt_micro split = 0 then 0
         else of_nat ((unat gross * unat (cp_repayment_ppm (hc_policy S)) + unat (ps_repayment_remainder p)) mod 1000000)),
       ps_last_share := Some (e, split)\<rparr>"

definition released_ledger ::
  "HumanShareCredit \<Rightarrow> bytes \<Rightarrow> Position \<Rightarrow> u64 \<Rightarrow> Amount \<Rightarrow> ShareRepayment \<Rightarrow> HumanShareCredit \<Rightarrow> bool" where
  "released_ledger S s p e gross split S' =
     (S' = S\<lparr>hc_ious := hc_ious S', hc_accounts := bt_insert s (released_position S p e gross split) (hc_accounts S)\<rparr>
      \<and> outstanding s (hc_ious S') (hc_canonical_order S)
          = leave_oldest (due (hc_policy S) p gross) (outstanding s (hc_ious S) (hc_canonical_order S))
      \<and> (\<forall>t. t \<noteq> s \<longrightarrow> outstanding t (hc_ious S') (hc_canonical_order S) = outstanding t (hc_ious S) (hc_canonical_order S)))"

lemma released_inv:
  assumes inv: "credit_inv S" and p: "map_of (hc_accounts S) s = Some p"
    and m: "bt_wf m" "fst ` set m = fst ` set (hc_ious S)"
      "\<And>t. bt_total (debt_of t) m + (if t = s then d else 0) = bt_total (debt_of t) (hc_ious S)"
      "\<And>k. map_option io_subject (map_of m k) = map_option io_subject (map_of (hc_ious S) k)"
    and q: "unat (ps_debt q) + d = unat (ps_debt p)" "ps_unused_authorized q = ps_unused_authorized p" "ps_cap q = ps_cap p"
      "unat (ps_repayment_remainder q) < 1000000"
      "unat (cp_repayment_ppm (hc_policy S)) = 1000000 \<longrightarrow> ps_repayment_remainder q = 0"
  shows "credit_inv (S\<lparr>hc_ious := m, hc_accounts := bt_insert s q (hc_accounts S)\<rparr>)" (is "credit_inv ?S")
proof -
  note I = credit_invD [OF inv]
  show ?thesis
  proof (rule credit_invI)
    fix t r assume r: "map_of (hc_accounts ?S) t = Some r"
    show "position_inv ?S t r"
    proof (cases "t = s")
      case True
      with r I(7) [OF p] m(3) [of s] q show ?thesis by (simp add: position_inv_def)
    next
      case False
      with r I(7) [of t r] m(3) [of t] show ?thesis by (simp add: position_inv_def)
    qed
  next
    fix i r assume "map_of (hc_permits ?S) i = Some r"
    then have "permit_inv S r" using I(8) by simp
    then show "permit_inv ?S r" by (auto simp: permit_inv_def)
  next
    fix k i assume "map_of (hc_ious ?S) k = Some i"
    then obtain j where "map_of (hc_ious S) k = Some j" "io_subject j = io_subject i" using m(4) [of k] by (auto simp: map_option_case split: option.splits)
    then show "iou_inv ?S k i" using I(9) [of k j] by (auto simp: iou_inv_def)
  qed (use I m in auto)
qed

lemma apply_release_ok:
  assumes inv: "credit_inv S" and p: "map_of (hc_accounts S) s = Some p"
  shows "\<exists>split S'. apply_release S s p e gross = Inr (split, True, S') \<and> credit_inv S' \<and> release_split S s p gross split
    \<and> released_ledger S s p e gross split S'"
proof -
  note I = credit_invD [OF inv]
  have P: "unat (ps_debt p) = bt_total (debt_of s) (hc_ious S)" "unat (ps_repayment_remainder p) < 1000000"
    "unat (cp_repayment_ppm (hc_policy S)) = 1000000 \<longrightarrow> ps_repayment_remainder p = 0"
    using I(7) [OF p] by (simp_all add: position_inv_def)
  from release_budget_ok [OF I(4) P(2,3), of gross] obtain b fr where
    b: "release_budget (hc_policy S) p gross = Inr (b, fr)" "unat b = due (hc_policy S) p gross" "unat b \<le> unat gross"
    and fr: "unat fr = (unat gross mod 1000000) * unat (cp_repayment_ppm (hc_policy S)) + unat (ps_repayment_remainder p)"
    unfolding due_def by blast
  have bd: "unat b \<le> unat (ps_debt p)" by (simp add: b(2) due_def)
  have "unat b \<le> (\<Sum>k\<leftarrow>hc_canonical_order S. owed s (hc_ious S) k)"
    using bd P(1) total_over_order [OF I(3,5,6)] by (simp add: owed_def)
  moreover have "\<And>k. k \<in> set (hc_canonical_order S) \<Longrightarrow> map_of (hc_ious S) k \<noteq> None" using I(6) by (simp add: fst_set_map_of)
  ultimately obtain m out where
    r: "repay_loop s (hc_canonical_order S) b (hc_ious S) [] = Inr (0, m, out)" "bt_wf m" "fst ` set m = fst ` set (hc_ious S)"
      "paid out = oldest_first (unat b) (map (owed s (hc_ious S)) (hc_canonical_order S))"
      "\<And>t. bt_total (debt_of t) m + (if t = s then unat b else 0) = bt_total (debt_of t) (hc_ious S)"
      "\<And>k. map_option io_subject (map_of m k) = map_option io_subject (map_of (hc_ious S) k)"
    using repay_loop_ok [OF I(3,5), where b = b and s = s and out = "[]"] by fastforce
  from repay_loop_book [OF I(5) r(1)]
  have bk: "map receipt out = pay_oldest (unat b) (outstanding s (hc_ious S) (hc_canonical_order S))"
      "outstanding s m (hc_canonical_order S) = leave_oldest (unat b) (outstanding s (hc_ious S) (hc_canonical_order S))"
      "\<forall>t. t \<noteq> s \<longrightarrow> outstanding t m (hc_canonical_order S) = outstanding t (hc_ious S) (hc_canonical_order S)" by auto
  have sum: "sum_list (paid out) = unat b"
    unfolding r(4) using \<open>unat b \<le> (\<Sum>k\<leftarrow>hc_canonical_order S. owed s (hc_ious S) k)\<close> by (intro oldest_first_sum)
  define rd where "rd = ps_debt p - b"
  have rd: "unat rd + unat b = unat (ps_debt p)" using bd by (simp add: rd_def unat_sub word_le_nat_alt)
  define split where "split = \<lparr>sh_gross_released = gross, sh_recipient_available = gross - ucast b, sh_remaining_debt_micro = rd, sh_repayments = out\<rparr>"
  define q where "q = p\<lparr>ps_debt := rd, ps_repayment_remainder := (if rd = 0 then 0 else fr mod MILLION), ps_last_share := Some (e, split)\<rparr>"
  have gb: "ucast b \<le> gross" using b(3) by (simp add: word_le_nat_alt)
  have av: "unat (gross - ucast b) + unat b = unat gross" using gb b(3) by (simp add: unat_sub)
  have "b \<le> ps_debt p" using bd by (simp add: word_le_nat_alt)
  then have app: "apply_release S s p e gross = Inr (split, True, S\<lparr>hc_ious := m, hc_accounts := bt_insert s q (hc_accounts S)\<rparr>)"
    using b(1) r(1) gb by (simp add: apply_release_def ck_ok(3) Let_def split_def q_def rd_def)
  have "fr mod MILLION = 0" if "unat (cp_repayment_ppm (hc_policy S)) = 1000000"
    using that fr P(3) by (simp add: word_unat_eq_iff unat_mod_distrib)
  then have "credit_inv (S\<lparr>hc_ious := m, hc_accounts := bt_insert s q (hc_accounts S)\<rparr>)"
    by (intro released_inv [OF inv p r(2,3,5,6)]) (use rd in \<open>auto simp: q_def unat_mod_distrib\<close>)
  moreover have "release_split S s p gross split"
    using sum av rd bk(1) b(2) by (simp add: release_split_def split_def)
  moreover have "fr mod MILLION
      = of_nat ((unat gross * unat (cp_repayment_ppm (hc_policy S)) + unat (ps_repayment_remainder p)) mod 1000000)"
    by (rule word_unat_eq_iff [THEN iffD2], simp add: unat_mod_distrib fr unat_of_nat) (metis mod_add_left_eq mod_mult_left_eq)
  then have "q = released_position S p e gross split" by (simp add: q_def released_position_def split_def)
  then have "released_ledger S s p e gross split (S\<lparr>hc_ious := m, hc_accounts := bt_insert s q (hc_accounts S)\<rparr>)"
    using bk(2,3) by (simp add: released_ledger_def b(2))
  ultimately show ?thesis using app by blast
qed

section \<open>Reachable ledgers\<close>

inductive credit_reach :: "HumanShareCredit \<Rightarrow> bool" where
  new: "credit_new policy = Inr S \<Longrightarrow> credit_reach S"
| enrolled: "credit_reach S \<Longrightarrow> enroll S subject cap = Inr S' \<Longrightarrow> credit_reach S'"
| registered: "credit_reach S \<Longrightarrow> register_permit S subject permit h = Inr (b, S') \<Longrightarrow> credit_reach S'"
| recorded: "credit_reach S \<Longrightarrow> record_iou S iou h = Inr (b, S') \<Longrightarrow> credit_reach S'"
| expired: "credit_reach S \<Longrightarrow> expire_permit S i h = Inr S' \<Longrightarrow> credit_reach S'"
| released: "credit_reach S \<Longrightarrow> release_share S subject e gross = Inr (split, b, S') \<Longrightarrow> credit_reach S'"

lemma release_share_cases:
  assumes "map_of (hc_accounts S) s = Some p"
  obtains (old) "\<And>b S'. release_share S s e gross = Inr (split, b, S') \<Longrightarrow> S' = S"
      "release_share S s e gross \<noteq> Inl Panic" "release_share S s e gross \<noteq> Inl (Fail Arithmetic)"
  | (fresh) "release_share S s e gross = apply_release S s p e gross"
proof (cases "ps_last_share p")
  case None
  then show ?thesis using assms by (intro fresh) (simp add: release_share_def)
next
  case (Some l)
  then show ?thesis using assms
    by (cases l; cases "e = fst l \<or> e < fst l") (auto simp: release_share_def intro: old fresh split: if_splits)
qed

lemma release_inv:
  assumes inv: "credit_inv S" and r: "release_share S s e gross = Inr (split, b, S')"
  shows "credit_inv S'"
proof -
  obtain p where p: "map_of (hc_accounts S) s = Some p" using r by (auto simp: release_share_def)
  from p show ?thesis
  proof (cases rule: release_share_cases [where e = e and gross = gross and split = split])
    case old
    with r inv show ?thesis by simp
  next
    case fresh
    with apply_release_ok [OF inv p, of e gross] r show ?thesis by auto
  qed
qed

lemma credit_reach_inv: "credit_reach S \<Longrightarrow> credit_inv S"
  by (induction rule: credit_reach.induct)
     (auto intro: credit_new_inv enroll_inv register_inv record_inv expire_inv release_inv)

section \<open>Redeeming coupons\<close>

text \<open>A sequence of coupons presented with heights, each verified against the permit and recorded.\<close>

fun redeem :: "crypto \<Rightarrow> VerifiedCreditPermit \<Rightarrow> HumanShareCredit \<Rightarrow> (SignedCreditIou \<times> u64) list \<Rightarrow> HumanShareCredit option" where
  "redeem C permit S [] = Some S"
| "redeem C permit S ((c, h) # cs) =
     (case verify_credit_iou C c permit h of
        Inl _ \<Rightarrow> None
      | Inr iou \<Rightarrow> (case record_iou S iou h of Inr (True, S') \<Rightarrow> redeem C permit S' cs | _ \<Rightarrow> None))"

lemma record_ok:
  assumes inv: "credit_inv S" and pm: "map_of (hc_permits S) (it_permit_id (vci_terms iou)) = Some permit" "\<not> pm_expired permit"
    and free: "map_of (hc_ious S) (it_permit_id (vci_terms iou), it_sequence (vci_terms iou)) = None"
    and room: "length (hc_ious S) < cp_max_ious (hc_policy S)"
    and h: "pt_issued_height (vcp_terms (pm_verified permit)) \<le> h" "h \<le> pt_valid_through_height (vcp_terms (pm_verified permit))"
    and lim: "unat (pm_used permit) + unat (it_amount_micro (vci_terms iou)) \<le> unat (pt_limit_micro (vcp_terms (pm_verified permit)))"
  shows "\<exists>S'. record_iou S iou h = Inr (True, S')"
proof -
  note I = credit_invD [OF inv]
  let ?a = "it_amount_micro (vci_terms iou)"
  obtain p where p: "map_of (hc_accounts S) (pm_subject permit) = Some p" using I(8) [OF pm(1)] by (auto simp: permit_inv_def)
  have "unat (pt_limit_micro (vcp_terms (pm_verified permit))) < 2 ^ 64"
    using unsigned_less [of "pt_limit_micro (vcp_terms (pm_verified permit))", where ?'a = nat] by simp
  then have u: "checked_add (pm_used permit) ?a = Some (pm_used permit + ?a)" "pm_used permit + ?a \<le> pt_limit_micro (vcp_terms (pm_verified permit))"
    using lim by (auto simp: checked_add_def word_le_nat_alt unat_word_ariths)
  have "allowance_of (pm_subject permit) permit \<le> bt_total (allowance_of (pm_subject permit)) (hc_permits S)"
    by (rule bt_total_ge [OF pm(1)])
  then have al: "unat ?a \<le> unat (ps_unused_authorized p)"
    using I(7) [OF p] lim pm(2) by (simp add: position_inv_def allowance_of_def)
  have "unat (ps_debt p) + unat (ps_unused_authorized p) \<le> unat (ps_cap p)" using I(7) [OF p] by (simp add: position_inv_def)
  moreover have "unat (ps_cap p) < 2 ^ 64" using unsigned_less [of "ps_cap p", where ?'a = nat] by simp
  ultimately have d: "checked_add (ps_debt p) ?a = Some (ps_debt p + ?a)" using al by (simp add: checked_add_def)
  have s: "checked_sub (ps_unused_authorized p) ?a = Some (ps_unused_authorized p - ?a)"
    using al by (simp add: checked_sub_def word_le_nat_alt)
  have "\<not> h < pt_issued_height (vcp_terms (pm_verified permit))" "\<not> h > pt_valid_through_height (vcp_terms (pm_verified permit))"
    using h by simp_all
  with free pm p room u d s show ?thesis by (simp add: record_iou_def Let_def not_le not_less)
qed

lemma bt_insert_length: "map_of m k = None \<Longrightarrow> length (bt_insert k v m) = Suc (length m)"
  by (induction k v m rule: bt_insert.induct) (auto split: if_splits)

text \<open>A ledger ready for the next coupons of a permit of which \<open>cs\<close> were redeemed.\<close>

definition redeemed :: "HumanShareCredit \<Rightarrow> bytes \<Rightarrow> VerifiedCreditPermit \<Rightarrow> SignedCreditIou list \<Rightarrow> bool" where
  "redeemed S subject permit cs =
     (\<exists>pm. map_of (hc_permits S) (vcp_id permit) = Some pm \<and> pm_subject pm = subject \<and> pm_verified pm = permit
        \<and> \<not> pm_expired pm \<and> unat (pm_used pm) = signed_total cs
        \<and> (\<forall>q. map_of (hc_ious S) (vcp_id permit, q) \<noteq> None \<longrightarrow> unat q < length cs))"

lemma redeem_step:
  assumes inv: "credit_inv S" and rd: "redeemed S s permit done" and ok: "coupons_ok C permit (done @ [c])"
    and room: "length (hc_ious S) < cp_max_ious (hc_policy S)"
    and h: "pt_issued_height (vcp_terms permit) \<le> h" "h \<le> pt_valid_through_height (vcp_terms permit)"
  obtains iou S' p p' where "verify_credit_iou C c permit h = Inr iou" "record_iou S iou h = Inr (True, S')" "credit_inv S'"
    "redeemed S' s permit (done @ [c])" "length (hc_ious S') = Suc (length (hc_ious S))" "hc_policy S' = hc_policy S"
    "map_of (hc_accounts S) s = Some p" "map_of (hc_accounts S') s = Some p'"
    "unat (ps_debt p') = unat (ps_debt p) + unat (it_amount_micro (sci_terms c))"
proof -
  from rd obtain pm where pm: "map_of (hc_permits S) (vcp_id permit) = Some pm" "pm_subject pm = s" "pm_verified pm = permit"
      "\<not> pm_expired pm" "unat (pm_used pm) = signed_total done"
      and slots: "\<And>q. map_of (hc_ious S) (vcp_id permit, q) \<noteq> None \<Longrightarrow> unat q < length done"
    unfolding redeemed_def by blast
  have c: "coupon_ok C permit c" "unat (it_sequence (sci_terms c)) = length done"
    "signed_total done + unat (it_amount_micro (sci_terms c)) \<le> unat (pt_limit_micro (vcp_terms permit))"
    using ok by (simp_all add: coupons_ok_snoc)
  from c(1) h obtain iou where v: "verify_credit_iou C c permit h = Inr iou" and t: "vci_terms iou = sci_terms c"
    by (auto simp: coupon_ok_def is_ok_iff verify_credit_iou_Inr)
  have id: "it_permit_id (sci_terms c) = vcp_id permit" using v by (auto simp: verify_credit_iou_Inr iou_validate_def split: if_splits)
  have free: "map_of (hc_ious S) (vcp_id permit, it_sequence (sci_terms c)) = None"
    using slots [of "it_sequence (sci_terms c)"] c(2) by (metis less_irrefl)
  from record_ok [OF inv, of iou pm h] pm t id free room h c(3) obtain S' where r: "record_iou S iou h = Inr (True, S')" by auto
  from r show ?thesis
  proof (cases rule: record_Inr)
    case (fresh permit' used p d u)
    then have pe: "permit' = pm" using pm(1) t id by simp
    have "redeemed S' s permit (done @ [c])"
      using pm fresh(5,10) slots c(2) t id
      by (auto simp: redeemed_def pe less_Suc_eq)
    moreover have "length (hc_ious S') = Suc (length (hc_ious S))" using free t id by (simp add: fresh(10) bt_insert_length)
    ultimately show ?thesis using that [OF v r record_inv [OF inv r]] fresh(7,8) pm(2) t by (simp add: fresh(10) pe)
  qed simp
qed

lemma redeem_ok:
  assumes "credit_inv S" "redeemed S s permit done" "coupons_ok C permit (done @ cs)"
    "length (hc_ious S) + length cs \<le> cp_max_ious (hc_policy S)" "length hs = length cs"
    "list_all (\<lambda>h. pt_issued_height (vcp_terms permit) \<le> h \<and> h \<le> pt_valid_through_height (vcp_terms permit)) hs"
    "map_of (hc_accounts S) s = Some p"
  shows "\<exists>S' p'. redeem C permit S (zip cs hs) = Some S' \<and> map_of (hc_accounts S') s = Some p'
    \<and> unat (ps_debt p') = unat (ps_debt p) + signed_total cs"
  using assms
proof (induction cs arbitrary: "done" S hs p)
  case (Cons c cs)
  then obtain h hs' where hs: "hs = h # hs'" by (cases hs) simp_all
  have "coupons_ok C permit ((done @ [c]) @ cs)" using Cons.prems(3) by simp
  from coupons_ok_prefix [OF this] have ok: "coupons_ok C permit (done @ [c])" .
  have room: "length (hc_ious S) < cp_max_ious (hc_policy S)" using Cons.prems(4) by simp
  have h: "pt_issued_height (vcp_terms permit) \<le> h" "h \<le> pt_valid_through_height (vcp_terms permit)"
    using Cons.prems(6) by (simp_all add: hs)
  show ?case
  proof (rule redeem_step [OF Cons.prems(1,2) ok room h])
    fix iou S' q q'
    assume s: "verify_credit_iou C c permit h = Inr iou" "record_iou S iou h = Inr (True, S')" "credit_inv S'"
      "redeemed S' s permit (done @ [c])" "length (hc_ious S') = Suc (length (hc_ious S))" "hc_policy S' = hc_policy S"
      "map_of (hc_accounts S) s = Some q" "map_of (hc_accounts S') s = Some q'"
      "unat (ps_debt q') = unat (ps_debt q) + unat (it_amount_micro (sci_terms c))"
    have "q = p" using s(7) Cons.prems(7) by simp
    with Cons.IH [OF s(3,4) \<open>coupons_ok C permit ((done @ [c]) @ cs)\<close> _ _ _ s(8), of hs'] s Cons.prems(4,5,6)
    show ?thesis by (auto simp: hs)
  qed
qed simp

lemma register_redeemed:
  assumes inv: "credit_inv S0" and r: "register_permit S0 subject permit h = Inr (True, S)"
  obtains p where "redeemed S subject permit []" "map_of (hc_accounts S) subject = Some p" "hc_ious S = hc_ious S0" "hc_policy S = hc_policy S0"
  using r
proof (cases rule: register_Inr)
  case (fresh p u)
  note I = credit_invD [OF inv]
  have "map_of (hc_ious S0) (vcp_id permit, q) = None" for q
    using I(9) [of "(vcp_id permit, q)"] fresh(2) by (cases "map_of (hc_ious S0) (vcp_id permit, q)") (auto simp: iou_inv_def)
  then show ?thesis using that fresh(6) by (simp add: redeemed_def)
qed simp

section \<open>A ledger with one permit and one IOU\<close>

definition demo_credit_policy :: CreditPolicy where
  "demo_credit_policy =
     \<lparr>cp_network_id = replicate 32 1, cp_revision = replicate 32 2, cp_max_debt_per_human = 1000, cp_repayment_ppm = 500000,
      cp_max_permit_height_span = 10, cp_max_accounts = 2, cp_max_permits = 2, cp_max_ious = 2\<rparr>"

definition demo_subject :: bytes where "demo_subject = replicate 32 5"

definition demo_position :: "u64 \<Rightarrow> u64 \<Rightarrow> Position" where
  "demo_position d u =
     \<lparr>ps_cap = 500, ps_debt = d, ps_unused_authorized = u, ps_repayment_remainder = 0, ps_last_share = None\<rparr>"

definition demo_enrolled :: HumanShareCredit where
  "demo_enrolled =
     \<lparr>hc_policy = demo_credit_policy, hc_accounts = [(demo_subject, demo_position 0 0)], hc_permits = [], hc_ious = [],
      hc_canonical_order = []\<rparr>"

definition demo_registered :: HumanShareCredit where
  "demo_registered =
     demo_enrolled\<lparr>hc_accounts := [(demo_subject, demo_position 0 100)],
       hc_permits := [(vcp_id demo_permit, \<lparr>pm_subject = demo_subject, pm_verified = demo_permit, pm_used = 0, pm_expired = False\<rparr>)]\<rparr>"

lemma demo_enrolled_reach: "credit_reach demo_enrolled"
proof -
  let ?S = "\<lparr>hc_policy = demo_credit_policy, hc_accounts = [], hc_permits = [], hc_ious = [], hc_canonical_order = []\<rparr>"
  have "credit_new demo_credit_policy = Inr ?S" by (simp add: credit_new_def demo_credit_policy_def MILLION_def)
  moreover have "enroll ?S demo_subject 500 = Inr demo_enrolled"
    by (simp add: enroll_def demo_subject_def demo_credit_policy_def demo_enrolled_def demo_position_def)
  ultimately show ?thesis using credit_reach.new credit_reach.enrolled by blast
qed

lemma demo_register: "register_permit demo_enrolled demo_subject demo_permit 10 = Inr (True, demo_registered)"
  by (simp add: register_permit_def demo_enrolled_def demo_permit_def demo_permit_terms_def demo_credit_policy_def
      new_allowance_capacity_def demo_position_def checked_sub_def checked_add_def ck_sub_def demo_registered_def Let_def)

lemma demo_registered_reach: "credit_reach demo_registered"
  by (rule credit_reach.registered [OF demo_enrolled_reach demo_register])

lemma demo_account: "map_of (hc_accounts demo_registered) demo_subject = Some (demo_position 0 100)"
  by (simp add: demo_registered_def)

section \<open>Properties\<close>

text \<open>Property (C15): credit accounting is exact on every reachable ledger. The debt of a human is the sum
  of what their recorded IOUs still owe, the unused authorisation is the sum of what their live permits
  still allow, both together never exceed the approved cap, and the reported capacity for new permits
  is precisely what is left.\<close>

theorem credit_accounting_exact:
  assumes "credit_reach S" "map_of (hc_accounts S) s = Some p"
  shows "unat (ps_debt p) = bt_total (debt_of s) (hc_ious S)
    \<and> unat (ps_unused_authorized p) = bt_total (allowance_of s) (hc_permits S)
    \<and> ps_cap p \<le> cp_max_debt_per_human (hc_policy S)
    \<and> (\<exists>c. new_allowance_capacity S s = Inr c
         \<and> unat c + bt_total (debt_of s) (hc_ious S) + bt_total (allowance_of s) (hc_permits S) = unat (ps_cap p))"
proof -
  have P: "position_inv S s p" using credit_invD(7) [OF credit_reach_inv [OF assms(1)] assms(2)] .
  let ?c = "ps_cap p - ps_debt p - ps_unused_authorized p"
  have le: "unat (ps_debt p) + unat (ps_unused_authorized p) \<le> unat (ps_cap p)" using P by (simp add: position_inv_def)
  then have d: "unat (ps_cap p - ps_debt p) = unat (ps_cap p) - unat (ps_debt p)" by (simp add: unat_sub word_le_nat_alt)
  then have "unat ?c = unat (ps_cap p) - unat (ps_debt p) - unat (ps_unused_authorized p)"
    using le by (subst unat_sub) (simp_all add: word_le_nat_alt)
  with le have "unat ?c + unat (ps_unused_authorized p) + unat (ps_debt p) = unat (ps_cap p)" by linarith
  then have "new_allowance_capacity S s = Inr ?c" using assms(2) by (simp add: capacity_Inr)
  with P \<open>unat ?c + _ + _ = _\<close> show ?thesis by (auto simp: position_inv_def)
qed

theorem credit_accounting_exact_witness:
  "credit_reach demo_registered \<and> map_of (hc_accounts demo_registered) demo_subject = Some (demo_position 0 100)
   \<and> unat (ps_unused_authorized (demo_position 0 100)) = bt_total (allowance_of demo_subject) (hc_permits demo_registered)"
  using credit_accounting_exact [OF demo_registered_reach demo_account] demo_registered_reach demo_account by blast

text \<open>Property (C16): a release of share is split exactly and is never refused for an account that has not
  seen the epoch. The repaid total is the policy's fraction of the release with the earlier fraction
  carried over, but at most the debt; the repayments name digest and payee of the oldest IOUs the
  human still owes, paying each in full before the next; released share is repayments plus what the
  recipient keeps. Afterwards those IOUs are paid down by exactly these amounts, the IOUs of others,
  the permits and the other accounts are unchanged, and the account holds the remaining debt and the
  new fraction of a unit, dropped only when nothing is owed any more. Repeating the same release
  returns the same split and changes nothing.\<close>

theorem release_share_exact:
  assumes "credit_reach S" "map_of (hc_accounts S) s = Some p" "\<And>l sp. ps_last_share p = Some (l, sp) \<Longrightarrow> l < e"
  shows "\<exists>split S'. release_share S s e gross = Inr (split, True, S')
    \<and> sh_gross_released split = gross
    \<and> unat gross = unat (sh_recipient_available split) + sum_list (paid (sh_repayments split))
    \<and> sum_list (paid (sh_repayments split))
        = min ((unat gross * unat (cp_repayment_ppm (hc_policy S)) + unat (ps_repayment_remainder p)) div 1000000) (unat (ps_debt p))
    \<and> map receipt (sh_repayments split)
        = pay_oldest (sum_list (paid (sh_repayments split))) (outstanding s (hc_ious S) (hc_canonical_order S))
    \<and> unat (sh_remaining_debt_micro split) + sum_list (paid (sh_repayments split)) = unat (ps_debt p)
    \<and> S' = S\<lparr>hc_ious := hc_ious S', hc_accounts := bt_insert s
        (p\<lparr>ps_debt := sh_remaining_debt_micro split,
           ps_repayment_remainder := (if sh_remaining_debt_micro split = 0 then 0
             else of_nat ((unat gross * unat (cp_repayment_ppm (hc_policy S)) + unat (ps_repayment_remainder p)) mod 1000000)),
           ps_last_share := Some (e, split)\<rparr>) (hc_accounts S)\<rparr>
    \<and> outstanding s (hc_ious S') (hc_canonical_order S)
        = leave_oldest (sum_list (paid (sh_repayments split))) (outstanding s (hc_ious S) (hc_canonical_order S))
    \<and> (\<forall>t. t \<noteq> s \<longrightarrow> outstanding t (hc_ious S') (hc_canonical_order S) = outstanding t (hc_ious S) (hc_canonical_order S))
    \<and> release_share S' s e gross = Inr (split, False, S')"
proof -
  have eq: "release_share S s e gross = apply_release S s p e gross"
  proof (cases "ps_last_share p")
    case (Some l)
    then have "fst l < e" using assms(3) [of "fst l" "snd l"] by simp
    then show ?thesis using assms(2) Some by (auto simp: release_share_def split: prod.splits)
  qed (simp add: release_share_def assms(2))
  from apply_release_ok [OF credit_reach_inv [OF assms(1)] assms(2), of e gross] obtain split S' where
    r: "apply_release S s p e gross = Inr (split, True, S')" "release_split S s p gross split"
      "released_ledger S s p e gross split S'" by blast
  have sum: "sum_list (paid (sh_repayments split)) = due (hc_policy S) p gross" using r(2) unfolding release_split_def by blast
  note sp = r(2) [unfolded release_split_def, folded sum] and led = r(3) [unfolded released_ledger_def, folded sum]
  from led have "S' = S\<lparr>hc_ious := hc_ious S', hc_accounts := bt_insert s (released_position S p e gross split) (hc_accounts S)\<rparr>"
    by blast
  from arg_cong [OF this, of hc_accounts] have "map_of (hc_accounts S') s = Some (released_position S p e gross split)" by simp
  then have "release_share S' s e gross = Inr (split, False, S')"
    using sp by (simp add: release_share_def released_position_def)
  then show ?thesis unfolding eq
    using r(1) sp led [unfolded released_position_def] sum [unfolded due_def] by blast
qed

text \<open>The same account after a coupon of 60 was recorded; a release of 5 at one half repays 2 and carries a half.\<close>

definition demo_owing :: HumanShareCredit where
  "demo_owing =
     demo_registered\<lparr>hc_accounts := [(demo_subject, demo_position 60 40)],
       hc_permits := [(vcp_id demo_permit, \<lparr>pm_subject = demo_subject, pm_verified = demo_permit, pm_used = 60, pm_expired = False\<rparr>)],
       hc_ious := [((vcp_id demo_permit, 0), \<lparr>io_subject = demo_subject, io_digest = replicate 32 9, io_payee = replicate 32 4,
         io_remaining = 60\<rparr>)],
       hc_canonical_order := [(vcp_id demo_permit, 0)]\<rparr>"

lemma demo_owing_reach: "credit_reach demo_owing"
proof (rule credit_reach.recorded [OF demo_registered_reach])
  show "record_iou demo_registered \<lparr>vci_terms = sci_terms demo_coupon, vci_digest = replicate 32 9\<rparr> 12 = Inr (True, demo_owing)"
    by (simp add: record_iou_def demo_registered_def demo_enrolled_def demo_owing_def demo_coupon_def demo_permit_def
        demo_permit_terms_def demo_credit_policy_def demo_position_def checked_sub_def checked_add_def Let_def)
qed

lemma demo_debt: "map_of (hc_accounts demo_owing) demo_subject = Some (demo_position 60 40)"
  by (simp add: demo_owing_def)

theorem release_share_exact_witness:
  "credit_reach demo_owing \<and> map_of (hc_accounts demo_owing) demo_subject = Some (demo_position 60 40)
   \<and> ps_last_share (demo_position 60 40) = None
   \<and> (\<exists>split S'. release_share demo_owing demo_subject 1 5 = Inr (split, True, S')
        \<and> map receipt (sh_repayments split) = [(replicate 32 9, replicate 32 4, 2)]
        \<and> unat (sh_recipient_available split) = 3
        \<and> map_option (\<lambda>p. (ps_debt p, ps_repayment_remainder p)) (map_of (hc_accounts S') demo_subject) = Some (58, 500000))"
proof -
  have n: "ps_last_share (demo_position 60 40) = None" by (simp add: demo_position_def)
  have d: "unat (ps_debt (demo_position 60 40)) = 60" "unat (ps_repayment_remainder (demo_position 60 40)) = 0"
    "unat (cp_repayment_ppm (hc_policy demo_owing)) = 500000" "unat (5 :: Amount) = 5"
    "outstanding demo_subject (hc_ious demo_owing) (hc_canonical_order demo_owing)
       = [\<lparr>io_subject = demo_subject, io_digest = replicate 32 9, io_payee = replicate 32 4, io_remaining = 60\<rparr>]"
    by (simp_all add: demo_position_def demo_owing_def demo_registered_def demo_enrolled_def demo_credit_policy_def)
  obtain split S' where r: "release_share demo_owing demo_subject 1 5 = Inr (split, True, S')"
    and g: "5 = unat (sh_recipient_available split) + sum_list (paid (sh_repayments split))"
    and sum: "sum_list (paid (sh_repayments split)) = min ((5 * 500000 + 0) div 1000000) 60"
    and rc: "map receipt (sh_repayments split) = pay_oldest (sum_list (paid (sh_repayments split)))
      [\<lparr>io_subject = demo_subject, io_digest = replicate 32 9, io_payee = replicate 32 4, io_remaining = 60\<rparr>]"
    and rest: "unat (sh_remaining_debt_micro split) + sum_list (paid (sh_repayments split)) = 60"
    and S': "S' = demo_owing\<lparr>hc_ious := hc_ious S', hc_accounts := bt_insert demo_subject
        ((demo_position 60 40)\<lparr>ps_debt := sh_remaining_debt_micro split,
           ps_repayment_remainder := (if sh_remaining_debt_micro split = 0 then 0 else of_nat ((5 * 500000 + 0) mod 1000000)),
           ps_last_share := Some (1, split)\<rparr>) (hc_accounts demo_owing)\<rparr>"
    using release_share_exact [OF demo_owing_reach demo_debt, of 1 5, unfolded n d] by blast
  have s2: "sum_list (paid (sh_repayments split)) = 2" using sum by simp
  then have "unat (sh_remaining_debt_micro split) = unat (58 :: u64)" using rest by simp
  then have "sh_remaining_debt_micro split = 58" by (simp only: word_unat_eq_iff)
  then have q: "map_option (\<lambda>p. (ps_debt p, ps_repayment_remainder p)) (map_of (hc_accounts S') demo_subject) = Some (58, 500000)"
    by (subst S') simp
  have w: "map receipt (sh_repayments split) = [(replicate 32 9, replicate 32 4, 2)]" using rc s2 by simp
  have a: "unat (sh_recipient_available split) = 3" using g s2 by simp
  show ?thesis by (intro conjI exI [of _ split] exI [of _ S'] demo_owing_reach demo_debt n r w a q)
qed

text \<open>Property (C38): nothing in credit accounting panics. On a reachable ledger no operation reaches an
  \<open>expect\<close> that fails or an arithmetic operation that overflows, for any account, height, amount and
  any permit that passed verification; and expiry and release never report an arithmetic error.\<close>

theorem credit_never_panics:
  assumes "credit_reach S" "verify_credit_permit C signed_permit issuer network span = Inr permit"
  shows "register_permit S s permit h \<noteq> Inl Panic \<and> record_iou S iou h \<noteq> Inl Panic \<and> expire_permit S i h \<noteq> Inl Panic
    \<and> release_share S s e gross \<noteq> Inl Panic \<and> permit_remaining S i \<noteq> Some (Inl Panic)
    \<and> expire_permit S i h \<noteq> Inl (Fail Arithmetic) \<and> release_share S s e gross \<noteq> Inl (Fail Arithmetic)"
proof -
  note inv = credit_reach_inv [OF assms(1)]
  note I = credit_invD [OF inv]
  have "pt_issued_height (vcp_terms permit) \<le> pt_valid_through_height (vcp_terms permit)"
    using assms(2) by (auto simp: verify_credit_permit_def permit_validate_def Let_def split: if_splits)
  then have reg: "register_permit S s permit h \<noteq> Inl Panic"
    by (auto simp: register_permit_def Let_def ck_ok(3) andThen_eq_Inl new_allowance_capacity_def ok_or_def split: option.splits if_splits)
  have rec: "record_iou S iou h \<noteq> Inl Panic"
    by (auto simp: record_iou_def Let_def andThen_eq_Inl ok_or_def split: option.splits if_splits)
  have sub: "ck_sub (pt_limit_micro (vcp_terms (pm_verified pm))) (pm_used pm) = Inr (pt_limit_micro (vcp_terms (pm_verified pm)) - pm_used pm)"
    if "map_of (hc_permits S) i = Some pm" for pm
    using I(8) [OF that] by (simp add: permit_inv_def ck_ok(3))
  have rem: "permit_remaining S i \<noteq> Some (Inl Panic)"
    by (cases "map_of (hc_permits S) i") (simp_all add: permit_remaining_def sub del: ck_Inr)
  have exp: "expire_permit S i h \<noteq> Inl Panic \<and> expire_permit S i h \<noteq> Inl (Fail Arithmetic)"
  proof (cases "map_of (hc_permits S) i")
    case (Some pm)
    obtain p where p: "map_of (hc_accounts S) (pm_subject pm) = Some p" using I(8) [OF Some] by (auto simp: permit_inv_def)
    have "unat (pt_limit_micro (vcp_terms (pm_verified pm)) - pm_used pm) \<le> unat (ps_unused_authorized p)" if "\<not> pm_expired pm"
      using bt_total_ge [OF Some, of "allowance_of (pm_subject pm)"] I(7) [OF p] I(8) [OF Some] that
      by (simp add: position_inv_def allowance_of_def permit_inv_def unat_sub)
    then show ?thesis
      by (auto simp: expire_permit_def Some p sub [OF Some] checked_sub_def word_le_nat_alt)
  qed (simp add: expire_permit_def)
  have rel: "release_share S s e gross \<noteq> Inl Panic \<and> release_share S s e gross \<noteq> Inl (Fail Arithmetic)"
  proof (cases "map_of (hc_accounts S) s")
    case (Some p)
    then show ?thesis
    proof (cases rule: release_share_cases [where e = e and gross = gross])
      case fresh
      with apply_release_ok [OF inv Some, of e gross] show ?thesis by auto
    qed simp
  qed (simp add: release_share_def)
  from reg rec exp rel rem show ?thesis by blast
qed

theorem credit_never_panics_witness:
  "credit_reach demo_registered
   \<and> verify_credit_permit toy_crypto demo_signed_permit (verifying_key toy_crypto (from_seed [9])) (replicate 32 1) 10 = Inr demo_permit
   \<and> register_permit demo_registered demo_subject demo_permit 10 \<noteq> Inl Panic
   \<and> release_share demo_registered demo_subject 1 700 \<noteq> Inl (Fail Arithmetic)"
  using credit_never_panics [OF demo_registered_reach demo_permit_verifies, of demo_subject 10] demo_registered_reach demo_permit_verifies
  by blast

text \<open>Property (C11): the wallet and the canonical ledger agree. When a permit is registered, every coupon
  that an honest wallet signed under it verifies and is recorded as new debt, in order and at any
  heights within the permit's window, as long as the ledger has room for the IOUs; the human then owes
  exactly the total of the coupons on top of the earlier debt.\<close>

theorem honest_coupons_accepted:
  assumes "aead_ok A" "digests_ok C" "verify_credit_permit C signed_permit issuer network span = Inr permit"
    "wallet C A borrower permit J cs" "credit_reach S0" "register_permit S0 s permit h = Inr (True, S)"
    "length (hc_ious S) + length cs \<le> cp_max_ious (hc_policy S)" "length hs = length cs"
    "list_all (\<lambda>h. pt_issued_height (vcp_terms permit) \<le> h \<and> h \<le> pt_valid_through_height (vcp_terms permit)) hs"
  shows "\<exists>S' d d'. redeem C permit S (zip cs hs) = Some S' \<and> debt_micro S s = Some d \<and> debt_micro S' s = Some d'
    \<and> unat d' = unat d + (\<Sum>c\<leftarrow>cs. unat (it_amount_micro (sci_terms c)))"
proof -
  have "length (vcp_id permit) = 32" using assms(2,3) by (auto simp: verify_credit_permit_def Let_def)
  from wallet_inv [OF assms(1) this assms(4)] have ok: "coupons_ok C permit ([] @ cs)" by simp
  note inv0 = credit_reach_inv [OF assms(5)]
  show ?thesis
  proof (rule register_redeemed [OF inv0 assms(6)])
    fix p assume "redeemed S s permit []" and p: "map_of (hc_accounts S) s = Some p"
    from redeem_ok [OF register_inv [OF inv0 assms(6)] this(1) ok assms(7,8,9) p]
    show ?thesis using p by (auto simp: debt_micro_def signed_total_def)
  qed
qed

theorem honest_coupons_accepted_witness:
  "\<exists>J S'. wallet toy_crypto toy_aead (from_seed [7]) demo_permit J [demo_coupon] \<and> credit_reach demo_enrolled
     \<and> register_permit demo_enrolled demo_subject demo_permit 10 = Inr (True, demo_registered)
     \<and> redeem toy_crypto demo_permit demo_registered [(demo_coupon, 12)] = Some S'"
proof -
  obtain J where J: "wallet toy_crypto toy_aead (from_seed [7]) demo_permit J [demo_coupon]" using demo_wallet by blast
  have "length (hc_ious demo_registered) + length [demo_coupon] \<le> cp_max_ious (hc_policy demo_registered)"
    by (simp add: demo_registered_def demo_enrolled_def demo_credit_policy_def)
  moreover have "list_all (\<lambda>h. pt_issued_height (vcp_terms demo_permit) \<le> h \<and> h \<le> pt_valid_through_height (vcp_terms demo_permit)) [12 :: u64]"
    by (simp add: demo_permit_def demo_permit_terms_def)
  ultimately have "\<exists>S' d d'. redeem toy_crypto demo_permit demo_registered (zip [demo_coupon] [12]) = Some S'
      \<and> debt_micro demo_registered demo_subject = Some d \<and> debt_micro S' demo_subject = Some d'
      \<and> unat d' = unat d + (\<Sum>c\<leftarrow>[demo_coupon]. unat (it_amount_micro (sci_terms c)))"
    by (intro honest_coupons_accepted [OF toy_aead_ok toy_crypto_ok(1) demo_permit_verifies J demo_enrolled_reach demo_register]) simp_all
  with J demo_enrolled_reach demo_register show ?thesis by auto
qed

end
