(* ===== verification/EconomyWire.thy ===== *)
theory EconomyWire
  imports Economy
begin

text \<open>
  The rest of \<open>mini-economy\<close> around the ledger: the settlement cadence, the genesis manifest, the
  commitments of plans and ledgers, and the canonical bounded wire format of scalable epoch plans.
\<close>

section \<open>Settlement cadence (cadence.rs)\<close>

record SettlementCadence =
  sc_target_round_ms :: u64
  sc_rounds_per_issuance :: u64

record SettlementTarget =
  st_round :: u64
  st_elapsed_ms :: u64
  st_issuance_epoch :: "u64 option"

definition cadence_new :: "u64 \<Rightarrow> u64 \<Rightarrow> EconomyError + SettlementCadence" where
  "cadence_new target_round_ms rounds_per_issuance =
     andThen (ok_or (checked_mul target_round_ms rounds_per_issuance) EOverflow) (\<lambda>duration.
       if target_round_ms = 0 \<or> rounds_per_issuance = 0 \<or> duration > YEAR_MS then Inl InvalidDuration
       else Inr \<lparr>sc_target_round_ms = target_round_ms, sc_rounds_per_issuance = rounds_per_issuance\<rparr>)"

definition issuance_duration_ms :: "SettlementCadence \<Rightarrow> u64" where
  "issuance_duration_ms c = sc_target_round_ms c * sc_rounds_per_issuance c"

definition next_after :: "SettlementCadence \<Rightarrow> u64 \<Rightarrow> EconomyError + SettlementTarget" where
  "next_after c finalized_round =
     andThen (ok_or (checked_add finalized_round 1) EOverflow) (\<lambda>round.
     andThen (ok_or (checked_mul round (sc_target_round_ms c)) EOverflow) (\<lambda>elapsed_ms.
       Inr \<lparr>st_round = round, st_elapsed_ms = elapsed_ms,
            st_issuance_epoch =
              (if round mod sc_rounds_per_issuance c = 0 then Some (round div sc_rounds_per_issuance c - 1) else None)\<rparr>))"

section \<open>Genesis manifest (genesis.rs)\<close>

record GenesisPolicy =
  gp_bootstrap_per_human :: Amount
  gp_vesting_ms :: u64

record GenesisManifest =
  gm_chain_id :: bytes
  gm_constitution_digest :: bytes
  gm_recipients :: "bytes list"
  gm_allocation_per_human :: Amount
  gm_total_locked :: Amount
  gm_vesting_ms :: u64
  gm_digest :: Multihash

definition genesis_bytes :: "bytes \<Rightarrow> bytes \<Rightarrow> GenesisPolicy \<Rightarrow> bytes list \<Rightarrow> bytes" where
  "genesis_bytes chain_id constitution policy recipients =
     put_bytes64 chain_id @ constitution @ to_be128 (gp_bootstrap_per_human policy)
       @ to_be64 (gp_vesting_ms policy) @ to_be64 (len64 recipients) @ concat (map put_bytes64 recipients)"

definition build_genesis ::
  "crypto \<Rightarrow> bytes \<Rightarrow> bytes \<Rightarrow> bytes list \<Rightarrow> GenesisPolicy \<Rightarrow> EconomyError + GenesisManifest" where
  "build_genesis C chain_id constitution humans policy =
     (if chain_id = [] \<or> length chain_id > 128 \<or> humans = [] \<or> gp_bootstrap_per_human policy = 0 \<or> gp_vesting_ms policy = 0
      then Inl InvalidGenesis
      else let recipients = sort (remdups humans) in
        if length recipients \<noteq> length humans \<or> list_ex (\<lambda>h. h = []) recipients then Inl DuplicateBeneficiary
        else andThen (ok_or (checked_mul (gp_bootstrap_per_human policy) (of_nat (length recipients))) EOverflow) (\<lambda>tot.
          Inr \<lparr>gm_chain_id = chain_id, gm_constitution_digest = constitution, gm_recipients = recipients,
               gm_allocation_per_human = gp_bootstrap_per_human policy, gm_total_locked = tot,
               gm_vesting_ms = gp_vesting_ms policy,
               gm_digest = multihash_of C Blake3 (genesis_bytes chain_id constitution policy recipients)\<rparr>))"

section \<open>Wire format of scalable epoch plans (scalable\_epoch\_wire.rs)\<close>

definition PLAN_DOMAIN :: bytes where "PLAN_DOMAIN = ascii ''mini-economy/scalable-epoch-plan-wire/v1''"
definition MAX_SCALABLE_EPOCH_GRANTS :: nat where "MAX_SCALABLE_EPOCH_GRANTS = 1024"
definition MAX_EPOCH_BENEFICIARY_BYTES :: nat where "MAX_EPOCH_BENEFICIARY_BYTES = 1024"
definition MAX_SCALABLE_EPOCH_PLAN_BYTES :: nat where "MAX_SCALABLE_EPOCH_PLAN_BYTES = 2 * 1024 * 1024"

definition channel_tag :: "Channel \<Rightarrow> u8" where
  "channel_tag c = (case c of HumanShare \<Rightarrow> 0 | Service \<Rightarrow> 1 | TreasuryContribution \<Rightarrow> 2)"

definition put_grant :: "VestingGrant \<Rightarrow> bytes" where
  "put_grant g =
     to_be64 (len64 (vg_beneficiary g)) @ vg_beneficiary g @ [channel_tag (vg_channel g)]
       @ to_be128 (vg_amount g) @ to_be64 (vg_vesting_ms g)"

definition plan_canonical_bytes :: "ScalableEpochPlan \<Rightarrow> bytes" where
  "plan_canonical_bytes p =
     PLAN_DOMAIN @ to_be64 (sp_epoch p) @ to_be64 (sp_duration_ms p) @ to_be128 (sp_opening_circulating p)
       @ to_be64 (hp_epoch (sp_human p)) @ hs_root (hp_snapshot (sp_human p))
       @ to_be64 (hs_eligible_count (hp_snapshot (sp_human p)))
       @ to_be128 (hp_cap (sp_human p)) @ to_be128 (hp_per_human (sp_human p))
       @ to_be128 (hp_issued (sp_human p)) @ to_be128 (hp_unissued_remainder (sp_human p))
       @ to_be64 (hp_vesting_ms (sp_human p))
       @ to_be128 (sp_service_cap p) @ to_be128 (sp_treasury_cap p) @ to_be128 (sp_total_cap p)
       @ to_be128 (sp_service_issued p) @ to_be128 (sp_treasury_issued p) @ to_be128 (sp_total_issued p)
       @ to_be64 (len64 (sp_optional_grants p)) @ concat (map put_grant (sp_optional_grants p))"

definition plan_to_wire_bytes :: "ScalableEpochPlan \<Rightarrow> EconomyError + bytes" where
  "plan_to_wire_bytes p =
     (if length (sp_optional_grants p) > MAX_SCALABLE_EPOCH_GRANTS
         \<or> list_ex (\<lambda>g. vg_beneficiary g = [] \<or> length (vg_beneficiary g) > MAX_EPOCH_BENEFICIARY_BYTES) (sp_optional_grants p)
      then Inl ELimitExceeded
      else let bytes = plan_canonical_bytes p in
        if length bytes > MAX_SCALABLE_EPOCH_PLAN_BYTES then Inl ELimitExceeded else Inr bytes)"

definition rd_channel :: "bytes \<Rightarrow> EconomyError + Channel \<times> bytes" where
  "rd_channel bs =
     andThen (rd_u8 MalformedEncoding bs) (\<lambda>(t, r).
       if t = 0 then Inr (HumanShare, r) else if t = 1 then Inr (Service, r)
       else if t = 2 then Inr (TreasuryContribution, r) else Inl MalformedEncoding)"

definition rd_grant :: "bytes \<Rightarrow> EconomyError + VestingGrant \<times> bytes" where
  "rd_grant bs =
     andThen (rd_u64 MalformedEncoding bs) (\<lambda>(n, bs).
     andThen (ensure (\<not> (n = 0 \<or> unat n > MAX_EPOCH_BENEFICIARY_BYTES)) ELimitExceeded) (\<lambda>_.
     andThen (take_n MalformedEncoding (unat n) bs) (\<lambda>(b, bs).
     andThen (ensure (utf8_valid b) MalformedEncoding) (\<lambda>_.
     andThen (rd_channel bs) (\<lambda>(c, bs).
     andThen (rd_u128 MalformedEncoding bs) (\<lambda>(a, bs).
     andThen (rd_u64 MalformedEncoding bs) (\<lambda>(v, bs).
       Inr (\<lparr>vg_beneficiary = b, vg_channel = c, vg_amount = a, vg_vesting_ms = v\<rparr>, bs))))))))"

definition rd_human :: "bytes \<Rightarrow> EconomyError + HumanSharePlan \<times> bytes" where
  "rd_human bs =
     andThen (rd_u64 MalformedEncoding bs) (\<lambda>(epoch, bs).
     andThen (take_n MalformedEncoding 32 bs) (\<lambda>(root, bs).
     andThen (rd_u64 MalformedEncoding bs) (\<lambda>(n, bs).
     andThen (rd_u128 MalformedEncoding bs) (\<lambda>(cap, bs).
     andThen (rd_u128 MalformedEncoding bs) (\<lambda>(per, bs).
     andThen (rd_u128 MalformedEncoding bs) (\<lambda>(issued, bs).
     andThen (rd_u128 MalformedEncoding bs) (\<lambda>(rest, bs).
     andThen (rd_u64 MalformedEncoding bs) (\<lambda>(v, bs).
       Inr (\<lparr>hp_epoch = epoch, hp_snapshot = \<lparr>hs_root = root, hs_eligible_count = n\<rparr>, hp_cap = cap,
             hp_per_human = per, hp_issued = issued, hp_unissued_remainder = rest, hp_vesting_ms = v\<rparr>, bs)))))))))"

definition rd_grants :: "bytes \<Rightarrow> EconomyError + VestingGrant list \<times> bytes" where
  "rd_grants bs =
     andThen (rd_u64 MalformedEncoding bs) (\<lambda>(n, bs).
     andThen (ensure (unat n \<le> MAX_SCALABLE_EPOCH_GRANTS) ELimitExceeded) (\<lambda>_.
       dec_n rd_grant (unat n) bs))"

definition plan_from_wire_bytes :: "bytes \<Rightarrow> EconomyError + ScalableEpochPlan" where
  "plan_from_wire_bytes bytes =
     (if length bytes > MAX_SCALABLE_EPOCH_PLAN_BYTES then Inl ELimitExceeded
      else
        andThen (take_n MalformedEncoding (length PLAN_DOMAIN) bytes) (\<lambda>(dom, bs).
        andThen (ensure (dom = PLAN_DOMAIN) MalformedEncoding) (\<lambda>_.
        andThen (rd_u64 MalformedEncoding bs) (\<lambda>(epoch, bs).
        andThen (rd_u64 MalformedEncoding bs) (\<lambda>(duration, bs).
        andThen (rd_u128 MalformedEncoding bs) (\<lambda>(opening, bs).
        andThen (rd_human bs) (\<lambda>(human, bs).
        andThen (rd_u128 MalformedEncoding bs) (\<lambda>(service_cap, bs).
        andThen (rd_u128 MalformedEncoding bs) (\<lambda>(treasury_cap, bs).
        andThen (rd_u128 MalformedEncoding bs) (\<lambda>(total_cap, bs).
        andThen (rd_u128 MalformedEncoding bs) (\<lambda>(service_issued, bs).
        andThen (rd_u128 MalformedEncoding bs) (\<lambda>(treasury_issued, bs).
        andThen (rd_u128 MalformedEncoding bs) (\<lambda>(total_issued, bs).
        andThen (rd_grants bs) (\<lambda>(grants, bs).
        andThen (ensure (bs = []) MalformedEncoding) (\<lambda>_.
          let plan = \<lparr>sp_epoch = epoch, sp_duration_ms = duration, sp_opening_circulating = opening, sp_human = human,
                sp_service_cap = service_cap, sp_treasury_cap = treasury_cap, sp_total_cap = total_cap,
                sp_service_issued = service_issued, sp_treasury_issued = treasury_issued,
                sp_total_issued = total_issued, sp_optional_grants = grants\<rparr>
          in andThen (plan_to_wire_bytes plan) (\<lambda>again.
             andThen (ensure (again = bytes) MalformedEncoding) (\<lambda>_. Inr plan)))))))))))))))))"

section \<open>Commitments (issuance.rs, ledger.rs)\<close>

definition scalable_commitment :: "crypto \<Rightarrow> ScalableEpochPlan \<Rightarrow> Multihash" where
  "scalable_commitment C p =
     multihash_of C Blake3 (ascii ''mini-economy/scalable-epoch-plan/v2'' @ plan_canonical_bytes p)"

definition epoch_plan_bytes :: "EpochPlan \<Rightarrow> bytes" where
  "epoch_plan_bytes p =
     ascii ''mini-economy/epoch-plan/v1'' @ to_be64 (ep_epoch p) @ to_be64 (ep_duration_ms p)
       @ concat (map to_be128 [ep_opening_circulating p, ep_human_cap p, ep_service_cap p, ep_treasury_cap p,
           ep_total_cap p, ep_human_issued p, ep_service_issued p, ep_treasury_issued p, ep_total_issued p])
       @ to_be64 (len64 (ep_grants p)) @ concat (map put_grant (ep_grants p))"

definition epoch_plan_commitment :: "crypto \<Rightarrow> EpochPlan \<Rightarrow> Multihash" where
  "epoch_plan_commitment C p = multihash_of C Blake3 (epoch_plan_bytes p)"

definition put_subject :: "VestingSubject \<Rightarrow> bytes" where
  "put_subject s =
     (case s of SnapshotSubject h \<Rightarrow> [0] @ hs_root h @ to_be64 (hs_eligible_count h)
      | Beneficiary b \<Rightarrow> [1] @ put_bytes64 b)"

definition put_position :: "VestingPosition \<Rightarrow> bytes" where
  "put_position p =
     to_be64 (vp_epoch p) @ put_subject (vp_subject p) @ [channel_tag (vp_channel p)] @ to_be128 (vp_amount p)
       @ to_be128 (vp_starts_at_policy_ms p) @ to_be64 (vp_duration_ms p)"

definition ledger_bytes :: "MonetaryLedger \<Rightarrow> bytes" where
  "ledger_bytes L =
     ascii ''mini-economy/monetary-ledger/v1'' @ to_be128 (ml_genesis_circulating L) @ to_be128 (ml_total_issued L)
       @ to_be128 (ml_policy_time_ms L)
       @ (case ml_last_epoch L of Some e \<Rightarrow> [1] @ to_be64 e | None \<Rightarrow> [0])
       @ to_be64 (len64 (ml_positions L)) @ concat (map put_position (ml_positions L))"

definition ledger_commitment :: "crypto \<Rightarrow> MonetaryLedger \<Rightarrow> Multihash" where
  "ledger_commitment C L = multihash_of C Blake3 (ledger_bytes L)"

section \<open>Lemmas\<close>

lemma length_eq_len64: "length x = unat (w :: u64) \<longleftrightarrow> length x < 2 ^ 64 \<and> w = len64 x"
proof
  assume l: "length x = unat w"
  then have "length x < 2 ^ 64" using unsigned_less [of w, where ?'a = nat] by simp
  moreover from this have "unat w = unat (len64 x)" using l by simp
  ultimately show "length x < 2 ^ 64 \<and> w = len64 x" by (simp add: word_unat_eq_iff)
qed auto

lemma len64_Nil [simp]: "len64 [] = 0"
  by (simp add: len64_def)

lemma channel_tag_inject [simp]: "channel_tag c = channel_tag d \<longleftrightarrow> c = d"
  by (cases c; cases d) (simp_all add: channel_tag_def)

lemma rd_channel_iff [wire_iff]: "rd_channel bs = Inr (c, r) \<longleftrightarrow> bs = channel_tag c # r"
  by (cases bs; cases c) (auto simp: rd_channel_def rd_u8_def channel_tag_def split: if_splits)

definition grant_wire_ok :: "VestingGrant \<Rightarrow> bool" where
  "grant_wire_ok g =
     (vg_beneficiary g \<noteq> [] \<and> length (vg_beneficiary g) \<le> MAX_EPOCH_BENEFICIARY_BYTES \<and> utf8_valid (vg_beneficiary g))"

lemma rd_grant_iff: "rd_grant bs = Inr (g, r) \<longleftrightarrow> grant_wire_ok g \<and> bs = put_grant g @ r"
proof
  assume "rd_grant bs = Inr (g, r)"
  then obtain n b c a v where "n \<noteq> 0" "unat n \<le> MAX_EPOCH_BENEFICIARY_BYTES" "length b = unat n" "utf8_valid b"
      "g = \<lparr>vg_beneficiary = b, vg_channel = c, vg_amount = a, vg_vesting_ms = v\<rparr>"
      "bs = to_be64 n @ b @ channel_tag c # to_be128 a @ to_be64 v @ r"
    by (auto simp: rd_grant_def wire_iff take_n_eq_Inr not_less)
  then show "grant_wire_ok g \<and> bs = put_grant g @ r"
    by (auto simp: grant_wire_ok_def put_grant_def length_eq_len64)
next
  assume a: "grant_wire_ok g \<and> bs = put_grant g @ r"
  then have l: "length (vg_beneficiary g) < 2 ^ 64" by (simp add: grant_wire_ok_def MAX_EPOCH_BENEFICIARY_BYTES_def)
  then have "len64 (vg_beneficiary g) \<noteq> 0" using a by (metis grant_wire_ok_def length_0_conv unat_0 unat_len64)
  with a l show "rd_grant bs = Inr (g, r)"
    by (simp add: rd_grant_def put_grant_def grant_wire_ok_def rd_channel_def channel_tag_def split: Channel.splits)
qed

interpretation grant: canonical_codec put_grant rd_grant grant_wire_ok
  by unfold_locales (rule rd_grant_iff)

definition put_human :: "HumanSharePlan \<Rightarrow> bytes" where
  "put_human h =
     to_be64 (hp_epoch h) @ hs_root (hp_snapshot h) @ to_be64 (hs_eligible_count (hp_snapshot h))
       @ to_be128 (hp_cap h) @ to_be128 (hp_per_human h) @ to_be128 (hp_issued h) @ to_be128 (hp_unissued_remainder h)
       @ to_be64 (hp_vesting_ms h)"

definition root_ok :: "HumanSharePlan \<Rightarrow> bool" where
  "root_ok h = (length (hs_root (hp_snapshot h)) = 32)"

interpretation human: canonical_codec put_human rd_human root_ok
proof
  fix bs h r
  show "rd_human bs = Inr (h, r) \<longleftrightarrow> root_ok h \<and> bs = put_human h @ r"
  proof
    assume "rd_human bs = Inr (h, r)"
    then show "root_ok h \<and> bs = put_human h @ r"
      by (auto simp: rd_human_def wire_iff take_n_eq_Inr root_ok_def put_human_def)
  qed (auto simp: rd_human_def root_ok_def put_human_def)
qed

definition put_grants :: "VestingGrant list \<Rightarrow> bytes" where
  "put_grants gs = to_be64 (len64 gs) @ concat (map put_grant gs)"

definition grants_ok :: "VestingGrant list \<Rightarrow> bool" where
  "grants_ok gs = (length gs \<le> MAX_SCALABLE_EPOCH_GRANTS \<and> list_all grant_wire_ok gs)"

interpretation grants: canonical_codec put_grants rd_grants grants_ok
proof
  fix bs gs r
  show "rd_grants bs = Inr (gs, r) \<longleftrightarrow> grants_ok gs \<and> bs = put_grants gs @ r"
  proof
    assume "rd_grants bs = Inr (gs, r)"
    then show "grants_ok gs \<and> bs = put_grants gs @ r"
      by (auto simp: rd_grants_def wire_iff grant.list_iff grants_ok_def put_grants_def length_eq_len64)
  next
    assume a: "grants_ok gs \<and> bs = put_grants gs @ r"
    then have "length gs < 2 ^ 64" by (simp add: grants_ok_def MAX_SCALABLE_EPOCH_GRANTS_def)
    with a show "rd_grants bs = Inr (gs, r)"
      by (simp add: rd_grants_def put_grants_def grants_ok_def grant.dec_list)
  qed
qed

lemma plan_canonical_split:
  "plan_canonical_bytes p =
     PLAN_DOMAIN @ to_be64 (sp_epoch p) @ to_be64 (sp_duration_ms p) @ to_be128 (sp_opening_circulating p)
       @ put_human (sp_human p)
       @ to_be128 (sp_service_cap p) @ to_be128 (sp_treasury_cap p) @ to_be128 (sp_total_cap p)
       @ to_be128 (sp_service_issued p) @ to_be128 (sp_treasury_issued p) @ to_be128 (sp_total_issued p)
       @ put_grants (sp_optional_grants p)"
  by (simp add: plan_canonical_bytes_def put_human_def put_grants_def)

text \<open>Rust values of the plan type: a 32-byte root and UTF-8 beneficiaries.\<close>

definition plan_typed :: "ScalableEpochPlan \<Rightarrow> bool" where
  "plan_typed p = (root_ok (sp_human p) \<and> list_all (\<lambda>g. utf8_valid (vg_beneficiary g)) (sp_optional_grants p))"

lemma plan_to_wire_Inr:
  "plan_to_wire_bytes p = Inr bs \<and> plan_typed p \<longleftrightarrow>
     root_ok (sp_human p) \<and> grants_ok (sp_optional_grants p) \<and> bs = plan_canonical_bytes p
     \<and> length bs \<le> MAX_SCALABLE_EPOCH_PLAN_BYTES"
proof -
  have "grants_ok (sp_optional_grants p) \<longleftrightarrow> length (sp_optional_grants p) \<le> MAX_SCALABLE_EPOCH_GRANTS
      \<and> \<not> list_ex (\<lambda>g. vg_beneficiary g = [] \<or> length (vg_beneficiary g) > MAX_EPOCH_BENEFICIARY_BYTES) (sp_optional_grants p)
      \<and> list_all (\<lambda>g. utf8_valid (vg_beneficiary g)) (sp_optional_grants p)"
    by (auto simp: grants_ok_def grant_wire_ok_def list_all_iff list_ex_iff not_less)
  then show ?thesis by (auto simp: plan_to_wire_bytes_def plan_typed_def Let_def)
qed

lemma plan_eta:
  "\<lparr>sp_epoch = sp_epoch p, sp_duration_ms = sp_duration_ms p, sp_opening_circulating = sp_opening_circulating p,
     sp_human = sp_human p, sp_service_cap = sp_service_cap p, sp_treasury_cap = sp_treasury_cap p,
     sp_total_cap = sp_total_cap p, sp_service_issued = sp_service_issued p, sp_treasury_issued = sp_treasury_issued p,
     sp_total_issued = sp_total_issued p, sp_optional_grants = sp_optional_grants p\<rparr> = p"
  by simp

lemma plan_from_wire_complete:
  assumes "root_ok (sp_human p)" "grants_ok (sp_optional_grants p)" "plan_to_wire_bytes p = Inr (plan_canonical_bytes p)"
    "length (plan_canonical_bytes p) \<le> MAX_SCALABLE_EPOCH_PLAN_BYTES"
  shows "plan_from_wire_bytes (plan_canonical_bytes p) = Inr p"
proof -
  have "take_n MalformedEncoding (length PLAN_DOMAIN) (plan_canonical_bytes p)
      = Inr (PLAN_DOMAIN, drop (length PLAN_DOMAIN) (plan_canonical_bytes p))"
    by (simp add: plan_canonical_split)
  moreover have "drop (length PLAN_DOMAIN) (plan_canonical_bytes p) =
      to_be64 (sp_epoch p) @ to_be64 (sp_duration_ms p) @ to_be128 (sp_opening_circulating p)
       @ put_human (sp_human p)
       @ to_be128 (sp_service_cap p) @ to_be128 (sp_treasury_cap p) @ to_be128 (sp_total_cap p)
       @ to_be128 (sp_service_issued p) @ to_be128 (sp_treasury_issued p) @ to_be128 (sp_total_issued p)
       @ put_grants (sp_optional_grants p)"
    by (simp add: plan_canonical_split)
  ultimately show ?thesis using assms
    by (simp add: plan_from_wire_bytes_def human.dec_enc grants.dec_whole plan_eta)
qed

lemma plan_from_wire_sound:
  assumes "plan_from_wire_bytes bs = Inr p"
  shows "root_ok (sp_human p) \<and> grants_ok (sp_optional_grants p) \<and> plan_to_wire_bytes p = Inr bs"
proof -
  have h: "\<And>bs h r. rd_human bs = Inr (h, r) \<Longrightarrow> root_ok h" and g: "\<And>bs gs r. rd_grants bs = Inr (gs, r) \<Longrightarrow> grants_ok gs"
    by (simp_all add: human.dec_iff grants.dec_iff)
  from assms show ?thesis unfolding plan_from_wire_bytes_def Let_def by (auto dest: h g split: if_split_asm)
qed

section \<open>Properties\<close>

text \<open>Property (C37): the wire format of epoch plans is canonical. The decoder accepts exactly the bytes
  the encoder produces: it returns the plan \<open>p\<close> for \<open>bs\<close> if and only if \<open>p\<close> is a value of the plan type
  and \<open>bs\<close> is its bounded encoding. Every plan within the limits survives the round trip, and no two
  byte strings decode to the same plan.\<close>

theorem plan_wire_canonical:
  "plan_from_wire_bytes bs = Inr p \<longleftrightarrow> plan_typed p \<and> plan_to_wire_bytes p = Inr bs"
proof
  assume "plan_from_wire_bytes bs = Inr p"
  note w = plan_from_wire_sound [OF this]
  then have "list_all grant_wire_ok (sp_optional_grants p)" unfolding grants_ok_def by blast
  then have "list_all (\<lambda>g. utf8_valid (vg_beneficiary g)) (sp_optional_grants p)"
    by (rule list.pred_mono_strong) (simp add: grant_wire_ok_def)
  with w show "plan_typed p \<and> plan_to_wire_bytes p = Inr bs" unfolding plan_typed_def by blast
next
  assume a: "plan_typed p \<and> plan_to_wire_bytes p = Inr bs"
  then have "root_ok (sp_human p) \<and> grants_ok (sp_optional_grants p) \<and> bs = plan_canonical_bytes p
     \<and> length bs \<le> MAX_SCALABLE_EPOCH_PLAN_BYTES" using plan_to_wire_Inr by blast
  with a show "plan_from_wire_bytes bs = Inr p" using plan_from_wire_complete by blast
qed

text \<open>What the types of the ledger and the size of memory already guarantee of its parts.\<close>

definition subject_typed :: "VestingSubject \<Rightarrow> bool" where
  "subject_typed s = (case s of SnapshotSubject h \<Rightarrow> length (hs_root h) = 32 | Beneficiary b \<Rightarrow> length b < 2 ^ 64 \<and> utf8_valid b)"

definition ledger_typed :: "MonetaryLedger \<Rightarrow> bool" where
  "ledger_typed L = (length (ml_positions L) < 2 ^ 64 \<and> list_all (\<lambda>p. subject_typed (vp_subject p)) (ml_positions L))"

lemma root_count_split:
  "length (hs_root h) = 32 \<Longrightarrow> length (hs_root h') = 32 \<Longrightarrow>
     hs_root h @ to_be64 (hs_eligible_count h) @ r = hs_root h' @ to_be64 (hs_eligible_count h') @ s \<Longrightarrow> h = h' \<and> r = s"
  for h h' :: HumanSnapshot
  by (simp add: append_eq_append_conv)

interpretation subject: prefix_code put_subject subject_typed
proof
  fix x y :: VestingSubject and r s
  assume t: "subject_typed x" "subject_typed y" and e: "put_subject x @ r = put_subject y @ s"
  show "x = y \<and> r = s"
  proof (cases x)
    case (SnapshotSubject h)
    then obtain h' where y: "y = SnapshotSubject h'" using e by (cases y) (simp_all add: put_subject_def)
    have "h = h' \<and> r = s" by (rule root_count_split) (use t e SnapshotSubject y in \<open>simp_all add: subject_typed_def put_subject_def\<close>)
    with SnapshotSubject y show ?thesis by simp
  next
    case (Beneficiary b)
    then obtain b' where y: "y = Beneficiary b'" using e by (cases y) (simp_all add: put_subject_def)
    have "b = b' \<and> r = s" by (rule bytes64.split) (use t e Beneficiary y in \<open>simp_all add: subject_typed_def put_subject_def\<close>)
    with Beneficiary y show ?thesis by simp
  qed
qed

interpretation position: prefix_code put_position "\<lambda>p. subject_typed (vp_subject p)"
proof
  fix x y :: VestingPosition and r s
  assume t: "subject_typed (vp_subject x)" "subject_typed (vp_subject y)" and e: "put_position x @ r = put_position y @ s"
  let ?tl = "\<lambda>p. channel_tag (vp_channel p) # to_be128 (vp_amount p) @ to_be128 (vp_starts_at_policy_ms p) @ to_be64 (vp_duration_ms p)"
  from e have "vp_epoch x = vp_epoch y" and "put_subject (vp_subject x) @ ?tl x @ r = put_subject (vp_subject y) @ ?tl y @ s"
    by (simp_all add: put_position_def)
  moreover from subject.split [OF t this(2)] have "vp_subject x = vp_subject y" "?tl x @ r = ?tl y @ s" by blast+
  ultimately show "x = y \<and> r = s" by simp
qed

lemma ledger_bytes_inj:
  assumes "ledger_typed L" "ledger_typed K" "ledger_bytes L = ledger_bytes K"
  shows "L = K"
proof -
  let ?tl = "\<lambda>L. to_be64 (len64 (ml_positions L)) @ concat (map put_position (ml_positions L))"
  from assms(3) have h: "ml_genesis_circulating L = ml_genesis_circulating K" "ml_total_issued L = ml_total_issued K"
      "ml_policy_time_ms L = ml_policy_time_ms K"
    and e: "(case ml_last_epoch L of Some e \<Rightarrow> [1] @ to_be64 e | None \<Rightarrow> [0]) @ ?tl L
      = (case ml_last_epoch K of Some e \<Rightarrow> [1] @ to_be64 e | None \<Rightarrow> [0]) @ ?tl K"
    unfolding ledger_bytes_def by simp_all
  from e have l: "ml_last_epoch L = ml_last_epoch K" and tl: "?tl L = ?tl K" by (auto split: option.splits)
  from position.counted64 [of "ml_positions L" "[]" "ml_positions K" "[]"] tl assms(1,2)
  have "ml_positions L = ml_positions K" by (simp add: ledger_typed_def)
  with h l show ?thesis by simp
qed

text \<open>The monetary commitment identifies the ledger. Two ledgers with the same commitment
  are equal in every field and every position, or the two encodings are an explicit BLAKE3 collision.\<close>

lemma ledger_commitment_binds:
  assumes "ledger_typed L" "ledger_typed K" "ledger_commitment C L = ledger_commitment C K"
  shows "L = K \<or> collides C (ledger_bytes L) (ledger_bytes K)"
proof -
  have "c_blake3 C (ledger_bytes L) = c_blake3 C (ledger_bytes K)"
    using assms(3) by (simp add: ledger_commitment_def multihash_of_def)
  from blake3_eqD [OF this] ledger_bytes_inj [OF assms(1,2)] show ?thesis by blast
qed

text \<open>Issuance boundaries of the cadence: epochs are proposed exactly at the multiples of the issuance
  period, numbered consecutively from zero.\<close>

lemma next_after_epoch:
  assumes "cadence_new t n = Inr c" "next_after c f = Inr target"
  shows "unat (st_round target) = unat f + 1"
    "st_issuance_epoch target = Some e \<longleftrightarrow> unat f + 1 = (unat e + 1) * unat n"
proof -
  from assms have n: "n \<noteq> 0" "sc_rounds_per_issuance c = n" by (auto simp: cadence_new_def split: if_splits)
  from assms(2) obtain r where r: "unat r = unat f + 1" "st_round target = r"
      "st_issuance_epoch target = (if r mod n = 0 then Some (r div n - 1) else None)"
    by (auto simp: next_after_def checked_add_Some n)
  show "unat (st_round target) = unat f + 1" using r by simp
  have pos: "0 < unat n" using n by (simp add: unat_gt_0)
  show "st_issuance_epoch target = Some e \<longleftrightarrow> unat f + 1 = (unat e + 1) * unat n"
  proof (cases "r mod n = 0")
    case True
    then have d: "unat r = unat (r div n) * unat n" using div_mult_mod_eq [of "unat r" "unat n"]
      by (metis add.right_neutral unat_0 unat_div_distrib unat_mod_distrib)
    have "unat (r div n) \<noteq> 0" using d unfolding r(1) by (cases "unat (r div n)") simp_all
    then have "unat (r div n - 1) + 1 = unat (r div n)"
      by (metis Suc_eq_plus1 Suc_pred' bot_nat_0.not_eq_extremum unat_0 unat_minus_one)
    then have "r div n - 1 = e \<longleftrightarrow> unat (r div n) = unat e + 1" by (auto simp: word_unat_eq_iff)
    also have "\<dots> \<longleftrightarrow> unat r = (unat e + 1) * unat n" using d pos by (metis mult_cancel2 neq0_conv)
    finally show ?thesis using True r by simp
  next
    case False
    then have "unat r mod unat n \<noteq> 0" by (metis unat_0 unat_mod_distrib word_unat_eq_iff)
    then have "unat r \<noteq> (unat e + 1) * unat n" by auto
    with False r show ?thesis by simp
  qed
qed

end
