(* ===== verification/Settlement.thy ===== *)
theory Settlement
  imports Crypto Checked
begin

text \<open>
  The crate \<open>mini-settlement\<close>: signed payment claims of both versions with their wire forms, the
  states a claim goes through, the local watcher, the view of the canonical ledger, and the two
  decisions made from them: local acceptance, a risk decision before finality, and reconciliation
  against the canonical ledger. A view (a value of the trait \<open>CanonicalLedgerView\<close>) is the record
  of its methods; a watcher is a state with its method \<open>observe\<close>.
\<close>

section \<open>Errors (error.rs)\<close>

datatype SettlementError =
    ClaimBadSignature
  | BadKey
  | UnsupportedSignatureSuite
  | ZeroAmount
  | BadValidityWindow
  | ConflictsWithKnownClaim
  | MalformedClaim
  | ClaimTooLarge

section \<open>Payment claims (claim.rs)\<close>

definition CLAIM_DOMAIN :: bytes where "CLAIM_DOMAIN = ascii ''mini-settlement/payment-claim/v1''"
definition CLAIM_WIRE_DOMAIN :: bytes where "CLAIM_WIRE_DOMAIN = ascii ''mini-settlement/payment-claim-wire/v1''"
definition MAX_CLAIM_FIELD_BYTES :: nat where "MAX_CLAIM_FIELD_BYTES = 4096"
definition MAX_PAYMENT_CLAIM_BYTES :: nat where "MAX_PAYMENT_CLAIM_BYTES = 16 * 1024"

definition MININET_NETWORK_ID :: bytes where
  "MININET_NETWORK_ID = ascii ''mininet-public-settlement-v1'' @ [0, 0, 0, 0]"

record PaymentClaim =
  pc_network_id :: bytes
  pc_payer :: bytes
  pc_payee :: bytes
  pc_amount_micro :: u64
  pc_sequence :: u64
  pc_valid_until_ms :: u64
  pc_last_known_chain :: bytes
  pc_signature :: Signature

definition put_bytes :: "bytes \<Rightarrow> bytes" where
  "put_bytes b = to_be32 (len32 b) @ b"

definition claim_message :: "bytes \<Rightarrow> bytes \<Rightarrow> bytes \<Rightarrow> u64 \<Rightarrow> u64 \<Rightarrow> u64 \<Rightarrow> bytes \<Rightarrow> bytes" where
  "claim_message network_id payer payee amount_micro sequence valid_until_ms last_known_chain =
     CLAIM_DOMAIN @ network_id @ to_be32 (len32 payer) @ payer @ to_be32 (len32 payee) @ payee
       @ to_be64 amount_micro @ to_be64 sequence @ to_be64 valid_until_ms
       @ to_be32 (len32 last_known_chain) @ last_known_chain"

text \<open>The message of a claim: what \<open>verify_claim_signature\<close> and \<open>claim_digest\<close> both rebuild.\<close>

definition message_of :: "PaymentClaim \<Rightarrow> bytes" where
  "message_of claim =
     claim_message (pc_network_id claim) (pc_payer claim) (pc_payee claim) (pc_amount_micro claim)
       (pc_sequence claim) (pc_valid_until_ms claim) (pc_last_known_chain claim)"

text \<open>\<open>sign\<close> has no value where the signing key panics.\<close>

definition sign_claim_for_network ::
  "crypto \<Rightarrow> SigningKey \<Rightarrow> bytes \<Rightarrow> u64 \<Rightarrow> u64 \<Rightarrow> u64 \<Rightarrow> bytes \<Rightarrow> bytes \<Rightarrow> u64
     \<Rightarrow> SettlementError fault + PaymentClaim" where
  "sign_claim_for_network C payer payee amount_micro sequence valid_until_ms network_id last_known_chain now_ms =
     andThen (ensure (sk_suite payer = DEFAULT_SUITE) (Fail UnsupportedSignatureSuite)) (\<lambda>_.
     andThen (ensure (amount_micro \<noteq> 0) (Fail ZeroAmount)) (\<lambda>_.
     andThen (ensure (\<not> valid_until_ms \<le> now_ms) (Fail BadValidityWindow)) (\<lambda>_.
       let payer_bytes = vk_to_bytes (verifying_key C payer);
           message = claim_message network_id payer_bytes payee amount_micro sequence valid_until_ms
             last_known_chain
       in andThen (ok_or (sk_sign C payer message) Panic) (\<lambda>signature.
            Inr \<lparr>pc_network_id = network_id, pc_payer = payer_bytes, pc_payee = payee,
                 pc_amount_micro = amount_micro, pc_sequence = sequence,
                 pc_valid_until_ms = valid_until_ms, pc_last_known_chain = last_known_chain,
                 pc_signature = signature\<rparr>))))"

definition sign_claim ::
  "crypto \<Rightarrow> SigningKey \<Rightarrow> bytes \<Rightarrow> u64 \<Rightarrow> u64 \<Rightarrow> u64 \<Rightarrow> bytes \<Rightarrow> u64
     \<Rightarrow> SettlementError fault + PaymentClaim" where
  "sign_claim C payer payee amount_micro sequence valid_until_ms last_known_chain now_ms =
     sign_claim_for_network C payer payee amount_micro sequence valid_until_ms MININET_NETWORK_ID
       last_known_chain now_ms"

definition claim_to_wire_bytes :: "PaymentClaim \<Rightarrow> SettlementError + bytes" where
  "claim_to_wire_bytes c =
     (if length (pc_payer c) > MAX_CLAIM_FIELD_BYTES \<or> length (pc_payee c) > MAX_CLAIM_FIELD_BYTES
         \<or> length (pc_last_known_chain c) > MAX_CLAIM_FIELD_BYTES
      then Inl ClaimTooLarge
      else let w = CLAIM_WIRE_DOMAIN @ pc_network_id c @ put_bytes (pc_payer c) @ put_bytes (pc_payee c)
                 @ to_be64 (pc_amount_micro c) @ to_be64 (pc_sequence c) @ to_be64 (pc_valid_until_ms c)
                 @ put_bytes (pc_last_known_chain c)
                 @ [suite_tag (sig_suite (pc_signature c))] @ sig_bytes (pc_signature c)
           in if length w > MAX_PAYMENT_CLAIM_BYTES then Inl ClaimTooLarge else Inr w)"

definition cr_take :: "nat \<Rightarrow> bytes \<Rightarrow> SettlementError + bytes \<times> bytes" where
  "cr_take = take_n MalformedClaim"

definition cr_u8 :: "bytes \<Rightarrow> SettlementError + u8 \<times> bytes" where
  "cr_u8 = rd_u8 MalformedClaim"

definition cr_u32 :: "bytes \<Rightarrow> SettlementError + u32 \<times> bytes" where
  "cr_u32 = rd_u32 MalformedClaim"

definition cr_u64 :: "bytes \<Rightarrow> SettlementError + u64 \<times> bytes" where
  "cr_u64 = rd_u64 MalformedClaim"

definition cr_bytes :: "nat \<Rightarrow> bytes \<Rightarrow> SettlementError + bytes \<times> bytes" where
  "cr_bytes maximum bs =
     andThen (cr_u32 bs) (\<lambda>(len, r).
     andThen (ensure (\<not> unat len > maximum) ClaimTooLarge) (\<lambda>_. cr_take (unat len) r))"

text \<open>The suite tag and the signature of that suite that end both claim formats.\<close>

definition cr_signature :: "crypto \<Rightarrow> bytes \<Rightarrow> SettlementError + Signature \<times> bytes" where
  "cr_signature C bs =
     andThen (cr_u8 bs) (\<lambda>(t, r).
     andThen (map_err (\<lambda>_. MalformedClaim) (suite_from_tag t)) (\<lambda>suite.
     andThen (cr_take (signature_len C suite) r) (\<lambda>(b, r).
     andThen (map_err (\<lambda>_. MalformedClaim) (sig_from_suite_bytes C suite b)) (\<lambda>s. Inr (s, r)))))"

definition claim_from_wire_bytes :: "crypto \<Rightarrow> bytes \<Rightarrow> SettlementError + PaymentClaim" where
  "claim_from_wire_bytes C bs =
     andThen (ensure (\<not> length bs > MAX_PAYMENT_CLAIM_BYTES) ClaimTooLarge) (\<lambda>_.
     andThen (cr_take (length CLAIM_WIRE_DOMAIN) bs) (\<lambda>(domain, r).
     andThen (ensure (domain = CLAIM_WIRE_DOMAIN) MalformedClaim) (\<lambda>_.
     andThen (cr_take 32 r) (\<lambda>(network_id, r).
     andThen (cr_bytes MAX_CLAIM_FIELD_BYTES r) (\<lambda>(payer, r).
     andThen (cr_bytes MAX_CLAIM_FIELD_BYTES r) (\<lambda>(payee, r).
     andThen (cr_u64 r) (\<lambda>(amount_micro, r).
     andThen (cr_u64 r) (\<lambda>(sequence, r).
     andThen (cr_u64 r) (\<lambda>(valid_until_ms, r).
     andThen (cr_bytes MAX_CLAIM_FIELD_BYTES r) (\<lambda>(last_known_chain, r).
     andThen (cr_signature C r) (\<lambda>(signature, r).
     andThen (ensure (r = []) MalformedClaim) (\<lambda>_.
       Inr \<lparr>pc_network_id = network_id, pc_payer = payer, pc_payee = payee,
            pc_amount_micro = amount_micro, pc_sequence = sequence,
            pc_valid_until_ms = valid_until_ms, pc_last_known_chain = last_known_chain,
            pc_signature = signature\<rparr>))))))))))))"

definition verify_claim_signature :: "crypto \<Rightarrow> PaymentClaim \<Rightarrow> SettlementError + unit" where
  "verify_claim_signature C claim =
     andThen (ensure (pc_amount_micro claim \<noteq> 0) ZeroAmount) (\<lambda>_.
     andThen (map_err (\<lambda>_. BadKey) (vk_from_suite_bytes C DEFAULT_SUITE (pc_payer claim))) (\<lambda>payer_key.
       map_err (\<lambda>_. ClaimBadSignature)
         (vk_verify C payer_key (message_of claim) (pc_signature claim))))"

definition claim_digest :: "crypto \<Rightarrow> PaymentClaim \<Rightarrow> bytes" where
  "claim_digest C claim = hash_digest C Blake3 (message_of claim)"

section \<open>Height-anchored claims (claim\_v2.rs)\<close>

definition CLAIM_V2_DOMAIN :: bytes where "CLAIM_V2_DOMAIN = ascii ''mini-settlement/payment-claim-v2/v1''"
definition CLAIM_V2_WIRE_DOMAIN :: bytes where
  "CLAIM_V2_WIRE_DOMAIN = ascii ''mini-settlement/payment-claim-v2-wire/v1''"
definition MAX_PAYMENT_CLAIM_V2_BYTES :: nat where "MAX_PAYMENT_CLAIM_V2_BYTES = 16 * 1024"
definition MAX_VALIDITY_HEIGHT_SPAN :: u64 where "MAX_VALIDITY_HEIGHT_SPAN = 1000000"

record ChainAnchorV2 =
  ca_height :: u64
  ca_block_id :: bytes

record PaymentClaimV2 =
  p2_network_id :: bytes
  p2_payer :: bytes
  p2_payee :: bytes
  p2_amount_micro :: u64
  p2_sequence :: u64
  p2_anchor :: ChainAnchorV2
  p2_valid_through_height :: u64
  p2_claim_context :: bytes
  p2_signature :: Signature

definition claim_v2_message ::
  "bytes \<Rightarrow> bytes \<Rightarrow> bytes \<Rightarrow> u64 \<Rightarrow> u64 \<Rightarrow> ChainAnchorV2 \<Rightarrow> u64 \<Rightarrow> bytes \<Rightarrow> bytes" where
  "claim_v2_message network_id payer payee amount_micro sequence anchor valid_through_height claim_context =
     CLAIM_V2_DOMAIN @ network_id @ to_be32 (len32 payer) @ payer @ to_be32 (len32 payee) @ payee
       @ to_be64 amount_micro @ to_be64 sequence @ to_be64 (ca_height anchor) @ ca_block_id anchor
       @ to_be64 valid_through_height @ claim_context"

definition message_of_v2 :: "PaymentClaimV2 \<Rightarrow> bytes" where
  "message_of_v2 claim =
     claim_v2_message (p2_network_id claim) (p2_payer claim) (p2_payee claim) (p2_amount_micro claim)
       (p2_sequence claim) (p2_anchor claim) (p2_valid_through_height claim) (p2_claim_context claim)"

definition sign_claim_v2_for_network ::
  "crypto \<Rightarrow> SigningKey \<Rightarrow> bytes \<Rightarrow> u64 \<Rightarrow> u64 \<Rightarrow> ChainAnchorV2 \<Rightarrow> u64 \<Rightarrow> u64 \<Rightarrow> bytes \<Rightarrow> bytes
     \<Rightarrow> SettlementError fault + PaymentClaimV2" where
  "sign_claim_v2_for_network C payer payee amount_micro sequence anchor valid_through_height
      max_validity_height_span network_id claim_context =
     andThen (ensure (sk_suite payer = DEFAULT_SUITE) (Fail UnsupportedSignatureSuite)) (\<lambda>_.
     andThen (ensure (amount_micro \<noteq> 0) (Fail ZeroAmount)) (\<lambda>_.
     andThen (ensure (\<not> valid_through_height \<le> ca_height anchor) (Fail BadValidityWindow)) (\<lambda>_.
     andThen (ensure (\<not> valid_through_height - ca_height anchor
         > min max_validity_height_span MAX_VALIDITY_HEIGHT_SPAN) (Fail BadValidityWindow)) (\<lambda>_.
       let payer_bytes = vk_to_bytes (verifying_key C payer);
           message = claim_v2_message network_id payer_bytes payee amount_micro sequence anchor
             valid_through_height claim_context
       in andThen (ok_or (sk_sign C payer message) Panic) (\<lambda>signature.
            Inr \<lparr>p2_network_id = network_id, p2_payer = payer_bytes, p2_payee = payee,
                 p2_amount_micro = amount_micro, p2_sequence = sequence, p2_anchor = anchor,
                 p2_valid_through_height = valid_through_height, p2_claim_context = claim_context,
                 p2_signature = signature\<rparr>)))))"

definition sign_claim_v2 ::
  "crypto \<Rightarrow> SigningKey \<Rightarrow> bytes \<Rightarrow> u64 \<Rightarrow> u64 \<Rightarrow> ChainAnchorV2 \<Rightarrow> u64 \<Rightarrow> u64 \<Rightarrow> bytes
     \<Rightarrow> SettlementError fault + PaymentClaimV2" where
  "sign_claim_v2 C payer payee amount_micro sequence anchor valid_through_height
      max_validity_height_span claim_context =
     sign_claim_v2_for_network C payer payee amount_micro sequence anchor valid_through_height
       max_validity_height_span MININET_NETWORK_ID claim_context"

definition verify_claim_v2_signature :: "crypto \<Rightarrow> PaymentClaimV2 \<Rightarrow> SettlementError + unit" where
  "verify_claim_v2_signature C claim =
     andThen (ensure (p2_amount_micro claim \<noteq> 0) ZeroAmount) (\<lambda>_.
     andThen (ensure (\<not> (p2_valid_through_height claim \<le> ca_height (p2_anchor claim)
         \<or> p2_valid_through_height claim - ca_height (p2_anchor claim) > MAX_VALIDITY_HEIGHT_SPAN))
         BadValidityWindow) (\<lambda>_.
     andThen (map_err (\<lambda>_. BadKey) (vk_from_suite_bytes C DEFAULT_SUITE (p2_payer claim))) (\<lambda>payer_key.
       map_err (\<lambda>_. ClaimBadSignature)
         (vk_verify C payer_key (message_of_v2 claim) (p2_signature claim)))))"

definition claim_v2_digest :: "crypto \<Rightarrow> PaymentClaimV2 \<Rightarrow> bytes" where
  "claim_v2_digest C claim = hash_digest C Blake3 (message_of_v2 claim)"

definition claim_v2_to_wire_bytes :: "PaymentClaimV2 \<Rightarrow> SettlementError + bytes" where
  "claim_v2_to_wire_bytes c =
     (if length (p2_payer c) > MAX_CLAIM_FIELD_BYTES \<or> length (p2_payee c) > MAX_CLAIM_FIELD_BYTES
      then Inl ClaimTooLarge
      else let w = CLAIM_V2_WIRE_DOMAIN @ p2_network_id c @ put_bytes (p2_payer c) @ put_bytes (p2_payee c)
                 @ to_be64 (p2_amount_micro c) @ to_be64 (p2_sequence c)
                 @ to_be64 (ca_height (p2_anchor c)) @ ca_block_id (p2_anchor c)
                 @ to_be64 (p2_valid_through_height c) @ p2_claim_context c
                 @ [suite_tag (sig_suite (p2_signature c))] @ sig_bytes (p2_signature c)
           in if length w > MAX_PAYMENT_CLAIM_V2_BYTES then Inl ClaimTooLarge else Inr w)"

definition claim_v2_from_wire_bytes :: "crypto \<Rightarrow> bytes \<Rightarrow> SettlementError + PaymentClaimV2" where
  "claim_v2_from_wire_bytes C bs =
     andThen (ensure (\<not> length bs > MAX_PAYMENT_CLAIM_V2_BYTES) ClaimTooLarge) (\<lambda>_.
     andThen (cr_take (length CLAIM_V2_WIRE_DOMAIN) bs) (\<lambda>(domain, r).
     andThen (ensure (domain = CLAIM_V2_WIRE_DOMAIN) MalformedClaim) (\<lambda>_.
     andThen (cr_take 32 r) (\<lambda>(network_id, r).
     andThen (cr_bytes MAX_CLAIM_FIELD_BYTES r) (\<lambda>(payer, r).
     andThen (cr_bytes MAX_CLAIM_FIELD_BYTES r) (\<lambda>(payee, r).
     andThen (cr_u64 r) (\<lambda>(amount_micro, r).
     andThen (cr_u64 r) (\<lambda>(sequence, r).
     andThen (cr_u64 r) (\<lambda>(height, r).
     andThen (cr_take 32 r) (\<lambda>(block_id, r).
     andThen (cr_u64 r) (\<lambda>(valid_through_height, r).
     andThen (cr_take 32 r) (\<lambda>(claim_context, r).
     andThen (cr_signature C r) (\<lambda>(signature, r).
     andThen (ensure (r = []) MalformedClaim) (\<lambda>_.
       Inr \<lparr>p2_network_id = network_id, p2_payer = payer, p2_payee = payee,
            p2_amount_micro = amount_micro, p2_sequence = sequence,
            p2_anchor = \<lparr>ca_height = height, ca_block_id = block_id\<rparr>,
            p2_valid_through_height = valid_through_height, p2_claim_context = claim_context,
            p2_signature = signature\<rparr>))))))))))))))"

section \<open>The canonical ledger seen from a claim (ledger.rs)\<close>

datatype CanonicalRejection =
    WrongNetwork
  | UnsupportedPayee
  | StaleSequence
  | InsufficientFunds
  | UnrecognizedAnchor

record CanonicalLedgerView =
  finalized_sequence :: "bytes \<Rightarrow> u64 option"
  finalized_claim_digest :: "bytes \<Rightarrow> u64 \<Rightarrow> bytes option"
  rejected_claim :: "bytes \<Rightarrow> CanonicalRejection option"
  current_height :: u64
  is_recognized_anchor :: "u64 \<Rightarrow> bytes \<Rightarrow> bool"

record InMemoryLedgerView =
  im_finalized :: "(bytes, (u64 \<times> bytes) list) hmap"
  im_rejected :: "(bytes, CanonicalRejection) hmap"
  im_height :: u64
  im_recognized_anchors :: "(u64 \<times> bytes) list"

definition im_new :: InMemoryLedgerView where
  "im_new = \<lparr>im_finalized = [], im_rejected = [], im_height = 0, im_recognized_anchors = []\<rparr>"

definition im_finalize :: "InMemoryLedgerView \<Rightarrow> bytes \<Rightarrow> u64 \<Rightarrow> bytes \<Rightarrow> InMemoryLedgerView" where
  "im_finalize v payer sequence digest =
     v\<lparr>im_finalized := AList.update payer
         (get_or [] (map_of (im_finalized v) payer) @ [(sequence, digest)]) (im_finalized v)\<rparr>"

definition im_reject :: "InMemoryLedgerView \<Rightarrow> bytes \<Rightarrow> CanonicalRejection \<Rightarrow> InMemoryLedgerView" where
  "im_reject v digest reason = v\<lparr>im_rejected := AList.update digest reason (im_rejected v)\<rparr>"

definition im_set_height :: "InMemoryLedgerView \<Rightarrow> u64 \<Rightarrow> InMemoryLedgerView" where
  "im_set_height v height = v\<lparr>im_height := height\<rparr>"

definition im_recognize_anchor :: "InMemoryLedgerView \<Rightarrow> u64 \<Rightarrow> bytes \<Rightarrow> InMemoryLedgerView" where
  "im_recognize_anchor v height block_id =
     v\<lparr>im_recognized_anchors := List.insert (height, block_id) (im_recognized_anchors v)\<rparr>"

fun iter_max :: "u64 list \<Rightarrow> u64 option" where
  "iter_max [] = None"
| "iter_max (x # xs) = Some (case iter_max xs of None \<Rightarrow> x | Some y \<Rightarrow> max x y)"

definition im_view :: "InMemoryLedgerView \<Rightarrow> CanonicalLedgerView" where
  "im_view v =
     \<lparr>finalized_sequence = (\<lambda>payer.
        case map_of (im_finalized v) payer of None \<Rightarrow> None | Some entries \<Rightarrow> iter_max (map fst entries)),
      finalized_claim_digest = (\<lambda>payer sequence.
        case map_of (im_finalized v) payer of None \<Rightarrow> None
        | Some entries \<Rightarrow> map_option snd (List.find (\<lambda>e. fst e = sequence) entries)),
      rejected_claim = map_of (im_rejected v),
      current_height = im_height v,
      is_recognized_anchor = (\<lambda>height block_id. (height, block_id) \<in> set (im_recognized_anchors v))\<rparr>"

section \<open>The states of a claim (state.rs)\<close>

datatype SettlementState =
    SignedLocal
  | AcceptedLocal
  | PendingCanonical
  | Finalized
  | RejectedConflict
  | RejectedCanonical CanonicalRejection
  | Expired

datatype WalletLabel = Pending | AcceptedNotFinal | LabelFinalized | LabelRejected | LabelExpired

fun is_final :: "SettlementState \<Rightarrow> bool" where
  "is_final Finalized = True"
| "is_final _ = False"

fun wallet_label :: "SettlementState \<Rightarrow> WalletLabel" where
  "wallet_label SignedLocal = Pending"
| "wallet_label PendingCanonical = Pending"
| "wallet_label AcceptedLocal = AcceptedNotFinal"
| "wallet_label Finalized = LabelFinalized"
| "wallet_label RejectedConflict = LabelRejected"
| "wallet_label (RejectedCanonical _) = LabelRejected"
| "wallet_label Expired = LabelExpired"

section \<open>The local watcher (watcher.rs)\<close>

type_synonym InMemoryClaimWatcher = "(bytes \<times> u64, bytes) hmap"

definition watcher_new :: InMemoryClaimWatcher where "watcher_new = []"

definition first_seen :: "InMemoryClaimWatcher \<Rightarrow> bytes \<Rightarrow> u64 \<Rightarrow> bytes option" where
  "first_seen seen payer sequence = map_of seen (payer, sequence)"

definition observe :: "InMemoryClaimWatcher \<Rightarrow> bytes \<Rightarrow> u64 \<Rightarrow> bytes \<Rightarrow> bool \<times> InMemoryClaimWatcher" where
  "observe seen payer sequence digest =
     (case map_of seen (payer, sequence) of
        Some existing \<Rightarrow> (existing = digest, seen)
      | None \<Rightarrow> (True, AList.update (payer, sequence) digest seen))"

section \<open>Acceptance and reconciliation (reconcile.rs)\<close>

record LocalAcceptancePolicy =
  max_amount_micro_without_finality :: u64

definition never_accept_early :: LocalAcceptancePolicy where
  "never_accept_early = \<lparr>max_amount_micro_without_finality = 0\<rparr>"

text \<open>The trait object \<open>watcher\<close> is its method \<open>observe\<close> and its state, which the call updates.\<close>

definition evaluate_local_acceptance ::
  "crypto \<Rightarrow> ('w \<Rightarrow> bytes \<Rightarrow> u64 \<Rightarrow> bytes \<Rightarrow> bool \<times> 'w) \<Rightarrow> PaymentClaim \<Rightarrow> LocalAcceptancePolicy \<Rightarrow> u64 \<Rightarrow> 'w
     \<Rightarrow> (SettlementError + SettlementState) \<times> 'w" where
  "evaluate_local_acceptance C obs claim policy now_ms w =
     (case verify_claim_signature C claim of
        Inl e \<Rightarrow> (Inl e, w)
      | Inr _ \<Rightarrow>
          if now_ms \<ge> pc_valid_until_ms claim then (Inr Expired, w)
          else case obs w (pc_payer claim) (pc_sequence claim) (claim_digest C claim) of (consistent, w') \<Rightarrow>
            (if \<not> consistent then Inl ConflictsWithKnownClaim
             else if pc_amount_micro claim \<le> max_amount_micro_without_finality policy
             then Inr AcceptedLocal else Inr PendingCanonical, w'))"

text \<open>The outcome that both reconcilers compute from the finalized slot.\<close>

definition slot_outcome :: "CanonicalLedgerView \<Rightarrow> bytes \<Rightarrow> u64 \<Rightarrow> bytes \<Rightarrow> SettlementState" where
  "slot_outcome ledger payer sequence digest =
     (case finalized_sequence ledger payer of
        None \<Rightarrow> PendingCanonical
      | Some n \<Rightarrow>
          if n < sequence then PendingCanonical
          else if n = sequence then
            (case finalized_claim_digest ledger payer sequence of
               Some d \<Rightarrow> if d = digest then Finalized else RejectedConflict
             | None \<Rightarrow> RejectedConflict)
          else RejectedConflict)"

definition reconcile :: "crypto \<Rightarrow> PaymentClaim \<Rightarrow> CanonicalLedgerView \<Rightarrow> u64 \<Rightarrow> SettlementError + SettlementState" where
  "reconcile C claim ledger now_ms =
     andThen (verify_claim_signature C claim) (\<lambda>_.
       let digest = claim_digest C claim in
       case rejected_claim ledger digest of
         Some reason \<Rightarrow> Inr (RejectedCanonical reason)
       | None \<Rightarrow>
           let outcome = slot_outcome ledger (pc_payer claim) (pc_sequence claim) digest in
           if outcome = PendingCanonical \<and> now_ms \<ge> pc_valid_until_ms claim then Inr Expired
           else Inr outcome)"

definition evaluate_local_acceptance_v2 ::
  "crypto \<Rightarrow> ('w \<Rightarrow> bytes \<Rightarrow> u64 \<Rightarrow> bytes \<Rightarrow> bool \<times> 'w) \<Rightarrow> PaymentClaimV2 \<Rightarrow> LocalAcceptancePolicy \<Rightarrow> 'w
     \<Rightarrow> (SettlementError + SettlementState) \<times> 'w" where
  "evaluate_local_acceptance_v2 C obs claim policy w =
     (case verify_claim_v2_signature C claim of
        Inl e \<Rightarrow> (Inl e, w)
      | Inr _ \<Rightarrow>
          case obs w (p2_payer claim) (p2_sequence claim) (claim_v2_digest C claim) of (consistent, w') \<Rightarrow>
            (if \<not> consistent then Inl ConflictsWithKnownClaim
             else if p2_amount_micro claim \<le> max_amount_micro_without_finality policy
             then Inr AcceptedLocal else Inr PendingCanonical, w'))"

definition reconcile_v2 :: "crypto \<Rightarrow> PaymentClaimV2 \<Rightarrow> CanonicalLedgerView \<Rightarrow> SettlementError + SettlementState" where
  "reconcile_v2 C claim ledger =
     andThen (verify_claim_v2_signature C claim) (\<lambda>_.
       let digest = claim_v2_digest C claim in
       case rejected_claim ledger digest of
         Some reason \<Rightarrow> Inr (RejectedCanonical reason)
       | None \<Rightarrow>
           let outcome = slot_outcome ledger (p2_payer claim) (p2_sequence claim) digest in
           if outcome \<noteq> PendingCanonical then Inr outcome
           else if \<not> is_recognized_anchor ledger (ca_height (p2_anchor claim)) (ca_block_id (p2_anchor claim))
           then Inr (RejectedCanonical UnrecognizedAnchor)
           else if current_height ledger > p2_valid_through_height claim then Inr Expired
           else Inr outcome)"

section \<open>The wire forms are canonical\<close>

text \<open>
  What the types of the source already guarantee of a claim: arrays of 32 bytes and a signature of
  its suite's length.
\<close>

definition claim_typed :: "crypto \<Rightarrow> PaymentClaim \<Rightarrow> bool" where
  "claim_typed C c = (length (pc_network_id c) = 32 \<and> sig_wf C (pc_signature c))"

definition claim_v2_typed :: "crypto \<Rightarrow> PaymentClaimV2 \<Rightarrow> bool" where
  "claim_v2_typed C c =
     (length (p2_network_id c) = 32 \<and> length (ca_block_id (p2_anchor c)) = 32
      \<and> length (p2_claim_context c) = 32 \<and> sig_wf C (p2_signature c))"

lemma cr_iff [wire_iff]:
  "cr_u8 bs = Inr (b, r) \<longleftrightarrow> bs = b # r"
  "cr_u32 bs = Inr (w, r) \<longleftrightarrow> bs = to_be32 w @ r"
  "cr_u64 bs = Inr (x, r) \<longleftrightarrow> bs = to_be64 x @ r"
  "cr_take n bs = Inr (xs, r) \<longleftrightarrow> bs = xs @ r \<and> length xs = n"
  by (simp_all add: cr_u8_def cr_u32_def cr_u64_def cr_take_def rd_u8_iff rd_u32_iff rd_u64_iff take_n_eq_Inr)

lemma cr_bytes_iff:
  "m < 2 ^ 32 \<Longrightarrow> cr_bytes m bs = Inr (x, r) \<longleftrightarrow> length x \<le> m \<and> bs = put_bytes x @ r"
proof -
  assume m: "m < 2 ^ 32"
  have "cr_bytes m bs = Inr (x, r) \<longleftrightarrow>
      (\<exists>len. bs = to_be32 len @ x @ r \<and> length x = unat len \<and> unat len \<le> m)"
    by (auto simp: cr_bytes_def wire_iff not_less)
  also have "\<dots> \<longleftrightarrow> length x \<le> m \<and> bs = put_bytes x @ r"
    using m by (auto simp: put_bytes_def length_eq_len32)
  finally show ?thesis .
qed

lemma field_iff [wire_iff]:
  "cr_bytes MAX_CLAIM_FIELD_BYTES bs = Inr (x, r) \<longleftrightarrow> length x \<le> MAX_CLAIM_FIELD_BYTES \<and> bs = put_bytes x @ r"
  by (rule cr_bytes_iff) (simp add: MAX_CLAIM_FIELD_BYTES_def)

definition put_signature :: "Signature \<Rightarrow> bytes" where
  "put_signature s = suite_tag (sig_suite s) # sig_bytes s"

lemma cr_signature_iff [wire_iff]:
  "cr_signature C bs = Inr (s, r) \<longleftrightarrow> sig_wf C s \<and> bs = put_signature s @ r"
  by (cases s) (auto simp: cr_signature_def wire_iff suite_from_tag_Inr sig_decode_iff put_signature_def sig_wf_def)

interpretation claim_field: canonical_codec put_bytes "cr_bytes MAX_CLAIM_FIELD_BYTES"
  "\<lambda>x. length x \<le> MAX_CLAIM_FIELD_BYTES"
  by unfold_locales (rule field_iff)

interpretation claim_signature: canonical_codec put_signature "cr_signature C" "sig_wf C" for C
  by unfold_locales (rule cr_signature_iff)

lemma cr_eval [simp]:
  "cr_u8 (b # r) = Inr (b, r)"
  "cr_u32 (to_be32 w @ r) = Inr (w, r)"
  "cr_u64 (to_be64 x @ r) = Inr (x, r)"
  "length xs = n \<Longrightarrow> cr_take n (xs @ r) = Inr (xs, r)"
  by (simp_all add: cr_iff)

lemma claim_decode:
  "claim_from_wire_bytes C bs = Inr c \<longleftrightarrow> claim_typed C c \<and> claim_to_wire_bytes c = Inr bs"
proof
  assume "claim_from_wire_bytes C bs = Inr c"
  then show "claim_typed C c \<and> claim_to_wire_bytes c = Inr bs"
    by (auto simp: claim_from_wire_bytes_def wire_iff claim_typed_def claim_to_wire_bytes_def put_signature_def
        Let_def)
next
  assume a: "claim_typed C c \<and> claim_to_wire_bytes c = Inr bs"
  then have bs: "bs = CLAIM_WIRE_DOMAIN @ pc_network_id c @ put_bytes (pc_payer c) @ put_bytes (pc_payee c)
      @ to_be64 (pc_amount_micro c) @ to_be64 (pc_sequence c) @ to_be64 (pc_valid_until_ms c)
      @ put_bytes (pc_last_known_chain c) @ put_signature (pc_signature c)"
    and l: "length (pc_payer c) \<le> MAX_CLAIM_FIELD_BYTES" "length (pc_payee c) \<le> MAX_CLAIM_FIELD_BYTES"
      "length (pc_last_known_chain c) \<le> MAX_CLAIM_FIELD_BYTES" "length bs \<le> MAX_PAYMENT_CLAIM_BYTES"
    by (auto simp: claim_to_wire_bytes_def put_signature_def Let_def split: if_splits)
  with a show "claim_from_wire_bytes C bs = Inr c"
    unfolding claim_from_wire_bytes_def claim_typed_def
    by (simp add: bs claim_field.dec_enc claim_signature.dec_whole)
qed

lemma claim_v2_decode:
  "claim_v2_from_wire_bytes C bs = Inr c \<longleftrightarrow> claim_v2_typed C c \<and> claim_v2_to_wire_bytes c = Inr bs"
proof
  assume "claim_v2_from_wire_bytes C bs = Inr c"
  then show "claim_v2_typed C c \<and> claim_v2_to_wire_bytes c = Inr bs"
    by (auto simp: claim_v2_from_wire_bytes_def wire_iff claim_v2_typed_def claim_v2_to_wire_bytes_def
        put_signature_def Let_def)
next
  assume a: "claim_v2_typed C c \<and> claim_v2_to_wire_bytes c = Inr bs"
  then have bs: "bs = CLAIM_V2_WIRE_DOMAIN @ p2_network_id c @ put_bytes (p2_payer c) @ put_bytes (p2_payee c)
      @ to_be64 (p2_amount_micro c) @ to_be64 (p2_sequence c) @ to_be64 (ca_height (p2_anchor c))
      @ ca_block_id (p2_anchor c) @ to_be64 (p2_valid_through_height c) @ p2_claim_context c
      @ put_signature (p2_signature c)"
    and l: "length (p2_payer c) \<le> MAX_CLAIM_FIELD_BYTES" "length (p2_payee c) \<le> MAX_CLAIM_FIELD_BYTES"
      "length bs \<le> MAX_PAYMENT_CLAIM_V2_BYTES"
    by (auto simp: claim_v2_to_wire_bytes_def put_signature_def Let_def split: if_splits)
  with a show "claim_v2_from_wire_bytes C bs = Inr c"
    unfolding claim_v2_from_wire_bytes_def claim_v2_typed_def
    by (simp add: bs claim_field.dec_enc claim_signature.dec_whole)
qed

section \<open>Digests identify what was signed\<close>

text \<open>The fields of a claim whose length a 32-bit prefix can carry.\<close>

definition claim_sized :: "PaymentClaim \<Rightarrow> bool" where
  "claim_sized c = (length (pc_network_id c) = 32 \<and> length (pc_payer c) < 2 ^ 32 \<and> length (pc_payee c) < 2 ^ 32
     \<and> length (pc_last_known_chain c) < 2 ^ 32)"

interpretation bytes32: prefix_code put_bytes "\<lambda>b. length b < 2 ^ 32"
proof
  fix x y r s :: bytes
  assume l: "length x < 2 ^ 32" "length y < 2 ^ 32" and e: "put_bytes x @ r = put_bytes y @ s"
  then have "length x = length y" by (intro len32_inj) (simp_all add: put_bytes_def)
  with e show "x = y \<and> r = s" by (simp add: put_bytes_def append_eq_append_conv)
qed

lemma message_of_put:
  "message_of c = CLAIM_DOMAIN @ pc_network_id c @ put_bytes (pc_payer c) @ put_bytes (pc_payee c)
     @ to_be64 (pc_amount_micro c) @ to_be64 (pc_sequence c) @ to_be64 (pc_valid_until_ms c)
     @ put_bytes (pc_last_known_chain c)"
  by (simp add: message_of_def claim_message_def put_bytes_def)

lemma message_of_inj:
  assumes "claim_sized c" "claim_sized d" "message_of c = message_of d"
  shows "d = c\<lparr>pc_signature := pc_signature d\<rparr>"
proof -
  from assms have n: "pc_network_id c = pc_network_id d"
    and e: "put_bytes (pc_payer c) @ put_bytes (pc_payee c)
      @ to_be64 (pc_amount_micro c) @ to_be64 (pc_sequence c) @ to_be64 (pc_valid_until_ms c)
      @ put_bytes (pc_last_known_chain c) = put_bytes (pc_payer d) @ put_bytes (pc_payee d)
      @ to_be64 (pc_amount_micro d) @ to_be64 (pc_sequence d) @ to_be64 (pc_valid_until_ms d)
      @ put_bytes (pc_last_known_chain d)"
    by (simp_all add: message_of_put claim_sized_def)
  from bytes32.split [OF _ _ e] assms(1,2) have p: "pc_payer c = pc_payer d"
    and e: "put_bytes (pc_payee c)
      @ to_be64 (pc_amount_micro c) @ to_be64 (pc_sequence c) @ to_be64 (pc_valid_until_ms c)
      @ put_bytes (pc_last_known_chain c) = put_bytes (pc_payee d)
      @ to_be64 (pc_amount_micro d) @ to_be64 (pc_sequence d) @ to_be64 (pc_valid_until_ms d)
      @ put_bytes (pc_last_known_chain d)" by (simp_all add: claim_sized_def)
  from bytes32.split [OF _ _ e] assms(1,2) have q: "pc_payee c = pc_payee d"
    and e: "pc_amount_micro c = pc_amount_micro d" "pc_sequence c = pc_sequence d"
      "pc_valid_until_ms c = pc_valid_until_ms d"
      "put_bytes (pc_last_known_chain c) = put_bytes (pc_last_known_chain d)" by (simp_all add: claim_sized_def)
  from e(4) bytes32.code_inj [of "pc_last_known_chain c" "pc_last_known_chain d"] assms(1,2)
  have "pc_last_known_chain c = pc_last_known_chain d" by (simp add: claim_sized_def)
  with n p q e show ?thesis by (cases c; cases d) simp
qed

lemma claim_digest_eqD:
  assumes "claim_sized c" "claim_sized d" "claim_digest C c = claim_digest C d"
  shows "d = c\<lparr>pc_signature := pc_signature d\<rparr> \<or> collides C (message_of c) (message_of d)"
  using blake3_eqD [of C "message_of c" "message_of d"] message_of_inj [OF assms(1,2)] assms(3)
  by (auto simp: claim_digest_def)

lemma signed_claim_verifies:
  assumes "ed25519_ok C" "amount \<noteq> 0" "now < valid_until"
  shows "\<exists>c. sign_claim_for_network C (from_seed seed) payee amount sq valid_until network chain now = Inr c
    \<and> verify_claim_signature C c = Inr () \<and> pc_payer c = c_ed_public C seed \<and> pc_payee c = payee
    \<and> pc_amount_micro c = amount \<and> pc_sequence c = sq \<and> pc_network_id c = network
    \<and> pc_valid_until_ms c = valid_until"
  using assms
  by (simp add: sign_claim_for_network_def verify_claim_signature_def ed25519_ok_def sk_sign_def from_seed_def
      verifying_key_def vk_verify_def vk_from_suite_bytes_def vk_to_bytes_def DEFAULT_SUITE_def Let_def
      message_of_def)

section \<open>The watcher interface\<close>

text \<open>
  What local acceptance relies on: the first digest shown at a slot stays on record, and an
  observation is consistent exactly when the record agrees with it afterwards.
\<close>

locale claim_watcher =
  fixes seen :: "'w \<Rightarrow> bytes \<Rightarrow> u64 \<Rightarrow> bytes option"
    and obs :: "'w \<Rightarrow> bytes \<Rightarrow> u64 \<Rightarrow> bytes \<Rightarrow> bool \<times> 'w"
  assumes recorded: "seen w p n = Some d \<Longrightarrow> seen (snd (obs w q m e)) p n = Some d"
    and first: "seen w p n = None \<Longrightarrow> obs w p n d = (True, w') \<Longrightarrow> seen w' p n = Some d"
    and consistent: "seen w p n = Some e \<Longrightarrow> fst (obs w p n d) \<longleftrightarrow> d = e"
begin

lemma observed: "fst (obs w p n d) \<Longrightarrow> seen (snd (obs w p n d)) p n = Some d"
proof (cases "seen w p n")
  case None
  assume "fst (obs w p n d)"
  then have "obs w p n d = (True, snd (obs w p n d))" by (cases "obs w p n d") simp
  then show ?thesis by (rule first [OF None])
next
  case (Some e)
  assume "fst (obs w p n d)"
  with Some consistent recorded show ?thesis by metis
qed

lemma recorded_many:
  "seen w p n = Some d \<Longrightarrow> seen (fold (\<lambda>(q, m, e) w. snd (obs w q m e)) os w) p n = Some d"
  by (induction os arbitrary: w) (auto intro: recorded)

lemma accepted_recorded:
  assumes "evaluate_local_acceptance C obs c policy now w = (Inr st, w')" "st = AcceptedLocal \<or> st = PendingCanonical"
  shows "seen w' (pc_payer c) (pc_sequence c) = Some (claim_digest C c)"
  using assms observed [of w "pc_payer c" "pc_sequence c" "claim_digest C c"]
  by (auto simp: evaluate_local_acceptance_def split: sum.splits if_splits prod.splits)

text \<open>Two claims accepted by one recipient at one slot have the same digest.\<close>

lemma one_per_slot:
  assumes "evaluate_local_acceptance C obs c policy now w = (Inr st, w')" "st = AcceptedLocal \<or> st = PendingCanonical"
    and "evaluate_local_acceptance C obs c' policy' now' (fold (\<lambda>(q, m, e) w. snd (obs w q m e)) os w') = (Inr st', w'')"
      "st' = AcceptedLocal \<or> st' = PendingCanonical"
    and "pc_payer c = pc_payer c'" "pc_sequence c = pc_sequence c'"
  shows "claim_digest C c = claim_digest C c'"
proof -
  let ?w = "fold (\<lambda>(q, m, e) w. snd (obs w q m e)) os w'"
  have s: "seen ?w (pc_payer c') (pc_sequence c') = Some (claim_digest C c)"
    using recorded_many [OF accepted_recorded [OF assms(1,2)]] assms(5,6) by simp
  have "fst (obs ?w (pc_payer c') (pc_sequence c') (claim_digest C c'))"
    using assms(3,4) by (auto simp: evaluate_local_acceptance_def split: sum.splits if_splits prod.splits)
  with consistent [OF s] show ?thesis by simp
qed

end

interpretation memory_watcher: claim_watcher first_seen observe
  by unfold_locales (auto simp: first_seen_def observe_def update_conv' split: option.splits if_splits)

section \<open>The ledger interface\<close>

lemma Finalized_iff:
  "slot_outcome ledger payer sq digest = Finalized
     \<longleftrightarrow> finalized_sequence ledger payer = Some sq \<and> finalized_claim_digest ledger payer sq = Some digest"
  by (auto simp: slot_outcome_def split: option.splits)

lemma reconcile_Finalized:
  "reconcile C c ledger now = Inr Finalized \<longleftrightarrow>
     verify_claim_signature C c = Inr () \<and> rejected_claim ledger (claim_digest C c) = None
     \<and> finalized_sequence ledger (pc_payer c) = Some (pc_sequence c)
     \<and> finalized_claim_digest ledger (pc_payer c) (pc_sequence c) = Some (claim_digest C c)"
  by (auto simp: reconcile_def Finalized_iff [symmetric] Let_def split: option.splits)

lemma reconcile_v2_Finalized:
  "reconcile_v2 C c ledger = Inr Finalized \<longleftrightarrow>
     verify_claim_v2_signature C c = Inr () \<and> rejected_claim ledger (claim_v2_digest C c) = None
     \<and> finalized_sequence ledger (p2_payer c) = Some (p2_sequence c)
     \<and> finalized_claim_digest ledger (p2_payer c) (p2_sequence c) = Some (claim_v2_digest C c)"
  by (auto simp: reconcile_v2_def Finalized_iff [symmetric] Let_def split: option.splits)

text \<open>
  What reconciliation relies on of a ledger that moves: the finalized sequence of a payer never
  falls, and while it stays the digest finalized there stays.
\<close>

locale canonical_ledger =
  fixes view :: "'l \<Rightarrow> CanonicalLedgerView" and move :: "'l \<Rightarrow> 'l \<Rightarrow> bool"
  assumes mark_kept: "move l l' \<Longrightarrow> finalized_sequence (view l) p = Some n
      \<Longrightarrow> \<exists>m. n \<le> m \<and> finalized_sequence (view l') p = Some m"
    and digest_kept: "move l l' \<Longrightarrow> finalized_sequence (view l) p = Some n
      \<Longrightarrow> finalized_sequence (view l') p = Some n
      \<Longrightarrow> finalized_claim_digest (view l') p n = finalized_claim_digest (view l) p n"
begin

lemma moves_keep:
  assumes "move\<^sup>*\<^sup>* l l'" "finalized_sequence (view l) p = Some n"
  shows "\<exists>m. n \<le> m \<and> finalized_sequence (view l') p = Some m
    \<and> (m = n \<longrightarrow> finalized_claim_digest (view l') p n = finalized_claim_digest (view l) p n)"
  using assms(1)
proof induction
  case base
  then show ?case using assms(2) by auto
next
  case (step k k')
  from step.IH obtain m where m: "n \<le> m" "finalized_sequence (view k) p = Some m"
      "m = n \<longrightarrow> finalized_claim_digest (view k) p n = finalized_claim_digest (view l) p n" by blast
  from mark_kept [OF step.hyps(2) m(2)] obtain m' where m': "m \<le> m'" "finalized_sequence (view k') p = Some m'"
    by blast
  have "finalized_claim_digest (view k') p n = finalized_claim_digest (view l) p n" if "m' = n"
  proof -
    from that m(1) m'(1) have "m = n" by simp
    with that m m' digest_kept [OF step.hyps(2), of p n] show ?thesis by simp
  qed
  moreover have "n \<le> m'" using m(1) m'(1) by (rule order_trans)
  ultimately show ?case using m'(2) by blast
qed

lemma one_winner:
  assumes "move\<^sup>*\<^sup>* l l'" "reconcile C c (view l) now = Inr Finalized" "reconcile C c' (view l') now' = Inr Finalized"
    "pc_payer c = pc_payer c'" "pc_sequence c = pc_sequence c'"
  shows "claim_digest C c = claim_digest C c'"
  using moves_keep [OF assms(1), of "pc_payer c" "pc_sequence c"] assms(2-)
  by (auto simp: reconcile_Finalized)

end

text \<open>The in-memory ledger: every operation that records is a move.\<close>

inductive im_move :: "InMemoryLedgerView \<Rightarrow> InMemoryLedgerView \<Rightarrow> bool" where
  "im_move v (im_finalize v payer sq digest)"
| "im_move v (im_reject v digest reason)"
| "im_move v (im_set_height v height)"
| "im_move v (im_recognize_anchor v height block_id)"

inductive_cases im_moveE: "im_move v v'"

lemma iter_max_snoc: "iter_max (xs @ [x]) = Some (case iter_max xs of None \<Rightarrow> x | Some y \<Rightarrow> max y x)"
  by (induction xs) (auto simp: max.assoc split: option.splits)

lemma iter_max_in: "iter_max xs = Some n \<Longrightarrow> n \<in> set xs"
  by (induction xs arbitrary: n) (auto simp: max_def split: option.splits if_splits)

lemma find_append: "List.find P (xs @ ys) = (case List.find P xs of None \<Rightarrow> List.find P ys | Some x \<Rightarrow> Some x)"
  by (induction xs) auto

lemma find_key_Some: "n \<in> set (map fst xs) \<Longrightarrow> \<exists>e. List.find (\<lambda>e. fst e = n) xs = Some e"
  by (induction xs) auto

interpretation memory_ledger: canonical_ledger im_view im_move
proof
  fix l l' p and n :: u64
  assume "im_move l l'" and s: "finalized_sequence (im_view l) p = Some n"
  then show "\<exists>m. n \<le> m \<and> finalized_sequence (im_view l') p = Some m"
    by (elim im_moveE) (auto simp: im_view_def im_finalize_def im_reject_def im_set_height_def
        im_recognize_anchor_def update_conv' iter_max_snoc split: option.splits)
next
  fix l l' p and n :: u64
  assume m: "im_move l l'" and s: "finalized_sequence (im_view l) p = Some n"
  then obtain es where es: "map_of (im_finalized l) p = Some es" "n \<in> set (map fst es)"
    by (auto simp: im_view_def dest: iter_max_in split: option.splits)
  from find_key_Some [OF es(2)] obtain a b where e: "List.find (\<lambda>e. fst e = n) es = Some (a, b)" by auto
  from m show "finalized_claim_digest (im_view l') p n = finalized_claim_digest (im_view l) p n"
    by (elim im_moveE) (use es(1) e in \<open>auto simp: im_view_def im_finalize_def im_reject_def im_set_height_def
        im_recognize_anchor_def update_conv' find_append\<close>)
qed

end
