(* ===== verification/Execution.thy ===== *)
theory Execution
  imports Chain EconomyWire Settlement
begin

text \<open>
  The crate \<open>mini-execution\<close>: the ledger state that finalized blocks produce. Nullifier records and
  the shielded ledger, block bodies, the ledger state with its account balances, the application of
  one block, and the chain that only advances behind a verified quorum certificate. It composes the
  finality rules of \<open>mini-chain\<close>, the monetary ledger of \<open>mini-economy\<close> and the claims of
  \<open>mini-settlement\<close>. The verifier of shielded claims is a trait object: the record of its methods.
\<close>

section \<open>Errors (error.rs)\<close>

datatype ExecutionError =
    WrongHeight u64 u64
  | WrongParent
  | NotFinalized ChainError
  | StateRootMismatch
  | BodyRootMismatch
  | TooManyClaims
  | TooManyNullifiers
  | MissingClaimVerifier
  | InvalidShieldedClaim
  | UnknownShieldedInput
  | DuplicateShieldedOutput
  | ShieldedGenesisMismatch
  | TooManyMonetaryEpochs
  | InvalidMonetaryEpoch EconomyError
  | InvalidGenesisAllocation
  | AmountOverflow
  | SupplyConservationViolation
  | SnapshotMalformed
  | SnapshotTooLarge
  | SnapshotWrongNetwork
  | SnapshotProofMismatch
  | TimestampNotDeterministic u64 u64

section \<open>Nullifiers (nullifier.rs)\<close>

definition MAX_NULLIFIERS_PER_BLOCK :: nat where "MAX_NULLIFIERS_PER_BLOCK = 4096"
definition MAX_KEY_IMAGE_BYTES :: nat where "MAX_KEY_IMAGE_BYTES = 64"

record NullifierRecord =
  nr_key_image :: bytes
  nr_claim_digest :: bytes

definition nr_is_well_formed :: "NullifierRecord \<Rightarrow> bool" where
  "nr_is_well_formed r = (nr_key_image r \<noteq> [] \<and> length (nr_key_image r) \<le> MAX_KEY_IMAGE_BYTES)"

definition nr_canonical_bytes :: "NullifierRecord \<Rightarrow> bytes" where
  "nr_canonical_bytes r = to_be32 (len32 (nr_key_image r)) @ nr_key_image r @ nr_claim_digest r"

definition nr_digest :: "crypto \<Rightarrow> NullifierRecord \<Rightarrow> bytes" where
  "nr_digest C r = hash_digest C Blake3 (ascii ''mini-execution/nullifier-record/v1'' @ nr_canonical_bytes r)"

section \<open>The shielded ledger (shielded.rs)\<close>

definition MAX_LEDGER_SNAPSHOT_ENTRIES :: nat where "MAX_LEDGER_SNAPSHOT_ENTRIES = 65536"
definition MAX_OUTPUTS :: nat where "MAX_OUTPUTS = MAX_LEDGER_SNAPSHOT_ENTRIES"
definition MAX_RING_MEMBERS :: nat where "MAX_RING_MEMBERS = 16 * 128"

record ShieldedOutput =
  so_public_key :: bytes
  so_amount_commitment :: bytes

definition so_well_formed :: "ShieldedOutput \<Rightarrow> bool" where
  "so_well_formed s = (length (so_public_key s) = 32 \<and> length (so_amount_commitment s) = 32)"

record ShieldedGenesisAllocation =
  sg_output :: ShieldedOutput
  sg_amount_micro :: u64

record ShieldedClaimEffects =
  sc_ring_members :: "ShieldedOutput list"
  sc_outputs :: "ShieldedOutput list"
  sc_fee_micro :: u64

record ClaimVerifier =
  verify_claim :: "bytes \<Rightarrow> bytes \<Rightarrow> NullifierRecord list \<Rightarrow> ShieldedClaimEffects option"
  verify_genesis_allocation :: "bytes \<Rightarrow> ShieldedGenesisAllocation \<Rightarrow> bool"

record ShieldedLedger =
  sl_genesis :: "ShieldedGenesisAllocation list"
  sl_outputs :: "(bytes, bytes) btree"
  sl_applied :: "bytes list"
  sl_pool_micro :: u128

definition sl_default :: ShieldedLedger where
  "sl_default = \<lparr>sl_genesis = [], sl_outputs = [], sl_applied = [], sl_pool_micro = 0\<rparr>"

fun sl_genesis_loop ::
  "bytes \<Rightarrow> ClaimVerifier \<Rightarrow> ShieldedLedger \<Rightarrow> ShieldedGenesisAllocation list \<Rightarrow> ExecutionError + ShieldedLedger" where
  "sl_genesis_loop network verifier ledger [] = Inr ledger"
| "sl_genesis_loop network verifier ledger (a # as) =
     (if \<not> so_well_formed (sg_output a) \<or> \<not> verify_genesis_allocation verifier network a
         \<or> map_of (sl_outputs ledger) (so_public_key (sg_output a)) \<noteq> None
      then Inl InvalidShieldedClaim
      else andThen (ok_or (checked_add (sl_pool_micro ledger) (ucast (sg_amount_micro a))) AmountOverflow) (\<lambda>pool.
        sl_genesis_loop network verifier
          (ledger\<lparr>sl_outputs := bt_insert (so_public_key (sg_output a)) (so_amount_commitment (sg_output a)) (sl_outputs ledger),
                  sl_pool_micro := pool\<rparr>) as))"

definition sl_from_genesis ::
  "bytes \<Rightarrow> ShieldedGenesisAllocation list \<Rightarrow> ClaimVerifier \<Rightarrow> ExecutionError + ShieldedLedger" where
  "sl_from_genesis network allocations verifier =
     (if length allocations > MAX_OUTPUTS then Inl SnapshotTooLarge
      else let allocations = sort_key (\<lambda>a. (so_public_key (sg_output a), so_amount_commitment (sg_output a))) allocations
           in andThen (sl_genesis_loop network verifier sl_default allocations) (\<lambda>ledger.
                Inr (ledger\<lparr>sl_genesis := allocations\<rparr>)))"

definition sl_genesis_commitment :: "crypto \<Rightarrow> ShieldedLedger \<Rightarrow> bytes" where
  "sl_genesis_commitment C ledger =
     hash_digest C Blake3 (ascii ''mini-execution/shielded-genesis/v1''
       @ concat (map (\<lambda>a. so_public_key (sg_output a) @ so_amount_commitment (sg_output a)
           @ to_be64 (sg_amount_micro a)) (sl_genesis ledger)))"

fun new_outputs_ok :: "(bytes, bytes) btree \<Rightarrow> bytes list \<Rightarrow> ShieldedOutput list \<Rightarrow> bool" where
  "new_outputs_ok outputs new_keys [] = True"
| "new_outputs_ok outputs new_keys (s # ss) =
     (if \<not> so_well_formed s \<or> map_of outputs (so_public_key s) \<noteq> None \<or> so_public_key s \<in> set new_keys
      then False else new_outputs_ok outputs (so_public_key s # new_keys) ss)"

definition sl_apply :: "ShieldedLedger \<Rightarrow> bytes \<Rightarrow> ShieldedClaimEffects \<Rightarrow> ExecutionError + u64 \<times> ShieldedLedger" where
  "sl_apply ledger digest effects =
     (if digest \<in> set (sl_applied ledger) then Inr (0, ledger)
      else if sc_ring_members effects = [] \<or> length (sc_ring_members effects) > MAX_RING_MEMBERS
              \<or> sc_outputs effects = [] \<or> length (sc_outputs effects) > 16
              \<or> length (sl_outputs ledger) + length (sc_outputs effects) > MAX_OUTPUTS
              \<or> length (sl_applied ledger) \<ge> MAX_OUTPUTS
      then Inl InvalidShieldedClaim
      else
        andThen (ensure (list_all (\<lambda>member. so_well_formed member
            \<and> map_of (sl_outputs ledger) (so_public_key member) = Some (so_amount_commitment member))
            (sc_ring_members effects)) UnknownShieldedInput) (\<lambda>_.
        andThen (ensure (new_outputs_ok (sl_outputs ledger) [] (sc_outputs effects)) DuplicateShieldedOutput) (\<lambda>_.
        andThen (ok_or (checked_sub (sl_pool_micro ledger) (ucast (sc_fee_micro effects))) SupplyConservationViolation) (\<lambda>pool.
          Inr (sc_fee_micro effects,
               ledger\<lparr>sl_pool_micro := pool,
                 sl_outputs := fold (\<lambda>s m. bt_insert (so_public_key s) (so_amount_commitment s) m)
                   (sc_outputs effects) (sl_outputs ledger),
                 sl_applied := sl_applied ledger @ [digest]\<rparr>)))))"

text \<open>Records grouped by the digest they carry, in a map whose groups keep the records' order.\<close>

definition push_group :: "bytes \<Rightarrow> NullifierRecord \<Rightarrow> (bytes, NullifierRecord list) btree \<Rightarrow> (bytes, NullifierRecord list) btree" where
  "push_group digest record groups = bt_insert digest (get_or [] (map_of groups digest) @ [record]) groups"

fun replay_loop ::
  "bytes \<Rightarrow> ClaimVerifier \<Rightarrow> ShieldedLedger \<Rightarrow> (bytes, NullifierRecord list) btree \<Rightarrow> bytes list
     \<Rightarrow> ExecutionError + ShieldedLedger \<times> (bytes, NullifierRecord list) btree" where
  "replay_loop network verifier replay groups [] = Inr (replay, groups)"
| "replay_loop network verifier replay groups (digest # ds) =
     andThen (ok_or (map_of groups digest) InvalidShieldedClaim) (\<lambda>group.
     andThen (ok_or (verify_claim verifier network digest group) InvalidShieldedClaim) (\<lambda>effects.
     andThen (sl_apply replay digest effects) (\<lambda>(fee, replay).
       replay_loop network verifier replay (bt_remove digest groups) ds)))"

definition sl_verify_replay ::
  "ShieldedLedger \<Rightarrow> bytes \<Rightarrow> (bytes, bytes) btree \<Rightarrow> ClaimVerifier option \<Rightarrow> ExecutionError + unit" where
  "sl_verify_replay ledger network nullifiers verifier =
     (if ledger = sl_default \<and> nullifiers = [] then Inr ()
      else andThen (ok_or verifier MissingClaimVerifier) (\<lambda>verifier.
           andThen (sl_from_genesis network (sl_genesis ledger) verifier) (\<lambda>replay.
           let groups = fold (\<lambda>(image, digest). push_group digest \<lparr>nr_key_image = image, nr_claim_digest = digest\<rparr>)
                 nullifiers [] in
           andThen (replay_loop network verifier replay groups (sl_applied ledger)) (\<lambda>(replay, groups).
             if groups \<noteq> [] \<or> replay \<noteq> ledger then Inl InvalidShieldedClaim else Inr ()))))"

definition sl_to_bytes :: "ShieldedLedger \<Rightarrow> bytes" where
  "sl_to_bytes ledger =
     ascii ''mini-execution/shielded-ledger/v1''
       @ to_be32 (len32 (sl_genesis ledger))
       @ concat (map (\<lambda>a. so_public_key (sg_output a) @ so_amount_commitment (sg_output a)
           @ to_be64 (sg_amount_micro a)) (sl_genesis ledger))
       @ to_be32 (len32 (sl_outputs ledger)) @ concat (map (\<lambda>(key, commitment). key @ commitment) (sl_outputs ledger))
       @ to_be32 (len32 (sl_applied ledger)) @ concat (sl_applied ledger)
       @ to_be128 (sl_pool_micro ledger)"

section \<open>Block bodies (body.rs)\<close>

definition MAX_CLAIMS_PER_BLOCK :: nat where "MAX_CLAIMS_PER_BLOCK = 4096"
definition MAX_MONETARY_EPOCHS_PER_BLOCK :: nat where "MAX_MONETARY_EPOCHS_PER_BLOCK = 1"

record SettlementBlockBody =
  bb_claims :: "PaymentClaim list"
  bb_nullifiers :: "NullifierRecord list"
  bb_monetary_epochs :: "ScalableEpochPlan list"

definition body_new :: "PaymentClaim list \<Rightarrow> SettlementBlockBody" where
  "body_new claims = \<lparr>bb_claims = claims, bb_nullifiers = [], bb_monetary_epochs = []\<rparr>"

definition with_nullifiers :: "SettlementBlockBody \<Rightarrow> NullifierRecord list \<Rightarrow> SettlementBlockBody" where
  "with_nullifiers body nullifiers = body\<lparr>bb_nullifiers := nullifiers\<rparr>"

definition with_monetary_epochs :: "SettlementBlockBody \<Rightarrow> ScalableEpochPlan list \<Rightarrow> SettlementBlockBody" where
  "with_monetary_epochs body epochs = body\<lparr>bb_monetary_epochs := epochs\<rparr>"

definition body_bytes :: "crypto \<Rightarrow> SettlementBlockBody \<Rightarrow> bytes" where
  "body_bytes C body =
     ascii ''mini-execution/settlement-block-body/v3''
       @ to_be64 (len64 (bb_claims body)) @ concat (map (claim_digest C) (bb_claims body))
       @ to_be64 (len64 (bb_nullifiers body)) @ concat (map nr_canonical_bytes (bb_nullifiers body))
       @ to_be64 (len64 (bb_monetary_epochs body))
       @ concat (map (\<lambda>epoch. to_be64 (len64 (plan_canonical_bytes epoch)) @ plan_canonical_bytes epoch)
           (bb_monetary_epochs body))"

definition body_hash :: "crypto \<Rightarrow> SettlementBlockBody \<Rightarrow> bytes" where
  "body_hash C body = hash_digest C Blake3 (body_bytes C body)"

section \<open>The ledger state (state.rs)\<close>

definition MAX_ACCOUNT_BYTES :: nat where "MAX_ACCOUNT_BYTES = 4096"

record LedgerState =
  ls_network_id :: bytes
  ls_finalized :: "(bytes, u64 \<times> bytes) btree"
  ls_rejected :: "(bytes, CanonicalRejection) btree"
  ls_nullifiers :: "(bytes, bytes) btree"
  ls_monetary :: MonetaryLedger
  ls_shielded :: ShieldedLedger
  ls_balances :: "(bytes, Amount) btree"
  ls_allocated_circulating :: Amount
  ls_unallocated_circulating :: Amount

definition is_supported_account :: "crypto \<Rightarrow> bytes \<Rightarrow> bool" where
  "is_supported_account C account =
     (account \<noteq> [] \<and> length account \<le> MAX_ACCOUNT_BYTES
      \<and> is_ok (vk_from_suite_bytes C DEFAULT_SUITE account))"

definition with_network_and_genesis_supply :: "bytes \<Rightarrow> Amount \<Rightarrow> LedgerState" where
  "with_network_and_genesis_supply network_id genesis_circulating =
     \<lparr>ls_network_id = network_id, ls_finalized = [], ls_rejected = [], ls_nullifiers = [],
      ls_monetary = ml_new genesis_circulating, ls_shielded = sl_default, ls_balances = [],
      ls_allocated_circulating = 0, ls_unallocated_circulating = genesis_circulating\<rparr>"

definition with_genesis_supply :: "Amount \<Rightarrow> LedgerState" where
  "with_genesis_supply genesis_circulating = with_network_and_genesis_supply MININET_NETWORK_ID genesis_circulating"

definition state_new :: LedgerState where
  "state_new = with_genesis_supply 0"

fun allocate_loop ::
  "crypto \<Rightarrow> (bytes, Amount) btree \<Rightarrow> Amount \<Rightarrow> (bytes \<times> Amount) list
     \<Rightarrow> ExecutionError + (bytes, Amount) btree \<times> Amount" where
  "allocate_loop C balances allocated [] = Inr (balances, allocated)"
| "allocate_loop C balances allocated ((account, amount) # rest) =
     (if \<not> is_supported_account C account \<or> amount = 0 \<or> map_of balances account \<noteq> None
      then Inl InvalidGenesisAllocation
      else andThen (map_err (\<lambda>_. AmountOverflow) (amount_add allocated amount)) (\<lambda>allocated.
        allocate_loop C (bt_insert account amount balances) allocated rest))"

definition with_network_and_genesis_balances ::
  "crypto \<Rightarrow> bytes \<Rightarrow> Amount \<Rightarrow> (bytes \<times> Amount) list \<Rightarrow> ExecutionError + LedgerState" where
  "with_network_and_genesis_balances C network_id genesis_circulating allocations =
     andThen (allocate_loop C [] 0 allocations) (\<lambda>(balances, allocated).
       if allocated \<noteq> genesis_circulating then Inl InvalidGenesisAllocation
       else Inr \<lparr>ls_network_id = network_id, ls_finalized = [], ls_rejected = [], ls_nullifiers = [],
         ls_monetary = ml_new genesis_circulating, ls_shielded = sl_default, ls_balances = balances,
         ls_allocated_circulating = allocated, ls_unallocated_circulating = 0\<rparr>)"

definition with_genesis_balances ::
  "crypto \<Rightarrow> Amount \<Rightarrow> (bytes \<times> Amount) list \<Rightarrow> ExecutionError + LedgerState" where
  "with_genesis_balances C genesis_circulating allocations =
     with_network_and_genesis_balances C MININET_NETWORK_ID genesis_circulating allocations"

definition finalized_nullifier :: "LedgerState \<Rightarrow> bytes \<Rightarrow> bytes option" where
  "finalized_nullifier s key_image = map_of (ls_nullifiers s) key_image"

definition shielded_pool :: "LedgerState \<Rightarrow> Amount" where
  "shielded_pool s = sl_pool_micro (ls_shielded s)"

definition nullifier_count :: "LedgerState \<Rightarrow> nat" where
  "nullifier_count s = length (ls_nullifiers s)"

definition balance :: "LedgerState \<Rightarrow> bytes \<Rightarrow> Amount" where
  "balance s account = get_or 0 (map_of (ls_balances s) account)"

fun exec_rejection_tag :: "CanonicalRejection \<Rightarrow> u8" where
  "exec_rejection_tag WrongNetwork = 0"
| "exec_rejection_tag UnsupportedPayee = 1"
| "exec_rejection_tag StaleSequence = 2"
| "exec_rejection_tag InsufficientFunds = 3"
| "exec_rejection_tag UnrecognizedAnchor = 4"

definition state_bytes :: "crypto \<Rightarrow> LedgerState \<Rightarrow> bytes" where
  "state_bytes C s =
     ascii ''mini-execution/ledger-state/v5'' @ ls_network_id s
       @ to_be64 (len64 (ls_finalized s))
       @ concat (map (\<lambda>(payer, sequence, digest).
           to_be32 (len32 payer) @ payer @ to_be64 sequence @ digest) (ls_finalized s))
       @ to_be64 (len64 (ls_rejected s))
       @ concat (map (\<lambda>(digest, reason). digest @ [exec_rejection_tag reason]) (ls_rejected s))
       @ to_be64 (len64 (ls_nullifiers s))
       @ concat (map (\<lambda>(key_image, digest). to_be32 (len32 key_image) @ key_image @ digest) (ls_nullifiers s))
       @ sl_to_bytes (ls_shielded s) @ multihash_to_bytes (ledger_commitment C (ls_monetary s))
       @ to_be64 (len64 (ls_balances s))
       @ concat (map (\<lambda>(account, b). to_be32 (len32 account) @ account @ to_be128 b) (ls_balances s))
       @ to_be128 (ls_allocated_circulating s) @ to_be128 (ls_unallocated_circulating s)"

definition state_commitment :: "crypto \<Rightarrow> LedgerState \<Rightarrow> bytes" where
  "state_commitment C s = hash_digest C Blake3 (state_bytes C s)"

definition verify_supply_conservation :: "LedgerState \<Rightarrow> ExecutionError + unit" where
  "verify_supply_conservation s =
     andThen (map_err (\<lambda>_. AmountOverflow)
        (andThen (amount_add (ls_allocated_circulating s) (ls_unallocated_circulating s)) (\<lambda>a.
           amount_add a (shielded_pool s)))) (\<lambda>accounted.
     andThen (map_err InvalidMonetaryEpoch (circulating_supply (ls_monetary s))) (\<lambda>circulating.
       if accounted \<noteq> circulating then Inl SupplyConservationViolation else Inr ()))"

fun balance_total_loop :: "Amount \<Rightarrow> Amount list \<Rightarrow> ExecutionError + Amount" where
  "balance_total_loop a [] = Inr a"
| "balance_total_loop a (b # bs) =
     andThen (map_err (\<lambda>_. AmountOverflow) (amount_add a b)) (\<lambda>a. balance_total_loop a bs)"

definition verify_balance_map_total :: "LedgerState \<Rightarrow> ExecutionError + unit" where
  "verify_balance_map_total s =
     andThen (balance_total_loop 0 (map snd (ls_balances s))) (\<lambda>recomputed.
       if recomputed \<noteq> ls_allocated_circulating s then Inl SupplyConservationViolation else Inr ())"

definition with_shielded_genesis ::
  "bytes \<Rightarrow> ShieldedGenesisAllocation list \<Rightarrow> ClaimVerifier \<Rightarrow> ExecutionError + LedgerState" where
  "with_shielded_genesis network_id allocations verifier =
     andThen (sl_from_genesis network_id allocations verifier) (\<lambda>shielded.
       let s = with_network_and_genesis_supply network_id (sl_pool_micro shielded);
           s = s\<lparr>ls_unallocated_circulating := 0, ls_shielded := shielded\<rparr>
       in andThen (verify_supply_conservation s) (\<lambda>_. Inr s))"

definition shielded_genesis_commitment :: "crypto \<Rightarrow> LedgerState \<Rightarrow> bytes" where
  "shielded_genesis_commitment C s = sl_genesis_commitment C (ls_shielded s)"

text \<open>The view of the state; height and anchors keep the defaults of the trait.\<close>

definition state_view :: "LedgerState \<Rightarrow> CanonicalLedgerView" where
  "state_view s =
     \<lparr>finalized_sequence = (\<lambda>payer. map_option fst (map_of (ls_finalized s) payer)),
      finalized_claim_digest = (\<lambda>payer sequence.
        case map_of (ls_finalized s) payer of
          None \<Rightarrow> None | Some (n, digest) \<Rightarrow> if n = sequence then Some digest else None),
      rejected_claim = map_of (ls_rejected s),
      current_height = 0,
      is_recognized_anchor = (\<lambda>_ _. False)\<rparr>"

definition verify_shielded_claims :: "LedgerState \<Rightarrow> ClaimVerifier option \<Rightarrow> ExecutionError + unit" where
  "verify_shielded_claims s verifier =
     sl_verify_replay (ls_shielded s) (ls_network_id s) (ls_nullifiers s) verifier"

definition reject_claim :: "LedgerState \<Rightarrow> bytes \<Rightarrow> CanonicalRejection \<Rightarrow> LedgerState" where
  "reject_claim s digest reason = s\<lparr>ls_rejected := bt_insert digest reason (ls_rejected s)\<rparr>"

definition apply_one_claim :: "crypto \<Rightarrow> LedgerState \<Rightarrow> PaymentClaim \<Rightarrow> ExecutionError + LedgerState" where
  "apply_one_claim C s claim =
     (if \<not> is_ok (verify_claim_signature C claim) then Inr s
      else let digest = claim_digest C claim in
      if pc_network_id claim \<noteq> ls_network_id s then Inr (reject_claim s digest WrongNetwork)
      else if \<not> is_supported_account C (pc_payee claim) then Inr (reject_claim s digest UnsupportedPayee)
      else let wins = (case finalized_sequence (state_view s) (pc_payer claim) of
                         None \<Rightarrow> True | Some existing_sequence \<Rightarrow> pc_sequence claim > existing_sequence) in
      if \<not> wins then Inr (reject_claim s digest StaleSequence)
      else let amount = ucast (pc_amount_micro claim); payer_balance = balance s (pc_payer claim) in
      if payer_balance < amount then Inr (reject_claim s digest InsufficientFunds)
      else
        andThen (if pc_payer claim \<noteq> pc_payee claim then
             let payee_balance = balance s (pc_payee claim) in
             andThen (map_err (\<lambda>_. SupplyConservationViolation) (amount_sub payer_balance amount)) (\<lambda>debited.
             andThen (map_err (\<lambda>_. AmountOverflow) (amount_add payee_balance amount)) (\<lambda>credited.
               let balances = (if debited = 0 then bt_remove (pc_payer claim) (ls_balances s)
                               else bt_insert (pc_payer claim) debited (ls_balances s))
               in Inr (s\<lparr>ls_balances := bt_insert (pc_payee claim) credited balances\<rparr>)))
           else Inr s) (\<lambda>s.
        Inr (s\<lparr>ls_rejected := bt_remove digest (ls_rejected s),
               ls_finalized := bt_insert (pc_payer claim) (pc_sequence claim, digest) (ls_finalized s)\<rparr>)))"

fun apply_claims :: "crypto \<Rightarrow> LedgerState \<Rightarrow> PaymentClaim list \<Rightarrow> ExecutionError + LedgerState" where
  "apply_claims C s [] = Inr s"
| "apply_claims C s (claim # claims) = andThen (apply_one_claim C s claim) (\<lambda>s. apply_claims C s claims)"

text \<open>The first loop of \<open>apply_nullifiers\<close>: the digests in order of appearance, and the groups.\<close>

fun group_records ::
  "bytes list \<Rightarrow> (bytes, NullifierRecord list) btree \<Rightarrow> NullifierRecord list
     \<Rightarrow> ExecutionError + bytes list \<times> (bytes, NullifierRecord list) btree" where
  "group_records order groups [] = Inr (order, groups)"
| "group_records order groups (record # records) =
     (if \<not> nr_is_well_formed record then Inl InvalidShieldedClaim
      else group_records
        (if map_of groups (nr_claim_digest record) = None then order @ [nr_claim_digest record] else order)
        (push_group (nr_claim_digest record) record groups) records)"

fun apply_groups ::
  "ClaimVerifier \<Rightarrow> (bytes, NullifierRecord list) btree \<Rightarrow> LedgerState \<Rightarrow> bytes list \<Rightarrow> ExecutionError + LedgerState" where
  "apply_groups verifier groups s [] = Inr s"
| "apply_groups verifier groups s (digest # ds) =
     (case map_of groups digest of
        None \<Rightarrow> apply_groups verifier groups s ds
      | Some members \<Rightarrow>
          andThen (ok_or (verify_claim verifier (ls_network_id s) digest members) InvalidShieldedClaim) (\<lambda>effects.
            if \<not> list_all (\<lambda>record. case map_of (ls_nullifiers s) (nr_key_image record) of
                   None \<Rightarrow> True | Some held \<Rightarrow> held = digest) members
            then apply_groups verifier groups s ds
            else
              andThen (sl_apply (ls_shielded s) digest effects) (\<lambda>(fee, shielded).
              andThen (map_err (\<lambda>_. AmountOverflow) (amount_add (ls_unallocated_circulating s) (ucast fee))) (\<lambda>unallocated.
                apply_groups verifier groups
                  (s\<lparr>ls_shielded := shielded, ls_unallocated_circulating := unallocated,
                     ls_nullifiers := fold (\<lambda>record. bt_insert (nr_key_image record) digest) members (ls_nullifiers s)\<rparr>)
                  ds))))"

definition apply_nullifiers ::
  "LedgerState \<Rightarrow> NullifierRecord list \<Rightarrow> ClaimVerifier option \<Rightarrow> ExecutionError + LedgerState" where
  "apply_nullifiers s records claim_verifier =
     (if records = [] then Inr s
      else andThen (ok_or claim_verifier MissingClaimVerifier) (\<lambda>verifier.
           andThen (group_records [] [] records) (\<lambda>(order, groups).
             apply_groups verifier groups s order)))"

text \<open>The monetary part of \<open>apply_block_with_verifier\<close>: the first epoch of the body, if any.\<close>

definition apply_monetary :: "LedgerState \<Rightarrow> ScalableEpochPlan list \<Rightarrow> ExecutionError + LedgerState" where
  "apply_monetary s epochs =
     (case epochs of
        [] \<Rightarrow> Inr s
      | epoch # _ \<Rightarrow>
          andThen (map_err InvalidMonetaryEpoch (plan_to_wire_bytes epoch)) (\<lambda>_.
          andThen (map_err InvalidMonetaryEpoch (circulating_supply (ls_monetary s))) (\<lambda>before.
          andThen (map_err InvalidMonetaryEpoch (apply_epoch (ls_monetary s) epoch d0074)) (\<lambda>monetary.
          andThen (map_err InvalidMonetaryEpoch (circulating_supply monetary)) (\<lambda>after.
          andThen (map_err (\<lambda>_. SupplyConservationViolation) (amount_sub after before)) (\<lambda>newly_circulating.
          andThen (map_err (\<lambda>_. AmountOverflow) (amount_add (ls_unallocated_circulating s) newly_circulating)) (\<lambda>unallocated.
            Inr (s\<lparr>ls_monetary := monetary, ls_unallocated_circulating := unallocated\<rparr>))))))))"

definition apply_block_with_verifier ::
  "crypto \<Rightarrow> LedgerState \<Rightarrow> SettlementBlockBody \<Rightarrow> ClaimVerifier option \<Rightarrow> ExecutionError + LedgerState" where
  "apply_block_with_verifier C prev body claim_verifier =
     andThen (ensure (\<not> length (bb_claims body) > MAX_CLAIMS_PER_BLOCK) TooManyClaims) (\<lambda>_.
     andThen (ensure (\<not> length (bb_monetary_epochs body) > MAX_MONETARY_EPOCHS_PER_BLOCK) TooManyMonetaryEpochs) (\<lambda>_.
     andThen (ensure (\<not> length (bb_nullifiers body) > MAX_NULLIFIERS_PER_BLOCK) TooManyNullifiers) (\<lambda>_.
     andThen (ensure (\<not> (bb_nullifiers body \<noteq> [] \<and> claim_verifier = None)) MissingClaimVerifier) (\<lambda>_.
     andThen (apply_claims C prev (bb_claims body)) (\<lambda>s.
     andThen (apply_nullifiers s (bb_nullifiers body) claim_verifier) (\<lambda>s.
     andThen (apply_monetary s (bb_monetary_epochs body)) (\<lambda>s.
     andThen (verify_supply_conservation s) (\<lambda>_. Inr s))))))))"

definition apply_block :: "crypto \<Rightarrow> LedgerState \<Rightarrow> SettlementBlockBody \<Rightarrow> ExecutionError + LedgerState" where
  "apply_block C prev body = apply_block_with_verifier C prev body None"

section \<open>The chain of finalized state (chain.rs)\<close>

record LedgerChain =
  lc_height :: u64
  lc_tip_hash :: bytes
  lc_state :: LedgerState

definition chain_of_state :: "LedgerState \<Rightarrow> LedgerChain" where
  "chain_of_state s = \<lparr>lc_height = 0, lc_tip_hash = replicate 32 0, lc_state = s\<rparr>"

definition genesis_for_network :: "bytes \<Rightarrow> Amount \<Rightarrow> LedgerChain" where
  "genesis_for_network network_id genesis_circulating =
     chain_of_state (with_network_and_genesis_supply network_id genesis_circulating)"

definition genesis_with_supply :: "Amount \<Rightarrow> LedgerChain" where
  "genesis_with_supply genesis_circulating = genesis_for_network MININET_NETWORK_ID genesis_circulating"

definition chain_genesis :: LedgerChain where
  "chain_genesis = genesis_with_supply 0"

definition genesis_with_network_balances ::
  "crypto \<Rightarrow> bytes \<Rightarrow> Amount \<Rightarrow> (bytes \<times> Amount) list \<Rightarrow> ExecutionError + LedgerChain" where
  "genesis_with_network_balances C network_id genesis_circulating allocations =
     andThen (with_network_and_genesis_balances C network_id genesis_circulating allocations) (\<lambda>s.
       Inr (chain_of_state s))"

definition genesis_with_balances :: "crypto \<Rightarrow> Amount \<Rightarrow> (bytes \<times> Amount) list \<Rightarrow> ExecutionError + LedgerChain" where
  "genesis_with_balances C genesis_circulating allocations =
     genesis_with_network_balances C MININET_NETWORK_ID genesis_circulating allocations"

definition genesis_with_shielded_allocations ::
  "bytes \<Rightarrow> ShieldedGenesisAllocation list \<Rightarrow> ClaimVerifier \<Rightarrow> ExecutionError + LedgerChain" where
  "genesis_with_shielded_allocations network_id allocations verifier =
     andThen (with_shielded_genesis network_id allocations verifier) (\<lambda>s. Inr (chain_of_state s))"

definition from_finalized_snapshot_with_verifier ::
  "crypto \<Rightarrow> BlockHeader \<Rightarrow> LedgerState \<Rightarrow> QuorumCertificate \<Rightarrow> ValidatorSet \<Rightarrow> kel_oracle \<Rightarrow> bytes \<Rightarrow> bytes
     \<Rightarrow> ClaimVerifier option \<Rightarrow> ExecutionError + LedgerChain" where
  "from_finalized_snapshot_with_verifier C header s qc validators oracle expected_network_id
      expected_shielded_genesis claim_verifier =
     andThen (ensure (ls_network_id s = expected_network_id) SnapshotWrongNetwork) (\<lambda>_.
     andThen (ensure (shielded_genesis_commitment C s = expected_shielded_genesis) ShieldedGenesisMismatch) (\<lambda>_.
     andThen (verify_shielded_claims s claim_verifier) (\<lambda>_.
     andThen (verify_supply_conservation s) (\<lambda>_.
     andThen (verify_balance_map_total s) (\<lambda>_.
     andThen (map_err NotFinalized (verify_finality C qc validators oracle)) (\<lambda>_.
     andThen (ensure (\<not> (bh_height header = 0 \<or> bh_timestamp_ms header \<noteq> bh_height header
         \<or> qc_height qc \<noteq> bh_height header \<or> qc_block_hash qc \<noteq> header_hash C header)) SnapshotProofMismatch) (\<lambda>_.
     andThen (ensure (bh_state_root header = state_commitment C s) StateRootMismatch) (\<lambda>_.
       Inr \<lparr>lc_height = bh_height header, lc_tip_hash = header_hash C header, lc_state = s\<rparr>))))))))"

definition from_finalized_snapshot ::
  "crypto \<Rightarrow> BlockHeader \<Rightarrow> LedgerState \<Rightarrow> QuorumCertificate \<Rightarrow> ValidatorSet \<Rightarrow> kel_oracle \<Rightarrow> bytes
     \<Rightarrow> ExecutionError + LedgerChain" where
  "from_finalized_snapshot C header s qc validators oracle expected_network_id =
     from_finalized_snapshot_with_verifier C header s qc validators oracle expected_network_id
       (shielded_genesis_commitment C state_new) None"

fun epochs_encodable :: "ScalableEpochPlan list \<Rightarrow> ExecutionError + unit" where
  "epochs_encodable [] = Inr ()"
| "epochs_encodable (epoch # epochs) =
     andThen (map_err InvalidMonetaryEpoch (plan_to_wire_bytes epoch)) (\<lambda>_. epochs_encodable epochs)"

text \<open>The height is advanced with plain addition, which panics at the largest height.\<close>

definition apply_finalized_block_with_verifier ::
  "crypto \<Rightarrow> LedgerChain \<Rightarrow> BlockHeader \<Rightarrow> SettlementBlockBody \<Rightarrow> QuorumCertificate \<Rightarrow> ValidatorSet \<Rightarrow> kel_oracle
     \<Rightarrow> ClaimVerifier option \<Rightarrow> ExecutionError fault + bytes \<times> LedgerChain" where
  "apply_finalized_block_with_verifier C chain header body qc validators oracle claim_verifier =
     andThen (ensure (\<not> length (bb_claims body) > MAX_CLAIMS_PER_BLOCK) (Fail TooManyClaims)) (\<lambda>_.
     andThen (ensure (\<not> length (bb_monetary_epochs body) > MAX_MONETARY_EPOCHS_PER_BLOCK) (Fail TooManyMonetaryEpochs)) (\<lambda>_.
     andThen (map_err Fail (epochs_encodable (bb_monetary_epochs body))) (\<lambda>_.
     andThen (ensure (bh_body_root header = body_hash C body) (Fail BodyRootMismatch)) (\<lambda>_.
     andThen (map_err (\<lambda>e. Fail (NotFinalized e)) (verify_finality C qc validators oracle)) (\<lambda>_.
     andThen (ck_add (lc_height chain) 1) (\<lambda>expected_height.
     andThen (ensure (bh_height header = expected_height) (Fail (WrongHeight expected_height (bh_height header)))) (\<lambda>_.
     andThen (ensure (bh_prev_hash header = lc_tip_hash chain) (Fail WrongParent)) (\<lambda>_.
     andThen (ensure (bh_timestamp_ms header = expected_height)
         (Fail (TimestampNotDeterministic expected_height (bh_timestamp_ms header)))) (\<lambda>_.
     andThen (ensure (\<not> (qc_height qc \<noteq> bh_height header \<or> qc_block_hash qc \<noteq> header_hash C header))
         (Fail (NotFinalized (QuorumNotMet (quorum_threshold validators) 0)))) (\<lambda>_.
     andThen (map_err Fail (apply_block_with_verifier C (lc_state chain) body claim_verifier)) (\<lambda>next_state.
     andThen (ensure (bh_state_root header = state_commitment C next_state) (Fail StateRootMismatch)) (\<lambda>_.
       Inr (state_commitment C next_state,
            \<lparr>lc_height = bh_height header, lc_tip_hash = header_hash C header, lc_state = next_state\<rparr>)))))))))))))"

definition apply_finalized_block ::
  "crypto \<Rightarrow> LedgerChain \<Rightarrow> BlockHeader \<Rightarrow> SettlementBlockBody \<Rightarrow> QuorumCertificate \<Rightarrow> ValidatorSet \<Rightarrow> kel_oracle
     \<Rightarrow> ExecutionError fault + bytes \<times> LedgerChain" where
  "apply_finalized_block C chain header body qc validators oracle =
     apply_finalized_block_with_verifier C chain header body qc validators oracle None"

end
