(* ===== verification/EconomyProps.thy ===== *)
theory EconomyProps
  imports Economy
begin

text \<open>
  What the issuance and ledger code of \<open>mini-economy\<close> guarantees: exact proration, plans within their
  caps, exact and monotone vesting, supply accounting over every sequence of epochs, and snapshots
  that round trip.
\<close>

section \<open>Exact proration\<close>

lemma gcd_loop_gcd: "unat (gcd_loop a b) = gcd (unat a) (unat b)"
proof (induction a b rule: gcd_loop.induct)
  case (1 left right)
  show ?case
  proof (cases "right = 0")
    case True
    then show ?thesis by (simp add: gcd_loop.simps [of left 0])
  next
    case False
    with 1 have "unat (gcd_loop right (left mod right)) = gcd (unat right) (unat (left mod right))" by simp
    then show ?thesis using False
      by (simp add: gcd_loop.simps [of left right] unat_mod_distrib gcd.commute gcd_red_nat [symmetric])
  qed
qed

lemma reduce_factors:
  assumes "reduce f d = (f', d')" "d \<noteq> 0"
  obtains g where "0 < g" "unat f = unat f' * g" "unat d = unat d' * g" "d' \<noteq> 0"
proof
  let ?g = "gcd (unat f) (unat d)"
  have d: "unat d \<noteq> 0" using assms(2) by (simp add: unat_eq_0)
  then show "0 < ?g" by simp
  have f': "unat f' = unat f div ?g" "unat d' = unat d div ?g"
    using assms(1) by (auto simp: reduce_def Let_def unat_div_distrib gcd_loop_gcd)
  then show "unat f = unat f' * ?g" "unat d = unat d' * ?g" by simp_all
  with d show "d' \<noteq> 0" by auto
qed

text \<open>The denominator of a rate per million and year.\<close>

definition rate_denominator :: nat where
  "rate_denominator = 1000000 * (365 * 24 * 60 * 60 * 1000)"

definition share :: "nat \<Rightarrow> nat \<Rightarrow> nat \<Rightarrow> nat" where
  "share supply ppm duration = (supply * ppm * duration) div rate_denominator"

lemma prorated_reduced:
  assumes "duration \<noteq> 0"
  obtains f d where
    "prorated supply ppm duration = (if f < 2 ^ 128 then Inr (of_nat (f div d)) else Inl EOverflow)"
    "0 < d" "f div d = share (unat supply) (unat ppm) (unat duration)"
    "f \<le> unat supply * unat ppm * unat duration"
proof -
  let ?D = "MILLION * ucast YEAR_MS :: u128"
  have D: "?D \<noteq> 0" "unat ?D = rate_denominator" by (simp_all add: MILLION_def YEAR_MS_def rate_denominator_def)
  obtain f0 d0 where r0: "reduce supply ?D = (f0, d0)" by fastforce
  obtain f1 d1 where r1: "reduce (ucast ppm) d0 = (f1, d1)" by fastforce
  obtain f2 d2 where r2: "reduce (ucast duration) d1 = (f2, d2)" by fastforce
  obtain g0 where g0: "0 < g0" "unat supply = unat f0 * g0" "rate_denominator = unat d0 * g0" "d0 \<noteq> 0"
    using reduce_factors [OF r0 D(1)] D(2) by metis
  obtain g1 where g1: "0 < g1" "unat ppm = unat f1 * g1" "unat d0 = unat d1 * g1" "d1 \<noteq> 0"
    using reduce_factors [OF r1 g0(4)] by (metis unat_widen)
  obtain g2 where g2: "0 < g2" "unat duration = unat f2 * g2" "unat d1 = unat d2 * g2" "d2 \<noteq> 0"
    using reduce_factors [OF r2 g1(4)] by (metis unat_widen)
  let ?f = "unat f0 * unat f1 * unat f2"
  show ?thesis
  proof
    show "0 < unat d2" using g2(4) by (simp add: unat_gt_0)
    have e: "unat supply * unat ppm * unat duration = ?f * (g0 * g1 * g2)" "rate_denominator = unat d2 * (g0 * g1 * g2)"
      using g0(2,3) g1(2,3) g2(2,3) by (simp_all add: ac_simps)
    have g: "0 < g0 * g1 * g2" using g0(1) g1(1) g2(1) by simp
    then show "?f div unat d2 = share (unat supply) (unat ppm) (unat duration)"
      unfolding share_def e by (simp only: div_mult_mult2 less_numeral_extra(3) not_gr_zero neq0_conv)
    show "?f \<le> unat supply * unat ppm * unat duration" unfolding e(1) using g by simp
    show "prorated supply ppm duration
        = (if ?f < 2 ^ 128 then Inr (of_nat (?f div unat d2)) else Inl EOverflow)"
    proof (cases "checked_mul f0 f1")
      case None
      have "unat f2 \<noteq> 0" using assms g2(2) by (auto simp: unat_eq_0)
      then have "unat f0 * unat f1 \<le> ?f" by simp
      moreover have "2 ^ 128 \<le> unat f0 * unat f1" using None by (simp add: checked_mul_None)
      ultimately have "\<not> ?f < 2 ^ 128" by linarith
      then show ?thesis by (simp add: prorated_def r0 r1 r2 None)
    next
      case (Some v)
      then have v: "unat v = unat f0 * unat f1" by (simp add: checked_mul_Some)
      show ?thesis
      proof (cases "checked_mul v f2")
        case None
        then have "\<not> ?f < 2 ^ 128" using v by (simp add: checked_mul_None)
        with None show ?thesis using Some by (simp add: prorated_def r0 r1 r2)
      next
        case (Some n)
        then have n: "unat n = ?f" using v by (simp add: checked_mul_Some)
        moreover have "unat n < 2 ^ 128" using unsigned_less [of n, where ?'a = nat] by simp
        moreover have "n div d2 = of_nat (?f div unat d2)"
          unfolding n [symmetric] unat_div_distrib [symmetric] by simp
        ultimately show ?thesis using Some \<open>checked_mul f0 f1 = Some v\<close> by (simp add: prorated_def r0 r1 r2)
      qed
    qed
  qed
qed

lemma share_add:
  "share s a t + share s b t + share s c t \<le> share s (a + b + c) t"
proof -
  have "share s a t * rate_denominator + share s b t * rate_denominator + share s c t * rate_denominator
      \<le> s * a * t + s * b * t + s * c * t"
    unfolding share_def by (intro add_mono div_times_less_eq_dividend)
  then have "(share s a t + share s b t + share s c t) * rate_denominator \<le> s * (a + b + c) * t"
    by (simp add: algebra_simps)
  then show ?thesis
    using less_eq_div_iff_mult_less_eq [of rate_denominator] by (simp add: share_def rate_denominator_def)
qed

lemma share_mono: "a \<le> b \<Longrightarrow> share s a t \<le> share s b t"
  unfolding share_def by (intro div_le_mono mult_le_mono) simp_all

lemma prorated_Inr:
  assumes "duration \<noteq> 0" "prorated supply ppm duration = Inr n"
  shows "unat n = share (unat supply) (unat ppm) (unat duration)"
proof (rule prorated_reduced [OF assms(1), of "supply" ppm])
  fix f d
  assume p: "prorated supply ppm duration = (if f < 2 ^ 128 then Inr (of_nat (f div d)) else Inl EOverflow)"
    and d: "f div d = share (unat supply) (unat ppm) (unat duration)"
  from p assms(2) have f: "f < 2 ^ 128" "n = of_nat (f div d)" by (auto split: if_splits)
  have "f div d < 2 ^ 128" using f(1) by (rule le_less_trans [OF div_le_dividend])
  then have "unat n = f div d" unfolding f(2) by (simp add: unat_of_nat del: div_less)
  with d show ?thesis by simp
qed

section \<open>Allocations and plans\<close>

lemma amount_add_Inr [simp]: "amount_add a b = Inr c \<longleftrightarrow> unat c = unat a + unat b"
  by (simp add: amount_add_def checked_add_Some)

lemma amount_sub_Inr [simp]: "amount_sub a b = Inr c \<longleftrightarrow> unat c + unat b = unat a"
  by (simp add: amount_sub_def checked_sub_Some)

lemma validate_loop_Inr:
  "validate_loop seen acc as = Inr s \<Longrightarrow>
     unat s = unat acc + (\<Sum>a\<leftarrow>as. unat (al_amount a)) \<and> (\<forall>a \<in> set as. al_beneficiary a \<noteq> [])
     \<and> distinct (map al_beneficiary as)"
proof (induction seen acc as arbitrary: rule: validate_loop.induct)
  case (2 seen acc a as)
  then obtain b where b: "al_beneficiary a \<noteq> []" "al_beneficiary a \<notin> set seen"
      "unat b = unat acc + unat (al_amount a)" "validate_loop (al_beneficiary a # seen) b as = Inr s"
    by (auto split: if_splits)
  have new: "x \<in> set seen \<Longrightarrow> validate_loop seen acc as = Inr s \<Longrightarrow> x \<notin> al_beneficiary ` set as" for x seen acc as s
    by (induction seen acc as rule: validate_loop.induct) (auto split: if_splits)
  have "al_beneficiary a \<notin> al_beneficiary ` set as" by (rule new [OF _ b(4)]) simp
  moreover have "unat s = unat b + (\<Sum>a\<leftarrow>as. unat (al_amount a)) \<and> (\<forall>a \<in> set as. al_beneficiary a \<noteq> [])
      \<and> distinct (map al_beneficiary as)" using "2.IH" [of b] b by auto
  ultimately show ?case using b by auto
qed (auto simp: word_unat_eq_iff)

lemma validate_allocations_Inr:
  assumes "validate_allocations as cap = Inr s"
  shows "unat s = (\<Sum>a\<leftarrow>as. unat (al_amount a))" "s \<le> cap" "\<forall>a \<in> set as. al_beneficiary a \<noteq> []"
    "distinct (map al_beneficiary as)"
  using assms validate_loop_Inr [of "[]" 0 as s] by (auto simp: validate_allocations_def split: if_splits)

definition policy_ok :: "IssuancePolicy \<Rightarrow> bool" where
  "policy_ok p =
     (unat (ip_human_floor_ppm p) + unat (ip_service_ceiling_ppm p) + unat (ip_treasury_ceiling_ppm p)
        \<le> unat (ip_total_ceiling_ppm p)
      \<and> unat (ip_total_ceiling_ppm p) \<le> 1000000 \<and> ip_human_vesting_ms p \<noteq> 0 \<and> ip_treasury_vesting_ms p \<noteq> 0)"

lemma policy_validate_Inr:
  assumes "policy_validate p = Inr u"
  shows "policy_ok p"
proof -
  have m: "(ucast MILLION :: u32) = 1000000" by (simp add: MILLION_def)
  from assms obtain v w where "checked_add (ip_human_floor_ppm p) (ip_service_ceiling_ppm p) = Some v"
      "checked_add v (ip_treasury_ceiling_ppm p) = Some w" "w \<le> ip_total_ceiling_ppm p"
      "ip_total_ceiling_ppm p \<le> 1000000" "ip_human_vesting_ms p \<noteq> 0" "ip_treasury_vesting_ms p \<noteq> 0"
    by (auto simp: policy_validate_def m not_less split: option.splits if_splits)
  then show ?thesis by (auto simp: policy_ok_def checked_add_Some word_le_nat_alt)
qed

lemma plan_human_share_Inr:
  assumes "plan_human_share epoch duration opening snapshot policy = Inr h"
  shows "unat (hp_cap h) = share (unat opening) (unat (ip_human_floor_ppm policy)) (unat duration)"
    "unat (hp_per_human h) = unat (hp_cap h) div unat (hs_eligible_count snapshot)"
    "unat (hp_issued h) = unat (hp_per_human h) * unat (hs_eligible_count snapshot)"
    "unat (hp_issued h) + unat (hp_unissued_remainder h) = unat (hp_cap h)"
    "unat (hp_unissued_remainder h) < unat (hs_eligible_count snapshot)"
    "hp_epoch h = epoch" "hp_snapshot h = snapshot" "hp_vesting_ms h = ip_human_vesting_ms policy"
    "duration \<noteq> 0" "duration \<le> YEAR_MS" "hs_eligible_count snapshot \<noteq> 0" "hs_root snapshot \<noteq> replicate 32 0"
proof -
  let ?n = "unat (hs_eligible_count snapshot)"
  from assms obtain cap issued rest where
    d: "duration \<noteq> 0" "duration \<le> YEAR_MS" "hs_eligible_count snapshot \<noteq> 0" "hs_root snapshot \<noteq> replicate 32 0"
    and c: "prorated opening (ip_human_floor_ppm policy) duration = Inr cap"
      "unat issued = unat (cap div ucast (hs_eligible_count snapshot)) * ?n" "unat rest + unat issued = unat cap"
    and h: "h = \<lparr>hp_epoch = epoch, hp_snapshot = snapshot, hp_cap = cap,
      hp_per_human = cap div ucast (hs_eligible_count snapshot),
      hp_issued = issued, hp_unissued_remainder = rest, hp_vesting_ms = ip_human_vesting_ms policy\<rparr>"
    by (auto simp: plan_human_share_def Let_def checked_mul_Some not_less split: if_splits)
  have per: "unat (cap div ucast (hs_eligible_count snapshot)) = unat cap div ?n" by (simp add: unat_div_distrib)
  have "0 < ?n" using d(3) by (simp add: unat_gt_0)
  then have "unat rest < ?n" using c(2,3) div_mult_mod_eq [of "unat cap" ?n] mod_less_divisor [of ?n "unat cap"]
    unfolding per by linarith
  with d c per prorated_Inr [OF d(1) c(1)] show
    "unat (hp_cap h) = share (unat opening) (unat (ip_human_floor_ppm policy)) (unat duration)"
    "unat (hp_per_human h) = unat (hp_cap h) div unat (hs_eligible_count snapshot)"
    "unat (hp_issued h) = unat (hp_per_human h) * unat (hs_eligible_count snapshot)"
    "unat (hp_issued h) + unat (hp_unissued_remainder h) = unat (hp_cap h)"
    "unat (hp_unissued_remainder h) < unat (hs_eligible_count snapshot)"
    "hp_epoch h = epoch" "hp_snapshot h = snapshot" "hp_vesting_ms h = ip_human_vesting_ms policy"
    "duration \<noteq> 0" "duration \<le> YEAR_MS" "hs_eligible_count snapshot \<noteq> 0" "hs_root snapshot \<noteq> replicate 32 0"
    by (simp_all add: h)
qed

text \<open>The steps of a plan that got as far as adding up its channels.\<close>

definition plan_parts ::
  "ScalableEpochRequest \<Rightarrow> IssuancePolicy \<Rightarrow> HumanSharePlan \<Rightarrow> Amount \<Rightarrow> Amount \<Rightarrow> Amount \<Rightarrow> Amount \<Rightarrow> Amount \<Rightarrow> Amount \<Rightarrow> bool" where
  "plan_parts req pol human sc tc cap s t tot =
     (policy_ok pol
      \<and> plan_human_share (sr_epoch req) (sr_duration_ms req) (sr_opening_circulating req) (sr_human_snapshot req) pol = Inr human
      \<and> prorated (sr_opening_circulating req) (ip_service_ceiling_ppm pol) (sr_duration_ms req) = Inr sc
      \<and> prorated (sr_opening_circulating req) (ip_treasury_ceiling_ppm pol) (sr_duration_ms req) = Inr tc
      \<and> prorated (sr_opening_circulating req) (ip_total_ceiling_ppm pol) (sr_duration_ms req) = Inr cap
      \<and> validate_allocations (sr_service req) sc = Inr s \<and> validate_allocations (sr_treasury req) tc = Inr t
      \<and> unat tot = unat (hp_issued human) + unat s + unat t)"

lemma plan_parts_capped:
  assumes "plan_parts req pol human sc tc cap s t tot"
  shows "tot \<le> cap" "unat cap = share (unat (sr_opening_circulating req)) (unat (ip_total_ceiling_ppm pol)) (unat (sr_duration_ms req))"
proof -
  let ?o = "unat (sr_opening_circulating req)" and ?d = "unat (sr_duration_ms req)"
  from assms have pol: "policy_ok pol"
    and h: "plan_human_share (sr_epoch req) (sr_duration_ms req) (sr_opening_circulating req) (sr_human_snapshot req) pol = Inr human"
    and p: "prorated (sr_opening_circulating req) (ip_service_ceiling_ppm pol) (sr_duration_ms req) = Inr sc"
      "prorated (sr_opening_circulating req) (ip_treasury_ceiling_ppm pol) (sr_duration_ms req) = Inr tc"
      "prorated (sr_opening_circulating req) (ip_total_ceiling_ppm pol) (sr_duration_ms req) = Inr cap"
    and v: "validate_allocations (sr_service req) sc = Inr s" "validate_allocations (sr_treasury req) tc = Inr t"
    and tot: "unat tot = unat (hp_issued human) + unat s + unat t"
    by (simp_all add: plan_parts_def)
  note d = plan_human_share_Inr(9) [OF h]
  have caps: "unat s \<le> share ?o (unat (ip_service_ceiling_ppm pol)) ?d" "unat t \<le> share ?o (unat (ip_treasury_ceiling_ppm pol)) ?d"
    using validate_allocations_Inr(2) [OF v(1)] validate_allocations_Inr(2) [OF v(2)]
      prorated_Inr [OF d p(1)] prorated_Inr [OF d p(2)] by (simp_all add: word_le_nat_alt)
  have hum: "unat (hp_issued human) \<le> share ?o (unat (ip_human_floor_ppm pol)) ?d"
    using plan_human_share_Inr(1,4) [OF h] by linarith
  have "unat tot \<le> share ?o (unat (ip_human_floor_ppm pol) + unat (ip_service_ceiling_ppm pol) + unat (ip_treasury_ceiling_ppm pol)) ?d"
    using tot caps hum share_add [of ?o "unat (ip_human_floor_ppm pol)" ?d "unat (ip_service_ceiling_ppm pol)" "unat (ip_treasury_ceiling_ppm pol)"]
    by linarith
  also have "\<dots> \<le> share ?o (unat (ip_total_ceiling_ppm pol)) ?d" using pol by (intro share_mono) (simp add: policy_ok_def)
  finally show "tot \<le> cap" using prorated_Inr [OF d p(3)] by (simp add: word_le_nat_alt)
  show "unat cap = share ?o (unat (ip_total_ceiling_ppm pol)) ?d" by (rule prorated_Inr [OF d p(3)])
qed

definition plan_of ::
  "ScalableEpochRequest \<Rightarrow> IssuancePolicy \<Rightarrow> HumanSharePlan \<Rightarrow> Amount \<Rightarrow> Amount \<Rightarrow> Amount \<Rightarrow> Amount \<Rightarrow> Amount \<Rightarrow> Amount \<Rightarrow> ScalableEpochPlan" where
  "plan_of req pol human sc tc cap s t tot =
     \<lparr>sp_epoch = sr_epoch req, sp_duration_ms = sr_duration_ms req,
      sp_opening_circulating = sr_opening_circulating req, sp_human = human,
      sp_service_cap = sc, sp_treasury_cap = tc, sp_total_cap = cap,
      sp_service_issued = s, sp_treasury_issued = t, sp_total_issued = tot,
      sp_optional_grants = map (grant_of Service 0) (sr_service req)
        @ map (grant_of TreasuryContribution (ip_treasury_vesting_ms pol)) (sr_treasury req)\<rparr>"

lemma plan_scalable_Inr:
  assumes "plan_scalable_epoch req pol = Inr plan"
  obtains human sc tc cap s t tot where "plan_parts req pol human sc tc cap s t tot"
    "plan = plan_of req pol human sc tc cap s t tot"
  using assms policy_validate_Inr [of pol]
  by (auto simp: plan_scalable_epoch_def plan_parts_def plan_of_def split: if_splits)

lemma sum_map_grants:
  "(\<Sum>g\<leftarrow>map (grant_of c v) as. unat (vg_amount g)) = (\<Sum>a\<leftarrow>as. unat (al_amount a))"
  by (induction as) (simp_all add: grant_of_def)

lemma allocations_of_plan:
  assumes "plan_scalable_epoch req pol = Inr plan"
  shows "allocations_of (sp_optional_grants plan) Service = sr_service req"
    "allocations_of (sp_optional_grants plan) TreasuryContribution = sr_treasury req"
proof -
  have "filter (\<lambda>g. vg_channel g = c') (map (grant_of c v) as) = (if c = c' then map (grant_of c v) as else [])" for c c' v as
    by (induction as) (simp_all add: grant_of_def)
  moreover have "map (\<lambda>g. \<lparr>al_beneficiary = vg_beneficiary g, al_amount = vg_amount g\<rparr>) (map (grant_of c v) as) = as" for c v as
    by (induction as) (simp_all add: grant_of_def)
  ultimately show "allocations_of (sp_optional_grants plan) Service = sr_service req"
    "allocations_of (sp_optional_grants plan) TreasuryContribution = sr_treasury req"
    using assms by (auto elim!: plan_scalable_Inr simp: plan_of_def allocations_of_def)
qed

section \<open>Vesting\<close>

text \<open>The exact linear schedule, rounded down.\<close>

definition vested :: "VestingPosition \<Rightarrow> nat \<Rightarrow> nat" where
  "vested p now =
     (let elapsed = now - unat (vp_starts_at_policy_ms p); d = unat (vp_duration_ms p) in
      if d = 0 \<or> d \<le> elapsed then unat (vp_amount p) else unat (vp_amount p) * elapsed div d)"

lemma vested_le: "vested p now \<le> unat (vp_amount p)"
proof -
  have "a * e div d \<le> a" if "e < d" for a e d :: nat
  proof -
    have "a * e \<le> a * d" using that by simp
    then have "a * e div d \<le> a * d div d" by (rule div_le_mono)
    with that show ?thesis by simp
  qed
  then show ?thesis by (simp add: vested_def Let_def not_le)
qed

lemma vested_mono: "now \<le> now' \<Longrightarrow> vested p now \<le> vested p now'"
  using vested_le [of p now]
  by (auto simp: vested_def Let_def intro!: div_le_mono)

lemma split_product: "(a div d) * e + (a mod d) * e div d = a * e div d" if "0 < d" for a d e :: nat
proof -
  have "a * e = d * ((a div d) * e) + (a mod d) * e"
    using div_mult_mod_eq [of a d] by (metis add_mult_distrib mult.assoc mult.commute)
  then show ?thesis using that by simp
qed

lemma checked_mul_ok: "unat x * unat y < 2 ^ 128 \<Longrightarrow> \<exists>z. checked_mul x y = Some z \<and> unat z = unat x * unat y" for x y :: u128
  using checked_mul_Some [of x y] by (cases "checked_mul x y") (auto simp: checked_mul_None)

lemma vested_at_exact: "vested_at p now = Inr (of_nat (vested p (unat now)))"
proof -
  let ?e = "saturating_sub now (vp_starts_at_policy_ms p)" and ?d = "ucast (vp_duration_ms p) :: u128"
  have e: "unat ?e = unat now - unat (vp_starts_at_policy_ms p)" by (rule unat_saturating_sub)
  have d: "unat ?d = unat (vp_duration_ms p)" by simp
  show ?thesis
  proof (cases "vp_duration_ms p = 0 \<or> ?d \<le> ?e")
    case True
    then have "vested p (unat now) = unat (vp_amount p)"
      by (auto simp: vested_def Let_def e word_le_nat_alt)
    with True show ?thesis by (auto simp: vested_at_def Let_def)
  next
    case False
    then have lt: "unat ?e < unat ?d" by (simp add: word_le_nat_alt)
    then have v: "vested p (unat now) = unat (vp_amount p) * unat ?e div unat ?d"
      by (simp add: vested_def Let_def e)
    let ?a = "unat (vp_amount p)"
    have a: "?a < 2 ^ 128" using unsigned_less [of "vp_amount p", where ?'a = nat] by simp
    have "(?a div unat ?d) * unat ?e \<le> (?a div unat ?d) * unat ?d" using lt by simp
    also have "\<dots> \<le> ?a" by (rule div_times_less_eq_dividend)
    finally obtain whole where w: "checked_mul (vp_amount p div ?d) ?e = Some whole" "unat whole = (?a div unat ?d) * unat ?e"
      using a checked_mul_ok [of "vp_amount p div ?d" ?e] by (auto simp: unat_div_distrib)
    have d64: "unat ?d < 2 ^ 64" using unsigned_less [of "vp_duration_ms p", where ?'a = nat] by simp
    have "(?a mod unat ?d) * unat ?e < 2 ^ 64 * 2 ^ 64"
      using lt d64 by (intro mult_strict_mono) (auto intro: less_trans [OF mod_less_divisor])
    then obtain fraction where f: "checked_mul (vp_amount p mod ?d) ?e = Some fraction" "unat fraction = (?a mod unat ?d) * unat ?e"
      using checked_mul_ok [of "vp_amount p mod ?d" ?e] by (auto simp: unat_mod_distrib)
    have sum: "unat whole + unat (fraction div ?d) = vested p (unat now)"
      using split_product [of "unat ?d" ?a "unat ?e"] lt by (simp add: v w f unat_div_distrib)
    then have "unat whole + unat (fraction div ?d) < 2 ^ 128" using vested_le [of p "unat now"] a by linarith
    then have "checked_add whole (fraction div ?d) = Some (of_nat (vested p (unat now)))"
      using sum by (simp add: checked_add_Some unat_of_nat)
    with False w(1) f(1) show ?thesis by (simp add: vested_at_def Let_def)
  qed
qed

lemma vested_at_unat: "vested_at p now = Inr v \<longleftrightarrow> unat v = vested p (unat now)"
proof -
  have "vested p (unat now) < 2 ^ 128"
    using vested_le [of p "unat now"] unsigned_less [of "vp_amount p", where ?'a = nat] by simp
  then have "unat (of_nat (vested p (unat now)) :: u128) = vested p (unat now)" by (simp add: unat_of_nat)
  then show ?thesis by (auto simp: vested_at_exact word_unat_eq_iff)
qed

section \<open>Supply accounting\<close>

lemma unat_vested: "unat (of_nat (vested p (unat now)) :: u128) = vested p (unat now)" for now :: u128
  using vested_at_unat [of p now "of_nat (vested p (unat now))"] by (simp add: vested_at_exact)

lemma circulating_loop_sum:
  "circulating_loop now c ps = ok_or (checked_sum c (map (\<lambda>p. of_nat (vested p (unat now))) ps)) EOverflow"
  by (induction ps arbitrary: c) (auto simp: vested_at_exact amount_add_def split: option.split)

lemma circulating_loop_Inr:
  "circulating_loop now c ps = Inr z \<longleftrightarrow> unat z = unat c + (\<Sum>p\<leftarrow>ps. vested p (unat now))"
  by (simp add: circulating_loop_sum checked_sum_Some unat_vested comp_def)

lemma circulating_loop_ok:
  "unat c + (\<Sum>p\<leftarrow>ps. vested p (unat now)) < 2 ^ 128 \<Longrightarrow> is_ok (circulating_loop now c ps)"
  using checked_sum_None [of c "map (\<lambda>p. of_nat (vested p (unat now))) ps"]
  by (cases "checked_sum c (map (\<lambda>p. of_nat (vested p (unat now))) ps)")
     (simp_all add: circulating_loop_sum comp_def unat_vested)

definition position_ok :: "MonetaryLedger \<Rightarrow> VestingPosition \<Rightarrow> bool" where
  "position_ok L p =
     (vp_starts_at_policy_ms p \<le> ml_policy_time_ms L
      \<and> (case ml_last_epoch L of None \<Rightarrow> False | Some e \<Rightarrow> vp_epoch p \<le> e)
      \<and> (case vp_subject p of
           SnapshotSubject s \<Rightarrow> hs_root s \<noteq> replicate 32 0 \<and> hs_eligible_count s \<noteq> 0
         | Beneficiary b \<Rightarrow> b \<noteq> []))"

definition ledger_ok :: "MonetaryLedger \<Rightarrow> bool" where
  "ledger_ok L =
     (unat (ml_total_issued L) = (\<Sum>p\<leftarrow>ml_positions L. unat (vp_amount p))
      \<and> list_all (position_ok L) (ml_positions L)
      \<and> (ml_last_epoch L = None \<longrightarrow> ml_total_issued L = 0 \<and> ml_policy_time_ms L = 0 \<and> ml_positions L = []))"

lemma ml_new_ok: "ledger_ok (ml_new g)"
  by (simp add: ledger_ok_def ml_new_def)

lemma validate_plan_shape_Inr:
  assumes "validate_plan_shape plan policy = Inr u"
  obtains req where "plan_scalable_epoch req policy = Inr plan" "sr_epoch req = sp_epoch plan"
    "sr_duration_ms req = sp_duration_ms plan" "sr_opening_circulating req = sp_opening_circulating plan"
  using assms by (auto simp: validate_plan_shape_def split: if_splits)

lemma apply_epoch_Inr:
  assumes "apply_epoch L plan policy = Inr L'"
  obtains "validate_plan_shape plan policy = Inr ()" "circulating_supply L = Inr (sp_opening_circulating plan)"
    "unat (ml_policy_time_ms L') = unat (ml_policy_time_ms L) + unat (sp_duration_ms plan)"
    "unat (ml_total_issued L') = unat (ml_total_issued L) + unat (sp_total_issued plan)"
    "ml_last_epoch L' = Some (sp_epoch plan)" "ml_genesis_circulating L' = ml_genesis_circulating L"
    "ml_positions L' = ml_positions L @ [human_position plan (ml_policy_time_ms L')]
       @ map (grant_position plan (ml_policy_time_ms L')) (sp_optional_grants plan)"
    "case ml_last_epoch L of None \<Rightarrow> sp_epoch plan = 0 | Some e \<Rightarrow> unat (sp_epoch plan) = unat e + 1"
  using assms by (auto simp: apply_epoch_def checked_add_Some split: option.splits if_splits)

lemma plan_position_total:
  assumes "plan_scalable_epoch req policy = Inr plan"
  shows "(\<Sum>p\<leftarrow>[human_position plan end] @ map (grant_position plan end) (sp_optional_grants plan). unat (vp_amount p))
      = unat (sp_total_issued plan)"
  using assms
proof (rule plan_scalable_Inr)
  fix human sc tc cap s t tot
  assume p: "plan_parts req policy human sc tc cap s t tot" "plan = plan_of req policy human sc tc cap s t tot"
  have "(\<Sum>p\<leftarrow>map (grant_position plan end) gs. unat (vp_amount p)) = (\<Sum>g\<leftarrow>gs. unat (vg_amount g))" for gs
    by (induction gs) (simp_all add: grant_position_def)
  then show ?thesis
    using p(1) validate_allocations_Inr(1) [of "sr_service req" sc s] validate_allocations_Inr(1) [of "sr_treasury req" tc t]
    by (simp add: p(2) plan_of_def plan_parts_def human_position_def sum_map_grants del: map_map)
qed

lemma plan_positions_ok:
  assumes "plan_scalable_epoch req policy = Inr plan" "ml_last_epoch L = Some (sp_epoch plan)"
  shows "position_ok L (human_position plan (ml_policy_time_ms L))"
    "list_all (position_ok L) (map (grant_position plan (ml_policy_time_ms L)) (sp_optional_grants plan))"
  using assms(1)
proof (atomize (full), rule plan_scalable_Inr)
  fix human sc tc cap s t tot
  assume p: "plan_parts req policy human sc tc cap s t tot" "plan = plan_of req policy human sc tc cap s t tot"
  then have h: "plan_human_share (sr_epoch req) (sr_duration_ms req) (sr_opening_circulating req) (sr_human_snapshot req) policy = Inr human"
    and v: "validate_allocations (sr_service req) sc = Inr s" "validate_allocations (sr_treasury req) tc = Inr t"
    by (simp_all add: plan_parts_def)
  have "position_ok L (human_position plan (ml_policy_time_ms L))"
    using assms(2) plan_human_share_Inr(7,11,12) [OF h] by (simp add: position_ok_def human_position_def p(2) plan_of_def)
  moreover have "list_all (position_ok L) (map (grant_position plan (ml_policy_time_ms L)) (sp_optional_grants plan))"
    using assms(2) validate_allocations_Inr(3) [OF v(1)] validate_allocations_Inr(3) [OF v(2)]
    by (auto simp: list_all_iff position_ok_def grant_position_def grant_of_def p(2) plan_of_def)
  ultimately show "position_ok L (human_position plan (ml_policy_time_ms L))
    \<and> list_all (position_ok L) (map (grant_position plan (ml_policy_time_ms L)) (sp_optional_grants plan))" by blast
qed

lemma apply_epoch_ok:
  assumes ok: "ledger_ok L" and app: "apply_epoch L plan policy = Inr L'"
  shows "ledger_ok L'"
  using app
proof (rule apply_epoch_Inr)
  assume v: "validate_plan_shape plan policy = Inr ()"
    and time: "unat (ml_policy_time_ms L') = unat (ml_policy_time_ms L) + unat (sp_duration_ms plan)"
    and issued: "unat (ml_total_issued L') = unat (ml_total_issued L) + unat (sp_total_issued plan)"
    and last: "ml_last_epoch L' = Some (sp_epoch plan)"
    and pos: "ml_positions L' = ml_positions L @ [human_position plan (ml_policy_time_ms L')]
       @ map (grant_position plan (ml_policy_time_ms L')) (sp_optional_grants plan)"
    and ep: "case ml_last_epoch L of None \<Rightarrow> sp_epoch plan = 0 | Some e \<Rightarrow> unat (sp_epoch plan) = unat e + 1"
  from v obtain req where plan: "plan_scalable_epoch req policy = Inr plan" by (rule validate_plan_shape_Inr)
  have "position_ok L' p" if "position_ok L p" for p
    using that time ep last
    by (auto simp: position_ok_def word_le_nat_alt split: option.splits)
  then have "list_all (position_ok L') (ml_positions L)" using ok by (auto simp: ledger_ok_def list_all_iff)
  with plan_positions_ok [OF plan last] have "list_all (position_ok L') (ml_positions L')" by (simp add: pos)
  moreover have "unat (ml_total_issued L') = (\<Sum>p\<leftarrow>ml_positions L'. unat (vp_amount p))"
    using ok issued plan_position_total [OF plan, of "ml_policy_time_ms L'"] by (simp add: ledger_ok_def pos)
  ultimately show ?thesis by (simp add: ledger_ok_def last)
qed

text \<open>Every ledger that a sequence of epochs, under any policies, can produce from a genesis.\<close>

inductive ledger_reach :: "MonetaryLedger \<Rightarrow> bool" where
  genesis: "ledger_reach (ml_new g)"
| epoch: "ledger_reach L \<Longrightarrow> apply_epoch L plan policy = Inr L' \<Longrightarrow> ledger_reach L'"

lemma ledger_reach_ok: "ledger_reach L \<Longrightarrow> ledger_ok L"
  by (induction rule: ledger_reach.induct) (auto intro: ml_new_ok apply_epoch_ok)

lemma vested_total_le: "(\<Sum>p\<leftarrow>ps. vested p now) \<le> (\<Sum>p\<leftarrow>ps. unat (vp_amount p))"
  by (rule sum_list_mono) (rule vested_le)

lemma supply_split:
  assumes ok: "ledger_ok L" and t: "total_supply L = Inr t"
  shows "\<exists>c l. circulating_supply L = Inr c \<and> locked_supply L = Inr l \<and> unat c + unat l = unat t
    \<and> ml_genesis_circulating L \<le> c
    \<and> unat c = unat (ml_genesis_circulating L) + (\<Sum>p\<leftarrow>ml_positions L. vested p (unat (ml_policy_time_ms L)))"
proof -
  let ?v = "\<Sum>p\<leftarrow>ml_positions L. vested p (unat (ml_policy_time_ms L))"
  have tt: "unat t = unat (ml_genesis_circulating L) + unat (ml_total_issued L)" using t by (simp add: total_supply_def)
  have le: "?v \<le> unat (ml_total_issued L)" using ok vested_total_le by (simp add: ledger_ok_def)
  have "unat t < 2 ^ 128" using unsigned_less [of t, where ?'a = nat] by simp
  with tt le have "unat (ml_genesis_circulating L) + ?v < 2 ^ 128" by linarith
  then obtain c where c: "circulating_supply L = Inr c"
    using circulating_loop_ok [of "ml_genesis_circulating L" "ml_policy_time_ms L" "ml_positions L"]
    by (auto simp: circulating_supply_def is_ok_iff)
  then have uc: "unat c = unat (ml_genesis_circulating L) + ?v" by (simp add: circulating_supply_def circulating_loop_Inr)
  then have "unat c \<le> unat t" using tt le by linarith
  then have "c \<le> t" by (simp add: word_le_nat_alt)
  then have "amount_sub t c = Inr (t - c)" "unat c + unat (t - c) = unat t"
    by (simp_all add: amount_sub_def checked_sub_def unat_sub word_le_nat_alt)
  with t c uc show ?thesis by (intro exI [of _ c] exI [of _ "t - c"]) (simp add: locked_supply_def word_le_nat_alt)
qed

section \<open>Snapshots\<close>

fun greatest_epoch :: "u64 option \<Rightarrow> VestingPosition list \<Rightarrow> u64 option" where
  "greatest_epoch g [] = g"
| "greatest_epoch g (p # ps) =
     greatest_epoch (Some (case g of None \<Rightarrow> vp_epoch p | Some e \<Rightarrow> max e (vp_epoch p))) ps"

lemma snapshot_loop_Inr:
  "snapshot_loop now issued g ps = Inr (z, g') \<longleftrightarrow>
     list_all (\<lambda>p. validate_position p now = Inr ()) ps \<and> checked_sum issued (map vp_amount ps) = Some z
     \<and> g' = greatest_epoch g ps"
  by (induction ps arbitrary: issued g) (auto simp: amount_add_def split: option.splits)

lemma greatest_epoch_le:
  "(\<forall>p \<in> set ps. vp_epoch p \<le> e) \<Longrightarrow> (\<forall>x. g = Some x \<longrightarrow> x \<le> e) \<Longrightarrow> greatest_epoch g ps = Some m \<Longrightarrow> m \<le> e"
  by (induction g ps rule: greatest_epoch.induct) (auto split: option.splits)

lemma greatest_epoch_ge:
  "greatest_epoch g ps = Some m \<Longrightarrow> (\<forall>p \<in> set ps. vp_epoch p \<le> m) \<and> (\<forall>x. g = Some x \<longrightarrow> x \<le> m)"
  by (induction g ps rule: greatest_epoch.induct) (auto split: option.splits)

lemma greatest_epoch_None: "greatest_epoch g ps = None \<longleftrightarrow> g = None \<and> ps = []"
  by (induction g ps rule: greatest_epoch.induct) auto

text \<open>What fits in a snapshot.\<close>

definition snapshot_sized :: "MonetaryLedger \<Rightarrow> bool" where
  "snapshot_sized L =
     (length (ml_positions L) \<le> MAX_VESTING_POSITIONS
      \<and> (\<forall>p \<in> set (ml_positions L). case vp_subject p of Beneficiary b \<Rightarrow> length b \<le> MAX_SNAPSHOT_BENEFICIARY_BYTES | _ \<Rightarrow> True))"

lemma validate_position_iff:
  "validate_position p now = Inr () \<longleftrightarrow>
     vp_starts_at_policy_ms p \<le> now
     \<and> (case vp_subject p of
          SnapshotSubject s \<Rightarrow> hs_root s \<noteq> replicate 32 0 \<and> hs_eligible_count s \<noteq> 0
        | Beneficiary b \<Rightarrow> b \<noteq> [] \<and> length b \<le> MAX_SNAPSHOT_BENEFICIARY_BYTES)"
  by (auto simp: validate_position_def not_less split: VestingSubject.split)

lemma export_snapshot_sel:
  "ms_positions (export_snapshot L) = ml_positions L"
  "ms_last_epoch (export_snapshot L) = ml_last_epoch L"
  "ms_total_issued (export_snapshot L) = ml_total_issued L"
  "ms_policy_time_ms (export_snapshot L) = ml_policy_time_ms L"
  "ms_genesis_circulating (export_snapshot L) = ml_genesis_circulating L"
  by (simp_all add: export_snapshot_def)

lemma ledger_eta:
  "\<lparr>ml_genesis_circulating = ml_genesis_circulating L, ml_total_issued = ml_total_issued L,
    ml_policy_time_ms = ml_policy_time_ms L, ml_last_epoch = ml_last_epoch L, ml_positions = ml_positions L\<rparr> = L"
  by simp

lemma import_export:
  "import_snapshot (export_snapshot L) =
     (if length (ml_positions L) > MAX_VESTING_POSITIONS then Inl InvalidSnapshot
      else if ml_last_epoch L = None
              \<and> (ml_total_issued L \<noteq> 0 \<or> ml_policy_time_ms L \<noteq> 0 \<or> ml_positions L \<noteq> []) then Inl InvalidSnapshot
      else
        andThen (snapshot_loop (ml_policy_time_ms L) 0 None (ml_positions L)) (\<lambda>(issued, greatest).
          if issued \<noteq> ml_total_issued L then Inl InvalidSnapshot
          else if (case (greatest, ml_last_epoch L) of (Some g, Some l) \<Rightarrow> g > l | _ \<Rightarrow> False) then Inl InvalidSnapshot
          else andThen (total_supply L) (\<lambda>_. andThen (circulating_supply L) (\<lambda>_. andThen (locked_supply L) (\<lambda>_. Inr L)))))"
  unfolding import_snapshot_def Let_def export_snapshot_sel ledger_eta by (rule refl)

lemma import_export_ok:
  assumes ok: "ledger_ok L" and sz: "snapshot_sized L" and t: "is_ok (total_supply L)"
  shows "import_snapshot (export_snapshot L) = Inr L"
proof -
  have pos: "\<forall>p \<in> set (ml_positions L). position_ok L p" using ok by (simp add: ledger_ok_def list_all_iff)
  then have "list_all (\<lambda>p. validate_position p (ml_policy_time_ms L) = Inr ()) (ml_positions L)"
    using sz by (auto simp: validate_position_iff position_ok_def snapshot_sized_def list_all_iff split: VestingSubject.splits)
  moreover have "checked_sum 0 (map vp_amount (ml_positions L)) = Some (ml_total_issued L)"
    using ok by (simp add: checked_sum_Some ledger_ok_def comp_def)
  ultimately have loop: "snapshot_loop (ml_policy_time_ms L) 0 None (ml_positions L)
      = Inr (ml_total_issued L, greatest_epoch None (ml_positions L))" by (simp add: snapshot_loop_Inr)
  have late: "\<not> (case (greatest_epoch None (ml_positions L), ml_last_epoch L) of (Some g, Some l) \<Rightarrow> g > l | _ \<Rightarrow> False)"
    using pos greatest_epoch_le [of "ml_positions L" _ None]
    by (auto simp: position_ok_def not_less split: option.splits)
  obtain tt where tt: "total_supply L = Inr tt" using t by (auto simp: is_ok_iff)
  from supply_split [OF ok tt] obtain c l where "circulating_supply L = Inr c" "locked_supply L = Inr l" by blast
  with loop late tt ok sz show ?thesis by (auto simp: import_export ledger_ok_def snapshot_sized_def)
qed

lemma import_export_sound:
  assumes "import_snapshot (export_snapshot L) = Inr L'"
  shows "L' = L \<and> ledger_ok L \<and> snapshot_sized L \<and> is_ok (total_supply L)"
proof -
  have len: "length (ml_positions L) \<le> MAX_VESTING_POSITIONS"
    using assms unfolding import_export by (simp split: if_split_asm)
  have none: "ml_last_epoch L = None \<longrightarrow> ml_total_issued L = 0 \<and> ml_policy_time_ms L = 0 \<and> ml_positions L = []"
    using assms unfolding import_export by (cases "ml_last_epoch L") (simp_all split: if_split_asm)
  from assms obtain r where r: "snapshot_loop (ml_policy_time_ms L) 0 None (ml_positions L) = Inr r"
    and rest: "(case r of (issued, greatest) \<Rightarrow>
          if issued \<noteq> ml_total_issued L then Inl InvalidSnapshot
          else if (case (greatest, ml_last_epoch L) of (Some g, Some l) \<Rightarrow> g > l | _ \<Rightarrow> False) then Inl InvalidSnapshot
          else andThen (total_supply L) (\<lambda>_. andThen (circulating_supply L) (\<lambda>_. andThen (locked_supply L) (\<lambda>_. Inr L)))) = Inr L'"
    unfolding import_export by (auto simp only: andThen_eq_Inr split: if_split_asm)
  obtain i g where ig: "r = (i, g)" by (cases r)
  have late: "\<not> (case (g, ml_last_epoch L) of (Some g, Some l) \<Rightarrow> g > l | _ \<Rightarrow> False)"
    and loop: "snapshot_loop (ml_policy_time_ms L) 0 None (ml_positions L) = Inr (ml_total_issued L, g)"
    and t: "is_ok (total_supply L)" and L': "L' = L"
    using rest r unfolding ig prod.case by (simp_all only: split: if_split_asm) (auto simp: is_ok_iff)
  have val: "\<forall>p \<in> set (ml_positions L). validate_position p (ml_policy_time_ms L) = Inr ()"
    and sum: "unat (ml_total_issued L) = (\<Sum>p\<leftarrow>ml_positions L. unat (vp_amount p))"
    and g: "g = greatest_epoch None (ml_positions L)"
    using loop by (simp_all add: snapshot_loop_Inr list_all_iff checked_sum_Some comp_def)
  have "position_ok L p" if p: "p \<in> set (ml_positions L)" for p
  proof -
    obtain l where l: "ml_last_epoch L = Some l" using none p by (cases "ml_last_epoch L") auto
    obtain m where m: "g = Some m" using g p greatest_epoch_None [of None "ml_positions L"] by (cases g) auto
    have "vp_epoch p \<le> m" using greatest_epoch_ge [of None "ml_positions L" m] m g p by auto
    moreover have "m \<le> l" using late by (simp add: l m not_less)
    ultimately show ?thesis using val p l
      by (auto simp: position_ok_def validate_position_iff split: VestingSubject.splits)
  qed
  moreover have "snapshot_sized L"
    using val len by (auto simp: snapshot_sized_def validate_position_iff split: VestingSubject.splits)
  ultimately show ?thesis using none sum t L' by (simp add: ledger_ok_def list_all_iff)
qed

lemma snapshot_surj: "\<exists>L. s = export_snapshot L" for s :: MonetaryLedgerSnapshot
  by (rule exI [of _ "\<lparr>ml_genesis_circulating = ms_genesis_circulating s, ml_total_issued = ms_total_issued s,
      ml_policy_time_ms = ms_policy_time_ms s, ml_last_epoch = ms_last_epoch s, ml_positions = ms_positions s\<rparr>"])
     (simp add: export_snapshot_def)

lemma prorated_fits:
  assumes "duration \<noteq> 0" "unat supply * unat ppm * unat duration < 2 ^ 128"
  shows "prorated supply ppm duration = Inr (of_nat (share (unat supply) (unat ppm) (unat duration)))"
proof (rule prorated_reduced [OF assms(1), of "supply" ppm])
  fix f d
  assume "prorated supply ppm duration = (if f < 2 ^ 128 then Inr (of_nat (f div d)) else Inl EOverflow)"
    and "f div d = share (unat supply) (unat ppm) (unat duration)"
    and "f \<le> unat supply * unat ppm * unat duration"
  with assms(2) show ?thesis by simp
qed

text \<open>A duration of zero cancels to a factor of zero, after the first product was taken.\<close>

lemma reduce_le: "reduce f d = (f', d') \<Longrightarrow> unat f' \<le> unat f"
  by (auto simp: reduce_def Let_def unat_div_distrib)

lemma prorated_zero:
  "prorated supply ppm 0 = Inr n \<Longrightarrow> n = 0"
  "unat supply * unat ppm < 2 ^ 128 \<Longrightarrow> prorated supply ppm 0 = Inr 0"
proof -
  obtain f0 d0 where r0: "reduce supply (MILLION * ucast YEAR_MS) = (f0, d0)" by fastforce
  obtain f1 d1 where r1: "reduce (ucast ppm) d0 = (f1, d1)" by fastforce
  obtain d2 where r2: "reduce 0 d1 = (0, d2)" by (simp add: reduce_def Let_def)
  have z: "checked_mul v 0 = Some 0" for v :: u128 by (simp add: checked_mul_def)
  show "n = 0" if "prorated supply ppm 0 = Inr n"
    using that by (auto simp: prorated_def r0 r1 r2 z ok_or_def split: option.splits)
  assume "unat supply * unat ppm < 2 ^ 128"
  moreover have "unat f0 * unat f1 \<le> unat supply * unat ppm"
    using mult_le_mono [OF reduce_le [OF r0] reduce_le [OF r1]] by simp
  ultimately obtain v where "checked_mul f0 f1 = Some v"
    by (cases "checked_mul f0 f1") (auto simp: checked_mul_None)
  then show "prorated supply ppm 0 = Inr 0" by (simp add: prorated_def r0 r1 r2 z)
qed

lemma rate_denominator_pos: "0 < rate_denominator"
  by (simp add: rate_denominator_def)

lemma prorated_Inl: "prorated opening ppm d = Inl e \<Longrightarrow> e = EOverflow"
  by (auto simp: prorated_def Let_def andThen_eq_Inl ok_or_def split: prod.splits option.splits)

lemma validate_loop_Inl: "validate_loop seen acc as = Inl e \<Longrightarrow> e = EOverflow \<or> e = DuplicateBeneficiary"
  by (induction seen acc as rule: validate_loop.induct)
     (auto simp: andThen_eq_Inl amount_add_def ok_or_def split: if_splits option.splits)

lemma validate_allocations_Inl: "validate_allocations as cap = Inl e \<Longrightarrow> e \<noteq> TotalExceeded"
  by (auto simp: validate_allocations_def andThen_eq_Inl dest!: validate_loop_Inl split: if_splits)

lemma policy_validate_Inl: "policy_validate p = Inl e \<Longrightarrow> e = InvalidPolicy"
  by (auto simp: policy_validate_def andThen_eq_Inl ok_or_def split: if_splits option.splits)

lemma amount_add_Inl: "amount_add a b = Inl e \<Longrightarrow> e = EOverflow"
  by (auto simp: amount_add_def ok_or_def split: option.splits)

lemma plan_human_share_Inl: "plan_human_share ep d op sn pol = Inl e \<Longrightarrow> e \<noteq> TotalExceeded"
  unfolding plan_human_share_def Let_def
  by (auto simp: andThen_eq_Inl ensure_def ok_or_def amount_sub_def dest!: policy_validate_Inl prorated_Inl
      split: if_splits option.splits)

lemma plan_scalable_total_exceeded:
  assumes "plan_scalable_epoch req pol = Inl TotalExceeded"
  obtains human sc tc cap s t tot where "plan_parts req pol human sc tc cap s t tot" "tot > cap"
  using assms unfolding plan_scalable_epoch_def
  by (auto simp: andThen_eq_Inl plan_parts_def split: if_splits
      dest: policy_validate_Inl prorated_Inl validate_allocations_Inl plan_human_share_Inl amount_add_Inl
      dest!: policy_validate_Inr)

lemma share_le:
  assumes "ppm \<le> 1000000" "d \<le> 365 * 24 * 60 * 60 * 1000"
  shows "share s ppm d \<le> s"
proof -
  have "s * ppm * d \<le> s * rate_denominator"
    unfolding rate_denominator_def mult.assoc using assms by (intro mult_le_mono) simp_all
  then show ?thesis unfolding share_def by (metis div_le_mono div_mult_self_is_m rate_denominator_pos)
qed

lemma plan_issued_bounds:
  assumes "plan_scalable_epoch req pol = Inr plan"
  shows "unat (sp_total_issued plan) \<le> share (unat (sr_opening_circulating req)) (unat (ip_total_ceiling_ppm pol)) (unat (sr_duration_ms req))"
    "unat (sp_total_issued plan) \<le> unat (sr_opening_circulating req)"
proof (rule_tac [!] plan_scalable_Inr [OF assms])
  fix human sc tc cap s t tot
  assume p: "plan_parts req pol human sc tc cap s t tot" "plan = plan_of req pol human sc tc cap s t tot"
  show a: "unat (sp_total_issued plan) \<le> share (unat (sr_opening_circulating req)) (unat (ip_total_ceiling_ppm pol)) (unat (sr_duration_ms req))"
    using plan_parts_capped [OF p(1)] by (simp add: p(2) plan_of_def word_le_nat_alt)
  have "policy_ok pol" and h: "plan_human_share (sr_epoch req) (sr_duration_ms req) (sr_opening_circulating req) (sr_human_snapshot req) pol = Inr human"
    using p(1) by (simp_all add: plan_parts_def)
  then have "share (unat (sr_opening_circulating req)) (unat (ip_total_ceiling_ppm pol)) (unat (sr_duration_ms req)) \<le> unat (sr_opening_circulating req)"
    using plan_human_share_Inr(10) [OF h] by (intro share_le) (simp_all add: policy_ok_def word_le_nat_alt YEAR_MS_def)
  with a show "unat (sp_total_issued plan) \<le> unat (sr_opening_circulating req)" by linarith
qed

lemma epoch_successor: "unat x = unat e + 1 \<Longrightarrow> x = e + 1 \<and> e < e + 1" for x e :: u64
  using unsigned_less [of x, where ?'a = nat] by (simp add: word_unat_eq_iff word_less_nat_alt unat_word_ariths)

section \<open>A first epoch, evaluated\<close>

definition demo_request :: ScalableEpochRequest where
  "demo_request =
     \<lparr>sr_epoch = 0, sr_duration_ms = YEAR_MS, sr_opening_circulating = 1000000000,
      sr_human_snapshot = \<lparr>hs_root = replicate 32 1, hs_eligible_count = 7\<rparr>,
      sr_service = [\<lparr>al_beneficiary = [1], al_amount = 300\<rparr>], sr_treasury = [\<lparr>al_beneficiary = [2], al_amount = 200\<rparr>]\<rparr>"

definition demo_plan :: ScalableEpochPlan where
  "demo_plan =
     \<lparr>sp_epoch = 0, sp_duration_ms = YEAR_MS, sp_opening_circulating = 1000000000,
      sp_human = \<lparr>hp_epoch = 0, hp_snapshot = \<lparr>hs_root = replicate 32 1, hs_eligible_count = 7\<rparr>,
        hp_cap = 20000000, hp_per_human = 2857142, hp_issued = 19999994, hp_unissued_remainder = 6,
        hp_vesting_ms = YEAR_MS\<rparr>,
      sp_service_cap = 7500000, sp_treasury_cap = 2500000, sp_total_cap = 30000000,
      sp_service_issued = 300, sp_treasury_issued = 200, sp_total_issued = 20000494,
      sp_optional_grants = [\<lparr>vg_beneficiary = [1], vg_channel = Service, vg_amount = 300, vg_vesting_ms = 0\<rparr>,
        \<lparr>vg_beneficiary = [2], vg_channel = TreasuryContribution, vg_amount = 200, vg_vesting_ms = 7776000000\<rparr>]\<rparr>"

definition demo_ledger :: MonetaryLedger where
  "demo_ledger =
     \<lparr>ml_genesis_circulating = 1000000000, ml_total_issued = 20000494, ml_policy_time_ms = 31536000000,
      ml_last_epoch = Some 0,
      ml_positions = [human_position demo_plan 31536000000]
        @ map (grant_position demo_plan 31536000000) (sp_optional_grants demo_plan)\<rparr>"

lemma YEAR_MS_nz: "YEAR_MS \<noteq> 0"
  by (simp add: YEAR_MS_def)

lemma demo_rates:
  "prorated 1000000000 20000 YEAR_MS = Inr 20000000" "prorated 1000000000 7500 YEAR_MS = Inr 7500000"
  "prorated 1000000000 2500 YEAR_MS = Inr 2500000" "prorated 1000000000 30000 YEAR_MS = Inr 30000000"
  by (subst prorated_fits; simp add: YEAR_MS_def share_def rate_denominator_def)+

lemma demo_plan_accepted: "plan_scalable_epoch demo_request d0074 = Inr demo_plan"
  by (simp add: plan_scalable_epoch_def plan_human_share_def demo_request_def demo_plan_def d0074_def demo_rates policy_validate_def
      checked_add_def checked_mul_def checked_sub_def MILLION_def validate_allocations_def amount_add_def amount_sub_def grant_of_def YEAR_MS_nz)

lemma demo_shape: "validate_plan_shape demo_plan d0074 = Inr ()"
proof -
  have "\<lparr>sr_epoch = sp_epoch demo_plan, sr_duration_ms = sp_duration_ms demo_plan,
         sr_opening_circulating = sp_opening_circulating demo_plan, sr_human_snapshot = hp_snapshot (sp_human demo_plan),
         sr_service = allocations_of (sp_optional_grants demo_plan) Service,
         sr_treasury = allocations_of (sp_optional_grants demo_plan) TreasuryContribution\<rparr> = demo_request"
    by (simp add: demo_plan_def demo_request_def allocations_of_def)
  then show ?thesis by (simp add: validate_plan_shape_def demo_plan_accepted)
qed

lemma demo_epoch: "apply_epoch (ml_new 1000000000) demo_plan d0074 = Inr demo_ledger"
proof -
  have "sp_epoch demo_plan = 0" "sp_duration_ms demo_plan = YEAR_MS" "sp_opening_circulating demo_plan = 1000000000"
    "sp_total_issued demo_plan = 20000494"
    by (simp_all add: demo_plan_def)
  moreover have "checked_add 0 (ucast YEAR_MS :: u128) = Some 31536000000" by (simp add: checked_add_def YEAR_MS_def)
  moreover have "amount_add 0 20000494 = Inr 20000494" by (simp add: amount_add_def checked_add_def)
  ultimately show ?thesis
    by (simp add: apply_epoch_def ml_new_def circulating_supply_def demo_shape YEAR_MS_nz demo_ledger_def)
qed

lemma demo_ledger_reach: "ledger_reach demo_ledger"
  by (rule ledger_reach.epoch [OF ledger_reach.genesis demo_epoch])

lemma demo_total: "total_supply demo_ledger = Inr 1020000494"
  by (simp add: total_supply_def demo_ledger_def amount_add_def checked_add_def)

section \<open>Properties\<close>

text \<open>Property (C35): proration is the exact floor of supply * rate * duration over the annual
  denominator of \<open>10^6\<close> parts and 365 days, for every duration. Cancelling common factors before
  multiplying never changes the quotient; when \<open>prorated\<close> answers, the answer is the mathematical
  floor, and it answers whenever the full product fits in 128 bits, where a duration of zero, which
  every caller refuses, counts as one: the supply times the rate is multiplied first.\<close>

theorem prorated_exact:
  "(prorated opening ppm duration = Inr n \<longrightarrow>
      unat n = unat opening * unat ppm * unat duration div (1000000 * (365 * 24 * 60 * 60 * 1000)))
    \<and> (unat opening * unat ppm * max 1 (unat duration) < 2 ^ 128 \<longrightarrow> is_ok (prorated opening ppm duration))"
proof (cases "duration = 0")
  case True
  then show ?thesis using prorated_zero [of "opening" ppm] by (auto simp: is_ok_iff)
next
  case False
  then have "max 1 (unat duration) = unat duration" by (simp add: unat_gt_0 Suc_le_eq)
  then show ?thesis
    using prorated_Inr [OF False] prorated_fits [OF False] unfolding share_def rate_denominator_def by (auto simp: is_ok_iff)
qed

theorem prorated_exact_witness:
  "prorated 1000000000 20000 YEAR_MS = Inr 20000000
     \<and> unat (20000000 :: u128) = unat (1000000000 :: u128) * unat (20000 :: u32) * unat YEAR_MS div (1000000 * (365 * 24 * 60 * 60 * 1000))
     \<and> unat (1000000000 :: u128) * unat (7500 :: u32) * max 1 (unat YEAR_MS) < 2 ^ 128 \<and> is_ok (prorated 1000000000 7500 YEAR_MS)
     \<and> is_ok (prorated 1000000000 7500 0)"
proof -
  have "unat (1000000000 :: u128) * unat (7500 :: u32) * max 1 (unat YEAR_MS) < 2 ^ 128"
    "unat (1000000000 :: u128) * unat (7500 :: u32) * max 1 (unat (0 :: u64)) < 2 ^ 128" by (simp_all add: YEAR_MS_def)
  then show ?thesis
    using prorated_exact [of 1000000000 20000 YEAR_MS 20000000] prorated_exact [of 1000000000 7500 YEAR_MS]
      prorated_exact [of 1000000000 7500 0] demo_rates(1) by blast
qed

text \<open>Property (C33): every accepted epoch plan stays within the policy. The total issued is at most
  the prorated total ceiling of the opening supply, the human channel gives every eligible human the
  same amount and leaves less than one unit per human unissued, the optional grants are exactly the
  service and treasury issuance, and no beneficiary is listed twice in a channel.\<close>

theorem epoch_plan_within_policy:
  assumes "plan_scalable_epoch req pol = Inr plan"
  shows "unat (sp_total_issued plan) = unat (hp_issued (sp_human plan)) + unat (sp_service_issued plan) + unat (sp_treasury_issued plan)
    \<and> unat (sp_total_issued plan) \<le> share (unat (sr_opening_circulating req)) (unat (ip_total_ceiling_ppm pol)) (unat (sr_duration_ms req))
    \<and> unat (hp_issued (sp_human plan)) = unat (hp_per_human (sp_human plan)) * unat (hs_eligible_count (sr_human_snapshot req))
    \<and> unat (hp_unissued_remainder (sp_human plan)) < unat (hs_eligible_count (sr_human_snapshot req))
    \<and> unat (sp_service_issued plan) + unat (sp_treasury_issued plan) = (\<Sum>g\<leftarrow>sp_optional_grants plan. unat (vg_amount g))
    \<and> distinct (map al_beneficiary (sr_service req)) \<and> distinct (map al_beneficiary (sr_treasury req))"
proof (rule plan_scalable_Inr [OF assms])
  fix human sc tc cap s t tot
  assume p: "plan_parts req pol human sc tc cap s t tot" "plan = plan_of req pol human sc tc cap s t tot"
  have v: "validate_allocations (sr_service req) sc = Inr s" "validate_allocations (sr_treasury req) tc = Inr t"
    and tot: "unat tot = unat (hp_issued human) + unat s + unat t"
    and h: "plan_human_share (sr_epoch req) (sr_duration_ms req) (sr_opening_circulating req) (sr_human_snapshot req) pol = Inr human"
    using p(1) by (simp_all add: plan_parts_def)
  show ?thesis
    using plan_parts_capped [OF p(1)] tot plan_human_share_Inr(3,5) [OF h]
      validate_allocations_Inr [OF v(1)] validate_allocations_Inr [OF v(2)]
    by (simp add: p(2) plan_of_def sum_map_grants word_le_nat_alt del: map_map)
qed

theorem epoch_plan_within_policy_witness:
  "plan_scalable_epoch demo_request d0074 = Inr demo_plan
     \<and> unat (hp_issued (sp_human demo_plan)) = unat (hp_per_human (sp_human demo_plan)) * unat (hs_eligible_count (sr_human_snapshot demo_request))"
  using epoch_plan_within_policy [OF demo_plan_accepted] demo_plan_accepted by blast

text \<open>Property (C34): the total-ceiling check of the planner is a safety net that never fires. A policy
  that validates keeps the three channel rates within the total rate, so channels within their own
  prorated caps can never add up to more than the prorated total cap, rounding included.\<close>

theorem total_ceiling_never_exceeded: "plan_scalable_epoch req pol \<noteq> Inl TotalExceeded"
proof
  assume "plan_scalable_epoch req pol = Inl TotalExceeded"
  then obtain human sc tc cap s t tot where p: "plan_parts req pol human sc tc cap s t tot" and "tot > cap"
    by (rule plan_scalable_total_exceeded)
  with plan_parts_capped(1) [OF p] show False by simp
qed

text \<open>Property (C36): vesting is total, exact and monotone. The split multiplication of \<open>vested_at\<close>
  never overflows, its result is the exact floor of amount * elapsed / duration, it never decreases
  as policy time passes and never exceeds the position's amount.\<close>

theorem vesting_total_exact_monotone:
  assumes "now \<le> now'"
  shows "\<exists>v v'. vested_at p now = Inr v \<and> vested_at p now' = Inr v' \<and> v \<le> v' \<and> v' \<le> vp_amount p
    \<and> unat v = (let elapsed = unat now - unat (vp_starts_at_policy_ms p); d = unat (vp_duration_ms p) in
        if d = 0 \<or> d \<le> elapsed then unat (vp_amount p) else unat (vp_amount p) * elapsed div d)"
proof -
  have "vested p (unat now) \<le> vested p (unat now')" using assms by (intro vested_mono) (simp add: word_le_nat_alt)
  then show ?thesis
    by (intro exI [of _ "of_nat (vested p (unat now))"] exI [of _ "of_nat (vested p (unat now'))"])
       (simp add: vested_at_exact word_le_nat_alt unat_vested vested_le, simp add: vested_def)
qed

theorem vesting_total_exact_monotone_witness:
  "(5 :: u128) \<le> 9 \<and> (\<exists>v v'. vested_at (human_position demo_plan 0) 5 = Inr v \<and> vested_at (human_position demo_plan 0) 9 = Inr v' \<and> v \<le> v')"
  using vesting_total_exact_monotone [of 5 9 "human_position demo_plan 0"] by auto

text \<open>Property (C19): the supply of a ledger reached from genesis through applied epochs always splits
  into circulating and locked. Whenever the total is representable, both accessors answer, they add
  up to the total, the total is genesis plus all vesting positions, and what circulates is genesis
  plus exactly what has vested by the current policy time.\<close>

theorem supply_accounting:
  assumes "ledger_reach L" "total_supply L = Inr t"
  shows "\<exists>c l. circulating_supply L = Inr c \<and> locked_supply L = Inr l \<and> unat c + unat l = unat t
    \<and> unat t = unat (ml_genesis_circulating L) + (\<Sum>p\<leftarrow>ml_positions L. unat (vp_amount p))
    \<and> unat c = unat (ml_genesis_circulating L) + (\<Sum>p\<leftarrow>ml_positions L. vested p (unat (ml_policy_time_ms L)))"
  using supply_split [OF ledger_reach_ok [OF assms(1)] assms(2)] ledger_reach_ok [OF assms(1)] assms(2)
  by (auto simp: total_supply_def ledger_ok_def)

theorem supply_accounting_witness:
  "ledger_reach demo_ledger \<and> total_supply demo_ledger = Inr 1020000494
     \<and> (\<exists>c l. circulating_supply demo_ledger = Inr c \<and> locked_supply demo_ledger = Inr l \<and> unat c + unat l = 1020000494)"
  using supply_accounting [OF demo_ledger_reach demo_total] demo_ledger_reach demo_total by auto

text \<open>Property (C32): applying an epoch issues at most the policy's prorated ceiling of the supply that
  circulated before it, advances the epoch number by exactly one and policy time by the epoch's
  duration, leaves genesis and every earlier position untouched, and never issues more than
  circulates.\<close>

theorem epoch_issuance_bounded:
  assumes "ledger_reach L" "apply_epoch L plan policy = Inr L'"
  shows "\<exists>c ps. circulating_supply L = Inr c
    \<and> unat (ml_total_issued L') \<le> unat (ml_total_issued L)
        + share (unat c) (unat (ip_total_ceiling_ppm policy)) (unat (sp_duration_ms plan))
    \<and> unat (ml_total_issued L') \<le> unat (ml_total_issued L) + unat c
    \<and> unat (ml_policy_time_ms L') = unat (ml_policy_time_ms L) + unat (sp_duration_ms plan)
    \<and> (case ml_last_epoch L of None \<Rightarrow> ml_last_epoch L' = Some 0
       | Some e \<Rightarrow> ml_last_epoch L' = Some (e + 1) \<and> e < e + 1)
    \<and> ml_genesis_circulating L' = ml_genesis_circulating L \<and> ml_positions L' = ml_positions L @ ps
    \<and> (\<Sum>p\<leftarrow>ps. unat (vp_amount p)) = unat (sp_total_issued plan)"
proof (rule apply_epoch_Inr [OF assms(2)])
  assume v: "validate_plan_shape plan policy = Inr ()" and c: "circulating_supply L = Inr (sp_opening_circulating plan)"
    and time: "unat (ml_policy_time_ms L') = unat (ml_policy_time_ms L) + unat (sp_duration_ms plan)"
    and issued: "unat (ml_total_issued L') = unat (ml_total_issued L) + unat (sp_total_issued plan)"
    and last: "ml_last_epoch L' = Some (sp_epoch plan)" and gen: "ml_genesis_circulating L' = ml_genesis_circulating L"
    and pos: "ml_positions L' = ml_positions L @ [human_position plan (ml_policy_time_ms L')]
       @ map (grant_position plan (ml_policy_time_ms L')) (sp_optional_grants plan)"
    and num: "case ml_last_epoch L of None \<Rightarrow> sp_epoch plan = 0 | Some e \<Rightarrow> unat (sp_epoch plan) = unat e + 1"
  from validate_plan_shape_Inr [OF v] obtain req where req: "plan_scalable_epoch req policy = Inr plan"
    "sr_duration_ms req = sp_duration_ms plan" "sr_opening_circulating req = sp_opening_circulating plan" by metis
  note b = plan_issued_bounds [OF req(1)]
  have "case ml_last_epoch L of None \<Rightarrow> ml_last_epoch L' = Some 0 | Some e \<Rightarrow> ml_last_epoch L' = Some (e + 1) \<and> e < e + 1"
    using num last by (auto split: option.splits simp: epoch_successor)
  moreover have "(\<Sum>p\<leftarrow>[human_position plan (ml_policy_time_ms L')] @ map (grant_position plan (ml_policy_time_ms L')) (sp_optional_grants plan). unat (vp_amount p))
      = unat (sp_total_issued plan)" using plan_position_total [OF req(1), of "ml_policy_time_ms L'"] by simp
  ultimately show ?thesis using b req c time issued gen pos
    by (intro exI [of _ "sp_opening_circulating plan"]
        exI [of _ "[human_position plan (ml_policy_time_ms L')] @ map (grant_position plan (ml_policy_time_ms L')) (sp_optional_grants plan)"]) simp
qed

theorem epoch_issuance_bounded_witness:
  "ledger_reach (ml_new 1000000000) \<and> apply_epoch (ml_new 1000000000) demo_plan d0074 = Inr demo_ledger
     \<and> (\<exists>c. circulating_supply (ml_new 1000000000) = Inr c
          \<and> unat (ml_total_issued demo_ledger) \<le> unat (ml_total_issued (ml_new 1000000000)) + unat c)"
  using epoch_issuance_bounded [OF ledger_reach.genesis demo_epoch] ledger_reach.genesis [of 1000000000] demo_epoch by blast

text \<open>The snapshot importer accepts exactly the exports of well-formed ledgers. A
  snapshot is accepted as the ledger \<open>L\<close> if and only if it is the export of \<open>L\<close>, every position of
  \<open>L\<close> is consistent with its clock, its epochs and its issued total, it fits the snapshot limits
  and its total supply is representable. Export followed by import is therefore the identity on
  those ledgers, and no accepted snapshot carries an inconsistent ledger.\<close>

lemma snapshot_accepts_exactly_well_formed:
  "import_snapshot s = Inr L \<longleftrightarrow>
     s = export_snapshot L \<and> ledger_ok L \<and> snapshot_sized L \<and> is_ok (total_supply L)"
proof
  obtain K where K: "s = export_snapshot K" using snapshot_surj by blast
  assume "import_snapshot s = Inr L"
  then show "s = export_snapshot L \<and> ledger_ok L \<and> snapshot_sized L \<and> is_ok (total_supply L)"
    using import_export_sound [of K L] unfolding K by blast
next
  assume "s = export_snapshot L \<and> ledger_ok L \<and> snapshot_sized L \<and> is_ok (total_supply L)"
  then show "import_snapshot s = Inr L" using import_export_ok by blast
qed

end
