(* ===== verification/ExecutionProps.thy ===== *)
theory ExecutionProps
  imports Execution EconomyProps "HOL-Library.Sublist"
begin

text \<open>
  What the execution layer guarantees: transparent claims refine an abstract account ledger and
  can never make a block fail; money is neither created nor lost by any block; a slot and a key
  image are won at most once; and two chains that both follow verified certificates agree.
\<close>

section \<open>Transfers\<close>

lemma bt_total_two:
  assumes "bt_wf m" "map_of m a = Some x" "map_of m b = Some y" "a \<noteq> b"
  shows "f x + f y \<le> bt_total f m"
proof -
  have "bt_total f (bt_remove a m) + f x = bt_total f m"
    using bt_total_remove [OF assms(1), of f a] assms(2) by simp
  moreover have "f y \<le> bt_total f (bt_remove a m)"
    using assms(3,4) by (intro bt_total_ge [of _ b]) simp
  ultimately show ?thesis by simp
qed

definition bal :: "(bytes, Amount) btree \<Rightarrow> bytes \<Rightarrow> nat" where
  "bal m a = val_or0 unat (map_of m a)"

lemma unat_balance: "unat (balance s a) = bal (ls_balances s) a"
  by (cases "map_of (ls_balances s) a") (simp_all add: balance_def bal_def)

lemma bal_two:
  assumes "bt_wf m" "a \<noteq> b"
  shows "bal m a + bal m b \<le> bt_total unat m"
  using assms bt_total_two [OF assms(1) _ _ assms(2), of _ _ unat] bt_total_ge [of m a _ unat] bt_total_ge [of m b _ unat]
  by (auto simp: bal_def val_or0_def split: option.split)

text \<open>The balances after a payment between two different accounts, by the words written.\<close>

definition paid :: "bytes \<Rightarrow> bytes \<Rightarrow> u128 \<Rightarrow> u128 \<Rightarrow> (bytes, Amount) btree \<Rightarrow> (bytes, Amount) btree" where
  "paid payer payee debited credited m =
     bt_insert payee credited (if debited = 0 then bt_remove payer m else bt_insert payer debited m)"

lemma bal_insert: "bal (bt_insert k v m) a = (if a = k then unat v else bal m a)"
  by (simp add: bal_def)

lemma bal_remove: "bal (bt_remove k m) a = (if a = k then 0 else bal m a)"
  by (simp add: bal_def)

lemma paid_facts:
  assumes wf: "bt_wf m" and p: "payer \<noteq> payee"
    and w: "unat d + x = bal m payer" "unat c = bal m payee + x"
  shows "bt_wf (paid payer payee d c m)"
    "bt_total unat (paid payer payee d c m) = bt_total unat m"
    "bal (paid payer payee d c m) = (bal m)(payer := bal m payer - x, payee := bal m payee + x)"
proof -
  define n where "n = (if d = 0 then bt_remove payer m else bt_insert payer d m)"
  have nwf: "bt_wf n" using wf by (simp add: n_def)
  then show "bt_wf (paid payer payee d c m)" by (simp add: paid_def n_def)
  have nb: "bal n a = (if a = payer then unat d else bal m a)" for a
    by (simp add: n_def bal_insert bal_remove)
  have nt: "bt_total unat n + bal m payer = bt_total unat m + unat d"
    using bt_total_remove [OF wf, of unat payer] bt_total_insert [OF wf, of unat payer d]
    by (simp add: n_def bal_def)
  have "bt_total unat (bt_insert payee c n) + bal n payee = bt_total unat n + unat c"
    using bt_total_insert [OF nwf, of unat payee c] by (simp add: bal_def)
  with nt nb [of payee] p w show "bt_total unat (paid payer payee d c m) = bt_total unat m"
    by (simp add: paid_def n_def [symmetric])
  show "bal (paid payer payee d c m) = (bal m)(payer := bal m payer - x, payee := bal m payee + x)"
    using nb w by (auto simp: paid_def n_def [symmetric] fun_eq_iff bal_insert)
qed

lemma paid_entries:
  assumes "(a, b) \<in> set (paid payer payee d c m)" "bt_wf m" "payer \<noteq> payee"
  shows "a = payee \<and> b = c \<or> a = payer \<and> b = d \<and> d \<noteq> 0 \<or> (a, b) \<in> set m"
proof -
  have "bt_wf (paid payer payee d c m)" using assms(2) by (simp add: paid_def)
  then have "map_of (paid payer payee d c m) a = Some b"
    using assms(1) bt_wf_distinct by (intro map_of_is_SomeI) auto
  then show ?thesis
    by (auto simp: paid_def dest: map_of_SomeD split: if_splits)
qed

section \<open>Claims refine an account ledger\<close>

text \<open>
  The abstract ledger: what is final and what was refused per payer and digest, and a balance per
  account, as plain functions. One claim is judged in the order of the rules below; only a paid
  claim moves the mark and the money.
\<close>

record account_ledger =
  ac_mark :: "bytes \<Rightarrow> (u64 \<times> bytes) option"
  ac_refused :: "bytes \<Rightarrow> CanonicalRejection option"
  ac_bal :: "bytes \<Rightarrow> nat"

datatype verdict = Ignored | Refused CanonicalRejection | Paid

definition stale :: "account_ledger \<Rightarrow> PaymentClaim \<Rightarrow> bool" where
  "stale A c = (case ac_mark A (pc_payer c) of None \<Rightarrow> False | Some (n, _) \<Rightarrow> pc_sequence c \<le> n)"

definition short_of_funds :: "account_ledger \<Rightarrow> PaymentClaim \<Rightarrow> bool" where
  "short_of_funds A c = (ac_bal A (pc_payer c) < unat (pc_amount_micro c))"

definition judge :: "crypto \<Rightarrow> bytes \<Rightarrow> account_ledger \<Rightarrow> PaymentClaim \<Rightarrow> verdict" where
  "judge C network A c =
     (if verify_claim_signature C c \<noteq> Inr () then Ignored
      else if pc_network_id c \<noteq> network then Refused WrongNetwork
      else if \<not> is_supported_account C (pc_payee c) then Refused UnsupportedPayee
      else if stale A c then Refused StaleSequence
      else if short_of_funds A c then Refused InsufficientFunds
      else Paid)"

definition settle :: "crypto \<Rightarrow> bytes \<Rightarrow> PaymentClaim \<Rightarrow> account_ledger \<Rightarrow> account_ledger" where
  "settle C network c A =
     (case judge C network A c of
        Ignored \<Rightarrow> A
      | Refused reason \<Rightarrow> A\<lparr>ac_refused := (ac_refused A)(claim_digest C c \<mapsto> reason)\<rparr>
      | Paid \<Rightarrow>
          let debit = (ac_bal A)(pc_payer c := ac_bal A (pc_payer c) - unat (pc_amount_micro c)) in
          \<lparr>ac_mark = (ac_mark A)(pc_payer c \<mapsto> (pc_sequence c, claim_digest C c)),
           ac_refused = (ac_refused A)(claim_digest C c := None),
           ac_bal = debit(pc_payee c := debit (pc_payee c) + unat (pc_amount_micro c))\<rparr>)"

definition accounts :: "LedgerState \<Rightarrow> account_ledger" where
  "accounts s = \<lparr>ac_mark = map_of (ls_finalized s), ac_refused = map_of (ls_rejected s), ac_bal = bal (ls_balances s)\<rparr>"

text \<open>The part of a state that claims never touch.\<close>

definition same_rest :: "LedgerState \<Rightarrow> LedgerState \<Rightarrow> bool" where
  "same_rest s s' = (s' = s\<lparr>ls_balances := ls_balances s', ls_finalized := ls_finalized s', ls_rejected := ls_rejected s'\<rparr>)"

lemma same_rest_refl [simp]: "same_rest s s"
  by (simp add: same_rest_def)

lemma same_restD:
  assumes "same_rest s s'"
  shows "ls_network_id s' = ls_network_id s" "ls_nullifiers s' = ls_nullifiers s" "ls_monetary s' = ls_monetary s"
    "ls_shielded s' = ls_shielded s" "ls_allocated_circulating s' = ls_allocated_circulating s"
    "ls_unallocated_circulating s' = ls_unallocated_circulating s"
  using assms by (cases s'; simp add: same_rest_def)+

lemma same_rest_trans: "same_rest s t \<Longrightarrow> same_rest t u \<Longrightarrow> same_rest s u"
  by (cases s; cases t; cases u) (simp add: same_rest_def)

lemma verify_unit: "is_ok (verify_claim_signature C c) \<longleftrightarrow> verify_claim_signature C c = Inr ()"
  by (auto simp: is_ok_iff)

lemma wins_iff:
  "(case finalized_sequence (state_view s) (pc_payer c) of None \<Rightarrow> True | Some e \<Rightarrow> pc_sequence c > e)
     \<longleftrightarrow> \<not> stale (accounts s) c"
  by (auto simp: state_view_def accounts_def stale_def not_le split: option.split)

lemma short_iff:
  "balance s (pc_payer c) < ucast (pc_amount_micro c) \<longleftrightarrow> short_of_funds (accounts s) c"
  by (simp add: word_less_nat_alt unat_balance accounts_def short_of_funds_def)

lemma one_claim_ignored: "judge C (ls_network_id s) (accounts s) c = Ignored \<Longrightarrow> apply_one_claim C s c = Inr s"
  by (auto simp: judge_def apply_one_claim_def verify_unit split: if_splits)

lemma one_claim_refused:
  "judge C (ls_network_id s) (accounts s) c = Refused r
    \<Longrightarrow> apply_one_claim C s c = Inr (reject_claim s (claim_digest C c) r)"
  unfolding judge_def apply_one_claim_def verify_unit wins_iff short_iff Let_def
  by (simp split: if_splits)

lemma one_claim_paid:
  assumes j: "judge C (ls_network_id s) (accounts s) c = Paid"
    and wf: "bt_wf (ls_balances s)" "bt_total unat (ls_balances s) < 2 ^ 128"
  shows "\<exists>m. apply_one_claim C s c = Inr (s\<lparr>ls_balances := m,
      ls_rejected := bt_remove (claim_digest C c) (ls_rejected s),
      ls_finalized := bt_insert (pc_payer c) (pc_sequence c, claim_digest C c) (ls_finalized s)\<rparr>)
    \<and> bt_wf m \<and> bt_total unat m = bt_total unat (ls_balances s)
    \<and> bal m = ac_bal (settle C (ls_network_id s) c (accounts s))
    \<and> (\<forall>(a, b) \<in> set m. (a, b) \<in> set (ls_balances s)
         \<or> b \<noteq> 0 \<and> (a = pc_payee c \<or> a \<in> fst ` set (ls_balances s)))"
proof -
  let ?m = "ls_balances s" and ?x = "unat (pc_amount_micro c)"
  have amt: "pc_amount_micro c \<noteq> 0" and enough: "?x \<le> bal ?m (pc_payer c)"
    using j by (auto simp: judge_def verify_claim_signature_def accounts_def short_of_funds_def split: if_splits)
  have red: "apply_one_claim C s c =
      andThen (if pc_payer c \<noteq> pc_payee c then
             andThen (map_err (\<lambda>_. SupplyConservationViolation) (amount_sub (balance s (pc_payer c)) (ucast (pc_amount_micro c)))) (\<lambda>debited.
             andThen (map_err (\<lambda>_. AmountOverflow) (amount_add (balance s (pc_payee c)) (ucast (pc_amount_micro c)))) (\<lambda>credited.
               Inr (s\<lparr>ls_balances := paid (pc_payer c) (pc_payee c) debited credited ?m\<rparr>)))
           else Inr s) (\<lambda>s.
        Inr (s\<lparr>ls_rejected := bt_remove (claim_digest C c) (ls_rejected s),
               ls_finalized := bt_insert (pc_payer c) (pc_sequence c, claim_digest C c) (ls_finalized s)\<rparr>))"
    using j unfolding judge_def apply_one_claim_def verify_unit wins_iff short_iff Let_def paid_def
    by (simp split: if_splits)
  show ?thesis
  proof (cases "pc_payer c = pc_payee c")
    case True
    then have "ac_bal (settle C (ls_network_id s) c (accounts s)) = bal ?m"
      using j enough by (auto simp: settle_def accounts_def Let_def fun_eq_iff)
    with True wf show ?thesis by (intro exI [of _ ?m]) (auto simp: red)
  next
    case False
    let ?d = "balance s (pc_payer c) - ucast (pc_amount_micro c)" and ?c = "balance s (pc_payee c) + ucast (pc_amount_micro c)"
    have le: "ucast (pc_amount_micro c) \<le> balance s (pc_payer c)"
      using enough by (simp add: word_le_nat_alt unat_balance)
    have fits: "unat (balance s (pc_payee c)) + ?x < 2 ^ 128"
      using bal_two [OF wf(1) False] enough wf(2) by (simp add: unat_balance)
    have sub: "amount_sub (balance s (pc_payer c)) (ucast (pc_amount_micro c)) = Inr ?d"
      and add: "amount_add (balance s (pc_payee c)) (ucast (pc_amount_micro c)) = Inr ?c"
      using le fits by (simp_all add: amount_sub_def checked_sub_def amount_add_def checked_add_def)
    have w: "unat ?d + ?x = bal ?m (pc_payer c)" "unat ?c = bal ?m (pc_payee c) + ?x"
      using sub add unfolding amount_sub_Inr amount_add_Inr unat_balance unat_widen by simp_all
    let ?p = "paid (pc_payer c) (pc_payee c) ?d ?c ?m"
    have "bal ?p = ac_bal (settle C (ls_network_id s) c (accounts s))"
      using j False paid_facts(3) [OF wf(1) False w] by (simp add: settle_def accounts_def Let_def)
    moreover have "(a, b) \<in> set ?m \<or> b \<noteq> 0 \<and> (a = pc_payee c \<or> a \<in> fst ` set ?m)" if "(a, b) \<in> set ?p" for a b
    proof -
      have "?c \<noteq> 0" using w(2) amt by (metis add_eq_0_iff_both_eq_0 unat_0 unat_eq_0)
      moreover have "pc_payer c \<in> fst ` set ?m"
        using enough amt by (cases "map_of ?m (pc_payer c)") (auto simp: bal_def unat_eq_0 dest: map_of_SomeD intro: rev_image_eqI)
      ultimately show ?thesis using paid_entries [OF that wf(1) False] by auto
    qed
    ultimately show ?thesis
      using False paid_facts(1,2) [OF wf(1) False w] by (intro exI [of _ ?p]) (auto simp: red sub add)
  qed
qed

lemma accounts_refused:
  "accounts (reject_claim s d r) = (accounts s)\<lparr>ac_refused := (ac_refused (accounts s))(d \<mapsto> r)\<rparr>"
  by (simp add: accounts_def reject_claim_def)

text \<open>What every operation keeps of the maps that claims write.\<close>

definition accounts_wf :: "crypto \<Rightarrow> LedgerState \<Rightarrow> bool" where
  "accounts_wf C s =
     (bt_wf (ls_finalized s) \<and> bt_wf (ls_rejected s) \<and> bt_wf (ls_balances s)
      \<and> bt_total unat (ls_balances s) = unat (ls_allocated_circulating s)
      \<and> (\<forall>(a, b) \<in> set (ls_balances s). is_supported_account C a \<and> b \<noteq> 0)
      \<and> (\<forall>(p, n, d) \<in> set (ls_finalized s). is_supported_account C p \<and> length d = 32)
      \<and> (\<forall>(d, r) \<in> set (ls_rejected s). length d = 32))"

lemma accounts_wf_total: "accounts_wf C s \<Longrightarrow> bt_total unat (ls_balances s) < 2 ^ 128"
  using unsigned_less [of "ls_allocated_circulating s", where ?'a = nat] by (simp add: accounts_wf_def)

lemma set_bt_insert: "set (bt_insert k v m) \<subseteq> insert (k, v) (set m)"
  by (induction m) (auto split: if_splits)

lemma set_bt_remove: "set (bt_remove k m) \<subseteq> set m"
  by (auto simp: bt_remove_def)

lemma verified_payer_supported:
  "verify_claim_signature C c = Inr () \<Longrightarrow> is_supported_account C (pc_payer c)"
  by (auto simp: verify_claim_signature_def is_supported_account_def MAX_ACCOUNT_BYTES_def vk_from_suite_bytes_def
      DEFAULT_SUITE_def)

lemma judge_PaidD:
  "judge C network A c = Paid \<Longrightarrow> verify_claim_signature C c = Inr () \<and> is_supported_account C (pc_payee c)"
  by (simp add: judge_def split: if_splits)

lemma one_claim:
  assumes C: "digests_ok C" and wf: "accounts_wf C s"
  shows "\<exists>s'. apply_one_claim C s c = Inr s' \<and> accounts_wf C s' \<and> same_rest s s'
    \<and> accounts s' = settle C (ls_network_id s) c (accounts s)"
proof (cases "judge C (ls_network_id s) (accounts s) c")
  case Ignored
  with wf show ?thesis by (simp add: one_claim_ignored settle_def)
next
  case (Refused r)
  have "set (bt_insert (claim_digest C c) r (ls_rejected s)) \<subseteq> insert (claim_digest C c, r) (set (ls_rejected s))"
    by (rule set_bt_insert)
  then have "accounts_wf C (reject_claim s (claim_digest C c) r)"
    using wf C unfolding accounts_wf_def reject_claim_def by (auto simp: claim_digest_def)
  then show ?thesis
    using Refused by (simp add: one_claim_refused settle_def accounts_refused) (simp add: same_rest_def reject_claim_def)
next
  case Paid
  from one_claim_paid [OF this _ accounts_wf_total [OF wf]] wf obtain m where m:
    "apply_one_claim C s c = Inr (s\<lparr>ls_balances := m,
      ls_rejected := bt_remove (claim_digest C c) (ls_rejected s),
      ls_finalized := bt_insert (pc_payer c) (pc_sequence c, claim_digest C c) (ls_finalized s)\<rparr>)"
    "bt_wf m" "bt_total unat m = bt_total unat (ls_balances s)"
    "bal m = ac_bal (settle C (ls_network_id s) c (accounts s))"
    and e: "\<forall>(a, b) \<in> set m. (a, b) \<in> set (ls_balances s)
         \<or> b \<noteq> 0 \<and> (a = pc_payee c \<or> a \<in> fst ` set (ls_balances s))"
    unfolding accounts_wf_def by blast
  note v = judge_PaidD [OF Paid]
  let ?s = "s\<lparr>ls_balances := m, ls_rejected := bt_remove (claim_digest C c) (ls_rejected s),
      ls_finalized := bt_insert (pc_payer c) (pc_sequence c, claim_digest C c) (ls_finalized s)\<rparr>"
  have "set (bt_insert (pc_payer c) (pc_sequence c, claim_digest C c) (ls_finalized s))
      \<subseteq> insert (pc_payer c, pc_sequence c, claim_digest C c) (set (ls_finalized s))" by (rule set_bt_insert)
  then have f: "\<forall>(p, n, d) \<in> set (ls_finalized ?s). is_supported_account C p \<and> length d = 32"
    using wf v C verified_payer_supported [of C c] by (auto simp: accounts_wf_def claim_digest_def)
  have b: "\<forall>(a, b) \<in> set (ls_balances ?s). is_supported_account C a \<and> b \<noteq> 0"
    using wf e v by (fastforce simp: accounts_wf_def)
  have "accounts_wf C ?s" using wf f b m(2,3) set_bt_remove [of "claim_digest C c" "ls_rejected s"]
    by (auto simp: accounts_wf_def)
  moreover have "accounts ?s = settle C (ls_network_id s) c (accounts s)"
    using m(4) Paid by (simp add: accounts_def settle_def Let_def)
  moreover have "same_rest s ?s" by (simp add: same_rest_def)
  ultimately show ?thesis using m(1) by blast
qed

lemma claims_same_rest: "apply_claims C s cs = Inr s' \<Longrightarrow> same_rest s s'"
proof (induction cs arbitrary: s)
  case (Cons c cs)
  then obtain t where t: "apply_one_claim C s c = Inr t" "apply_claims C t cs = Inr s'" by auto
  have "same_rest s t" using t(1) unfolding apply_one_claim_def Let_def
    by (auto simp: same_rest_def reject_claim_def split: if_splits)
  then show ?case by (rule same_rest_trans) (rule Cons.IH [OF t(2)])
qed simp

lemma all_claims:
  assumes C: "digests_ok C" and wf: "accounts_wf C s"
  shows "\<exists>s'. apply_claims C s cs = Inr s' \<and> accounts_wf C s' \<and> same_rest s s'
    \<and> accounts s' = fold (settle C (ls_network_id s)) cs (accounts s)"
  using wf
proof (induction cs arbitrary: s)
  case (Cons c cs)
  from one_claim [OF C Cons.prems, of c] obtain t where t: "apply_one_claim C s c = Inr t" "accounts_wf C t"
    "same_rest s t" "accounts t = settle C (ls_network_id s) c (accounts s)" by blast
  from Cons.IH [OF t(2)] t same_rest_trans [OF t(3)] same_restD(1) [OF t(3)] show ?case by force
qed simp

section \<open>The shielded ledger\<close>

definition genesis_key :: "ShieldedGenesisAllocation \<Rightarrow> bytes" where
  "genesis_key a = so_public_key (sg_output a)"

definition shielded_wf :: "ShieldedLedger \<Rightarrow> bool" where
  "shielded_wf sl =
     (bt_wf (sl_outputs sl) \<and> (\<forall>(k, v) \<in> set (sl_outputs sl). length k = 32 \<and> length v = 32)
      \<and> distinct (sl_applied sl) \<and> (\<forall>d \<in> set (sl_applied sl). length d = 32)
      \<and> list_all (\<lambda>a. so_well_formed (sg_output a)) (sl_genesis sl) \<and> distinct (map genesis_key (sl_genesis sl))
      \<and> length (sl_outputs sl) \<le> MAX_OUTPUTS \<and> length (sl_applied sl) \<le> MAX_OUTPUTS
      \<and> length (sl_genesis sl) \<le> MAX_OUTPUTS)"

lemma shielded_wf_default [simp]: "shielded_wf sl_default"
  by (simp add: shielded_wf_def sl_default_def)

lemma new_outputs_wf: "new_outputs_ok outs ks ss \<Longrightarrow> list_all so_well_formed ss"
  by (induction outs ks ss rule: new_outputs_ok.induct) (auto split: if_splits)

definition put_output :: "ShieldedOutput \<Rightarrow> (bytes, bytes) btree \<Rightarrow> (bytes, bytes) btree" where
  "put_output s m = bt_insert (so_public_key s) (so_amount_commitment s) m"

lemma put_outputs:
  assumes "list_all so_well_formed ss" "bt_wf m" "\<forall>(k, v) \<in> set m. length k = 32 \<and> length v = 32"
  shows "bt_wf (fold put_output ss m)
    \<and> (\<forall>(k, v) \<in> set (fold put_output ss m). length k = 32 \<and> length v = 32)
    \<and> length (fold put_output ss m) \<le> length m + length ss"
  using assms
proof (induction ss arbitrary: m)
  case (Cons s ss)
  have "set (put_output s m) \<subseteq> insert (so_public_key s, so_amount_commitment s) (set m)"
    unfolding put_output_def by (rule set_bt_insert)
  then have "\<forall>(k, v) \<in> set (put_output s m). length k = 32 \<and> length v = 32"
    using Cons.prems by (auto simp: so_well_formed_def)
  moreover have "bt_wf (put_output s m)" using Cons.prems by (simp add: put_output_def)
  ultimately have "bt_wf (fold put_output ss (put_output s m))
      \<and> (\<forall>(k, v) \<in> set (fold put_output ss (put_output s m)). length k = 32 \<and> length v = 32)
      \<and> length (fold put_output ss (put_output s m)) \<le> length (put_output s m) + length ss"
    using Cons.prems by (intro Cons.IH) simp_all
  moreover have "length (put_output s m) \<le> Suc (length m)" unfolding put_output_def by (rule length_bt_insert)
  ultimately show ?case by auto
qed simp

lemma sl_apply_Inr:
  assumes "sl_apply sl digest effects = Inr (fee, sl')"
  shows "(digest \<in> set (sl_applied sl) \<and> fee = 0 \<and> sl' = sl)
    \<or> (digest \<notin> set (sl_applied sl) \<and> fee = sc_fee_micro effects \<and> new_outputs_ok (sl_outputs sl) [] (sc_outputs effects)
       \<and> length (sl_outputs sl) + length (sc_outputs effects) \<le> MAX_OUTPUTS \<and> length (sl_applied sl) < MAX_OUTPUTS
       \<and> unat (sl_pool_micro sl') + unat fee = unat (sl_pool_micro sl)
       \<and> sl' = sl\<lparr>sl_pool_micro := sl_pool_micro sl', sl_outputs := fold put_output (sc_outputs effects) (sl_outputs sl),
                 sl_applied := sl_applied sl @ [digest]\<rparr>)"
  using assms unfolding sl_apply_def
  by (auto simp: checked_sub_Some put_output_def [abs_def] not_le not_less split: if_splits)

lemma sl_apply_wf:
  assumes "sl_apply sl digest effects = Inr (fee, sl')" "shielded_wf sl" "length digest = 32"
  shows "shielded_wf sl'" "unat (sl_pool_micro sl') + unat fee = unat (sl_pool_micro sl)"
proof -
  consider "fee = 0" "sl' = sl"
    | "digest \<notin> set (sl_applied sl)" "new_outputs_ok (sl_outputs sl) [] (sc_outputs effects)"
       "length (sl_outputs sl) + length (sc_outputs effects) \<le> MAX_OUTPUTS" "length (sl_applied sl) < MAX_OUTPUTS"
       "unat (sl_pool_micro sl') + unat fee = unat (sl_pool_micro sl)"
       "sl' = sl\<lparr>sl_pool_micro := sl_pool_micro sl', sl_outputs := fold put_output (sc_outputs effects) (sl_outputs sl),
                 sl_applied := sl_applied sl @ [digest]\<rparr>"
    using sl_apply_Inr [OF assms(1)] by blast
  then have "shielded_wf sl' \<and> unat (sl_pool_micro sl') + unat fee = unat (sl_pool_micro sl)"
  proof cases
    case 2
    have p: "bt_wf (fold put_output (sc_outputs effects) (sl_outputs sl))"
      "\<forall>(k, v) \<in> set (fold put_output (sc_outputs effects) (sl_outputs sl)). length k = 32 \<and> length v = 32"
      "length (fold put_output (sc_outputs effects) (sl_outputs sl)) \<le> length (sl_outputs sl) + length (sc_outputs effects)"
      using put_outputs [OF new_outputs_wf [OF 2(2)], of "sl_outputs sl"] assms(2) unfolding shielded_wf_def by blast+
    then have "shielded_wf (sl\<lparr>sl_pool_micro := sl_pool_micro sl',
        sl_outputs := fold put_output (sc_outputs effects) (sl_outputs sl), sl_applied := sl_applied sl @ [digest]\<rparr>)"
      using assms(2,3) 2(1,3,4) by (simp add: shielded_wf_def)
    then show ?thesis using 2(5,6) by metis
  qed (use assms(2) in simp)
  then show "shielded_wf sl'" "unat (sl_pool_micro sl') + unat fee = unat (sl_pool_micro sl)" by blast+
qed

lemma sl_genesis_loop_wf:
  assumes "sl_genesis_loop network verifier sl as = Inr sl'" "shielded_wf sl"
    "length (sl_outputs sl) + length as \<le> MAX_OUTPUTS"
  shows "shielded_wf sl' \<and> list_all (\<lambda>a. so_well_formed (sg_output a)) as \<and> distinct (map genesis_key as)
    \<and> genesis_key ` set as \<inter> fst ` set (sl_outputs sl) = {}"
  using assms
proof (induction as arbitrary: sl)
  case (Cons a as)
  from Cons.prems(1) obtain pool where a: "so_well_formed (sg_output a)"
    "sl_genesis_loop network verifier (sl\<lparr>sl_outputs := put_output (sg_output a) (sl_outputs sl), sl_pool_micro := pool\<rparr>) as = Inr sl'"
    and new: "genesis_key a \<notin> fst ` set (sl_outputs sl)"
    by (auto simp: put_output_def genesis_key_def map_of_eq_None_iff split: if_splits)
  have p: "bt_wf (put_output (sg_output a) (sl_outputs sl))"
      "\<forall>(k, v) \<in> set (put_output (sg_output a) (sl_outputs sl)). length k = 32 \<and> length v = 32"
      "length (put_output (sg_output a) (sl_outputs sl)) \<le> Suc (length (sl_outputs sl))"
    using put_outputs [of "[sg_output a]" "sl_outputs sl"] a(1) Cons.prems(2) by (simp_all add: shielded_wf_def)
  then have "shielded_wf (sl\<lparr>sl_outputs := put_output (sg_output a) (sl_outputs sl), sl_pool_micro := pool\<rparr>)"
    using Cons.prems(2,3) by (simp add: shielded_wf_def)
  from Cons.IH [OF a(2) this] p(3) Cons.prems(3) a(1) new show ?case
    by (auto simp: put_output_def fst_set_bt_insert genesis_key_def)
qed simp

lemma sl_from_genesis_wf:
  assumes "sl_from_genesis network as verifier = Inr sl"
  shows "shielded_wf sl"
proof -
  let ?as = "sort_key (\<lambda>a. (so_public_key (sg_output a), so_amount_commitment (sg_output a))) as"
  from assms obtain sl0 where l: "length as \<le> MAX_OUTPUTS"
    and s: "sl_genesis_loop network verifier sl_default ?as = Inr sl0" "sl = sl0\<lparr>sl_genesis := ?as\<rparr>"
    by (auto simp: sl_from_genesis_def Let_def split: if_splits)
  have "shielded_wf sl0 \<and> list_all (\<lambda>a. so_well_formed (sg_output a)) ?as \<and> distinct (map genesis_key ?as)"
    using sl_genesis_loop_wf [OF s(1) shielded_wf_default] l by (simp add: sl_default_def)
  then show ?thesis using l by (simp add: s(2) shielded_wf_def)
qed

section \<open>Nullifiers\<close>

definition grouped :: "NullifierRecord list \<Rightarrow> bytes list \<Rightarrow> (bytes, NullifierRecord list) btree \<Rightarrow> bool" where
  "grouped rs order groups =
     (set order = nr_claim_digest ` set rs
      \<and> (\<forall>d. map_of groups d = (let g = filter (\<lambda>r. nr_claim_digest r = d) rs in if g = [] then None else Some g)))"

lemma grouped_Nil [simp]: "grouped [] [] []"
  by (simp add: grouped_def)

lemma group_records_grouped:
  assumes "group_records order groups rs = Inr (order', groups')" "grouped pre order groups"
  shows "grouped (pre @ rs) order' groups' \<and> list_all nr_is_well_formed rs"
  using assms
proof (induction rs arbitrary: pre order groups)
  case (Cons r rs)
  let ?d = "nr_claim_digest r"
  let ?o = "if map_of groups ?d = None then order @ [?d] else order"
  have r: "nr_is_well_formed r" using Cons.prems(1) by (auto split: if_splits)
  then have g: "group_records ?o (push_group ?d r groups) rs = Inr (order', groups')" using Cons.prems(1) by simp
  have m: "map_of groups d = (let g = filter (\<lambda>r. nr_claim_digest r = d) pre in if g = [] then None else Some g)" for d
    using Cons.prems(2) by (simp add: grouped_def)
  have "?d \<in> nr_claim_digest ` set pre" if "map_of groups ?d \<noteq> None"
    using that m [of ?d] by (auto simp: Let_def filter_empty_conv image_iff split: if_splits) metis
  then have "grouped (pre @ [r]) ?o (push_group ?d r groups)"
    using Cons.prems(2) m by (auto simp: grouped_def push_group_def Let_def)
  from Cons.IH [OF g this] r show ?case by simp
qed simp

text \<open>Everything a group changes besides the nullifiers, and the two amounts it moves between.\<close>

definition shielded_step :: "LedgerState \<Rightarrow> LedgerState \<Rightarrow> bool" where
  "shielded_step s s' =
     (s' = s\<lparr>ls_shielded := ls_shielded s', ls_unallocated_circulating := ls_unallocated_circulating s',
             ls_nullifiers := ls_nullifiers s'\<rparr>
      \<and> unat (ls_unallocated_circulating s') + unat (shielded_pool s')
          = unat (ls_unallocated_circulating s) + unat (shielded_pool s)
      \<and> (\<forall>k d. finalized_nullifier s k = Some d \<longrightarrow> finalized_nullifier s' k = Some d))"

lemma shielded_step_refl [simp]: "shielded_step s s"
  by (simp add: shielded_step_def)

lemma shielded_step_trans: "shielded_step s t \<Longrightarrow> shielded_step t u \<Longrightarrow> shielded_step s u"
  by (cases s; cases t; cases u) (simp add: shielded_step_def)

definition take_images :: "bytes \<Rightarrow> NullifierRecord list \<Rightarrow> (bytes, bytes) btree \<Rightarrow> (bytes, bytes) btree" where
  "take_images d g m = fold (\<lambda>r. bt_insert (nr_key_image r) d) g m"

lemma map_of_take_images:
  "map_of (take_images d g m) k = (if k \<in> nr_key_image ` set g then Some d else map_of m k)"
  by (induction g arbitrary: m) (auto simp: take_images_def)

definition images_wf :: "(bytes, bytes) btree \<Rightarrow> bool" where
  "images_wf m = (bt_wf m \<and> (\<forall>(k, d) \<in> set m. k \<noteq> [] \<and> length k \<le> MAX_KEY_IMAGE_BYTES \<and> length d = 32))"

lemma take_images_wf:
  "images_wf m \<Longrightarrow> list_all nr_is_well_formed g \<Longrightarrow> length d = 32 \<Longrightarrow> images_wf (take_images d g m)"
proof (induction g arbitrary: m)
  case (Cons r g)
  have "set (bt_insert (nr_key_image r) d m) \<subseteq> insert (nr_key_image r, d) (set m)" by (rule set_bt_insert)
  then have "images_wf (bt_insert (nr_key_image r) d m)"
    using Cons.prems by (auto simp: images_wf_def nr_is_well_formed_def)
  with Cons show ?case by (simp add: take_images_def)
qed (simp add: take_images_def)

text \<open>
  One verified group: nothing changes, or all its images are taken under its digest, none of which
  another claim held.
\<close>

definition group_step :: "ClaimVerifier \<Rightarrow> bytes \<Rightarrow> NullifierRecord list \<Rightarrow> LedgerState \<Rightarrow> LedgerState \<Rightarrow> bool" where
  "group_step verifier d g s s' =
     (verify_claim verifier (ls_network_id s) d g \<noteq> None
      \<and> (s' = s \<or> (\<forall>r \<in> set g. finalized_nullifier s (nr_key_image r) \<in> {None, Some d})
           \<and> ls_nullifiers s' = take_images d g (ls_nullifiers s)
           \<and> shielded_step s s'
           \<and> (shielded_wf (ls_shielded s) \<longrightarrow> length d = 32 \<longrightarrow> shielded_wf (ls_shielded s'))))"

lemma group_stepD: "group_step v d g s s' \<Longrightarrow> shielded_step s s'"
  by (auto simp: group_step_def)

lemma apply_groups_Cons:
  assumes "apply_groups v groups s (d # ds) = Inr s'" "map_of groups d = Some g"
  shows "\<exists>t. group_step v d g s t \<and> apply_groups v groups t ds = Inr s'"
proof -
  let ?free = "list_all (\<lambda>r. case map_of (ls_nullifiers s) (nr_key_image r) of
                   None \<Rightarrow> True | Some held \<Rightarrow> held = d) g"
  from assms obtain effects where e: "verify_claim v (ls_network_id s) d g = Some effects" by auto
  show ?thesis
  proof (cases ?free)
    case False
    then show ?thesis using assms e by (intro exI [of _ s]) (auto simp: group_step_def)
  next
    case True
    from assms e True obtain fee sl un where a: "sl_apply (ls_shielded s) d effects = Inr (fee, sl)"
      "unat un = unat (ls_unallocated_circulating s) + unat fee"
      "apply_groups v groups (s\<lparr>ls_shielded := sl, ls_unallocated_circulating := un,
         ls_nullifiers := take_images d g (ls_nullifiers s)\<rparr>) ds = Inr s'"
      by (auto simp: take_images_def)
    let ?t = "s\<lparr>ls_shielded := sl, ls_unallocated_circulating := un, ls_nullifiers := take_images d g (ls_nullifiers s)\<rparr>"
    have free: "\<forall>r \<in> set g. finalized_nullifier s (nr_key_image r) \<in> {None, Some d}"
    proof
      fix r assume "r \<in> set g"
      with True show "finalized_nullifier s (nr_key_image r) \<in> {None, Some d}"
        by (cases "map_of (ls_nullifiers s) (nr_key_image r)") (auto simp: list_all_iff finalized_nullifier_def)
    qed
    have "unat (sl_pool_micro sl) + unat fee = unat (sl_pool_micro (ls_shielded s))"
      using sl_apply_Inr [OF a(1)] by auto
    then have "shielded_step s ?t"
      using a(2) free by (auto simp: shielded_step_def shielded_pool_def finalized_nullifier_def map_of_take_images)
    with e free a(1) sl_apply_wf(1) have "group_step v d g s ?t" by (auto simp: group_step_def)
    with a(3) show ?thesis by blast
  qed
qed

lemma apply_groups_facts:
  assumes "apply_groups v groups s ds = Inr s'"
  shows "shielded_step s s'
    \<and> (\<forall>k d. finalized_nullifier s' k = Some d \<longrightarrow> finalized_nullifier s k \<noteq> Some d \<longrightarrow>
         d \<in> set ds \<and> (\<exists>g. map_of groups d = Some g \<and> verify_claim v (ls_network_id s) d g \<noteq> None
           \<and> k \<in> nr_key_image ` set g \<and> finalized_nullifier s k = None
           \<and> (\<forall>r \<in> set g. finalized_nullifier s' (nr_key_image r) = Some d)))"
  using assms
proof (induction ds arbitrary: s)
  case (Cons d ds)
  show ?case
  proof (cases "map_of groups d")
    case None
    with Cons show ?thesis by auto
  next
    case (Some g)
    from apply_groups_Cons [OF Cons.prems Some] obtain t where t: "group_step v d g s t" "apply_groups v groups t ds = Inr s'"
      by blast
    note IH = Cons.IH [OF t(2)] and st = group_stepD [OF t(1)]
    have net: "ls_network_id t = ls_network_id s" using st by (cases s; cases t) (simp add: shielded_step_def)
    have new: "finalized_nullifier t k = Some e \<Longrightarrow> finalized_nullifier s k \<noteq> Some e
        \<Longrightarrow> e = d \<and> k \<in> nr_key_image ` set g \<and> finalized_nullifier s k = None
          \<and> (\<forall>r \<in> set g. finalized_nullifier t (nr_key_image r) = Some d)" for k e
      using t(1) by (auto simp: group_step_def finalized_nullifier_def map_of_take_images split: if_splits)
    have "d' \<in> set (d # ds) \<and> (\<exists>g. map_of groups d' = Some g \<and> verify_claim v (ls_network_id s) d' g \<noteq> None
           \<and> k \<in> nr_key_image ` set g \<and> finalized_nullifier s k = None
           \<and> (\<forall>r \<in> set g. finalized_nullifier s' (nr_key_image r) = Some d'))"
      if k: "finalized_nullifier s' k = Some d'" "finalized_nullifier s k \<noteq> Some d'" for k d'
    proof (cases "finalized_nullifier t k = Some d'")
      case True
      have "\<forall>r \<in> set g. finalized_nullifier s' (nr_key_image r) = Some d"
        using new [OF True k(2)] IH by (auto simp: shielded_step_def)
      with new [OF True k(2)] Some t(1) show ?thesis by (auto simp: group_step_def)
    next
      case False
      moreover have "finalized_nullifier s k = None" if "finalized_nullifier t k = None"
        using that st by (cases "finalized_nullifier s k") (auto simp: shielded_step_def)
      ultimately show ?thesis using IH k(1) net by fastforce
    qed
    then show ?thesis using shielded_step_trans [OF st] IH by blast
  qed
qed simp

lemma apply_groups_wf:
  assumes "apply_groups v groups s ds = Inr s'" "shielded_wf (ls_shielded s)" "images_wf (ls_nullifiers s)"
    and "\<forall>d \<in> set ds. length d = 32" "\<forall>d g. map_of groups d = Some g \<longrightarrow> list_all nr_is_well_formed g"
  shows "shielded_wf (ls_shielded s') \<and> images_wf (ls_nullifiers s')"
  using assms(1-4)
proof (induction ds arbitrary: s)
  case (Cons d ds)
  show ?case
  proof (cases "map_of groups d")
    case None
    with Cons show ?thesis by auto
  next
    case (Some g)
    from apply_groups_Cons [OF Cons.prems(1) Some] obtain t where t: "group_step v d g s t" "apply_groups v groups t ds = Inr s'"
      by blast
    have "images_wf (ls_nullifiers t)" "shielded_wf (ls_shielded t)"
      using t(1) Cons.prems(2,3,4) take_images_wf [of "ls_nullifiers s" g d] assms(5) Some by (auto simp: group_step_def)
    then show ?thesis using Cons.IH [OF t(2)] Cons.prems(4) by simp
  qed
qed simp

section \<open>Blocks\<close>

text \<open>The digests of the records and the roots of the epochs are arrays of 32 bytes, and the beneficiaries of
  the epochs strings, as their types have them.\<close>

definition body_typed :: "SettlementBlockBody \<Rightarrow> bool" where
  "body_typed body =
     (list_all (\<lambda>r. length (nr_claim_digest r) = 32) (bb_nullifiers body)
      \<and> list_all plan_typed (bb_monetary_epochs body))"

definition supply_ok :: "LedgerState \<Rightarrow> bool" where
  "supply_ok s =
     (\<exists>c. circulating_supply (ls_monetary s) = Inr c
        \<and> unat (ls_allocated_circulating s) + unat (ls_unallocated_circulating s) + unat (shielded_pool s) = unat c)"

lemma verify_supply_iff: "verify_supply_conservation s = Inr u \<longleftrightarrow> supply_ok s"
proof
  assume "verify_supply_conservation s = Inr u"
  then show "supply_ok s"
    by (auto simp: verify_supply_conservation_def supply_ok_def split: if_splits)
next
  assume "supply_ok s"
  then obtain c where c: "circulating_supply (ls_monetary s) = Inr c"
    "unat (ls_allocated_circulating s) + unat (ls_unallocated_circulating s) + unat (shielded_pool s) = unat c"
    by (auto simp: supply_ok_def)
  have u: "unat c < 2 ^ 128" using unsigned_less [of c, where ?'a = nat] by simp
  let ?a = "ls_allocated_circulating s + ls_unallocated_circulating s"
  have "unat (ls_allocated_circulating s) + unat (ls_unallocated_circulating s) < 2 ^ 128" using c(2) u by linarith
  then have a: "amount_add (ls_allocated_circulating s) (ls_unallocated_circulating s) = Inr ?a"
    by (simp add: amount_add_def checked_add_def)
  then have "unat ?a = unat (ls_allocated_circulating s) + unat (ls_unallocated_circulating s)"
    unfolding amount_add_Inr .
  with c(2) have "amount_add ?a (shielded_pool s) = Inr c" unfolding amount_add_Inr by simp
  with a c(1) show "verify_supply_conservation s = Inr u"
    by (simp add: verify_supply_conservation_def del: amount_add_Inr)
qed

definition monetary_wf :: "MonetaryLedger \<Rightarrow> bool" where
  "monetary_wf L = (ledger_ok L \<and> list_all (\<lambda>p. subject_typed (vp_subject p)) (ml_positions L))"

lemma epoch_subjects_typed:
  assumes "apply_epoch L epoch policy = Inr L'" "plan_to_wire_bytes epoch = Inr w" "plan_typed epoch"
    "list_all (\<lambda>p. subject_typed (vp_subject p)) (ml_positions L)"
  shows "list_all (\<lambda>p. subject_typed (vp_subject p)) (ml_positions L')"
  using assms(1)
proof (rule apply_epoch_Inr)
  assume "ml_positions L' = ml_positions L @ [human_position epoch (ml_policy_time_ms L')]
       @ map (grant_position epoch (ml_policy_time_ms L')) (sp_optional_grants epoch)"
  moreover have "\<forall>g \<in> set (sp_optional_grants epoch). length (vg_beneficiary g) \<le> MAX_EPOCH_BENEFICIARY_BYTES"
    using assms(2) by (auto simp: plan_to_wire_bytes_def list_ex_iff not_less split: if_splits)
  ultimately show ?thesis
    using assms(3,4) by (fastforce simp: list_all_iff human_position_def grant_position_def subject_typed_def root_ok_def
        plan_typed_def MAX_EPOCH_BENEFICIARY_BYTES_def)
qed

definition state_wf :: "crypto \<Rightarrow> LedgerState \<Rightarrow> bool" where
  "state_wf C s =
     (length (ls_network_id s) = 32 \<and> accounts_wf C s \<and> images_wf (ls_nullifiers s)
      \<and> shielded_wf (ls_shielded s) \<and> monetary_wf (ls_monetary s) \<and> supply_ok s)"

lemma apply_nullifiers_Inr:
  assumes "apply_nullifiers s rs v = Inr s'"
  shows "rs = [] \<and> s' = s \<or> (\<exists>vf order groups. v = Some vf \<and> grouped rs order groups \<and> list_all nr_is_well_formed rs
    \<and> apply_groups vf groups s order = Inr s')"
  using assms group_records_grouped [of "[]" "[]" rs _ _ "[]"]
  by (auto simp: apply_nullifiers_def split: if_splits) blast

lemma apply_nullifiers_step: "apply_nullifiers s rs v = Inr s' \<Longrightarrow> shielded_step s s'"
  using apply_nullifiers_Inr [of s rs v s'] apply_groups_facts by force

lemma apply_nullifiers_wf:
  assumes "apply_nullifiers s rs v = Inr s'" "list_all (\<lambda>r. length (nr_claim_digest r) = 32) rs"
    "shielded_wf (ls_shielded s)" "images_wf (ls_nullifiers s)"
  shows "shielded_wf (ls_shielded s') \<and> images_wf (ls_nullifiers s')"
  using apply_nullifiers_Inr [OF assms(1)]
proof (elim disjE exE conjE)
  fix vf order groups
  assume g: "grouped rs order groups" "list_all nr_is_well_formed rs" "apply_groups vf groups s order = Inr s'"
  have "list_all nr_is_well_formed h" if "map_of groups d = Some h" for d h
    using that g(1,2) by (auto simp: grouped_def Let_def list_all_iff split: if_splits)
  moreover have "\<forall>d \<in> set order. length d = 32" using g(1) assms(2) by (auto simp: grouped_def list_all_iff)
  ultimately show ?thesis using apply_groups_wf [OF g(3) assms(3,4)] by blast
qed (use assms in simp)

lemma apply_monetary_Inr:
  assumes "apply_monetary s epochs = Inr s'" "monetary_wf (ls_monetary s)" "supply_ok s"
    "list_all plan_typed epochs"
  shows "monetary_wf (ls_monetary s') \<and> supply_ok s'
    \<and> s' = s\<lparr>ls_monetary := ls_monetary s', ls_unallocated_circulating := ls_unallocated_circulating s'\<rparr>"
proof (cases epochs)
  case (Cons epoch es)
  with assms(1) obtain w before L after un and new :: u128 where a: "plan_to_wire_bytes epoch = Inr w"
    "circulating_supply (ls_monetary s) = Inr before"
    "apply_epoch (ls_monetary s) epoch d0074 = Inr L" "circulating_supply L = Inr after"
    "unat new + unat before = unat after" "unat un = unat (ls_unallocated_circulating s) + unat new"
    "s' = s\<lparr>ls_monetary := L, ls_unallocated_circulating := un\<rparr>"
    by (auto simp: apply_monetary_def)
  have "monetary_wf L"
    using assms(2,4) Cons apply_epoch_ok [OF _ a(3)] epoch_subjects_typed [OF a(3,1)] by (simp add: monetary_wf_def)
  with a assms(3) show ?thesis by (auto simp: supply_ok_def shielded_pool_def)
qed (use assms in \<open>simp add: apply_monetary_def\<close>)

lemma shielded_stepD:
  assumes "shielded_step s s'"
  shows "ls_network_id s' = ls_network_id s" "ls_finalized s' = ls_finalized s" "ls_rejected s' = ls_rejected s"
    "ls_monetary s' = ls_monetary s" "ls_balances s' = ls_balances s"
    "ls_allocated_circulating s' = ls_allocated_circulating s"
  using assms by (cases s'; simp add: shielded_step_def)+

lemma block_Inr:
  assumes "apply_block_with_verifier C s body v = Inr s'"
  shows "\<exists>s1 s2. apply_claims C s (bb_claims body) = Inr s1 \<and> apply_nullifiers s1 (bb_nullifiers body) v = Inr s2
    \<and> apply_monetary s2 (bb_monetary_epochs body) = Inr s'"
  using assms by (auto simp: apply_block_with_verifier_def)

lemma block_wf:
  assumes C: "digests_ok C" and wf: "state_wf C s" and b: "body_typed body"
    and a: "apply_block_with_verifier C s body v = Inr s'"
  shows "state_wf C s'"
proof -
  from block_Inr [OF a] obtain s1 s2 where s: "apply_claims C s (bb_claims body) = Inr s1"
    "apply_nullifiers s1 (bb_nullifiers body) v = Inr s2" "apply_monetary s2 (bb_monetary_epochs body) = Inr s'" by blast
  from all_claims [OF C, of s "bb_claims body"] wf s(1) have 1: "accounts_wf C s1" "same_rest s s1"
    by (auto simp: state_wf_def)
  note r = same_restD [OF 1(2)]
  have 2: "shielded_wf (ls_shielded s2) \<and> images_wf (ls_nullifiers s2)"
    using apply_nullifiers_wf [OF s(2)] wf b r by (simp add: state_wf_def body_typed_def)
  note st = apply_nullifiers_step [OF s(2)]
  note d = shielded_stepD [OF st]
  have "supply_ok s1" using wf r by (simp add: state_wf_def supply_ok_def shielded_pool_def)
  then have "supply_ok s2" using st d by (auto simp: supply_ok_def shielded_step_def add.assoc)
  moreover have "monetary_wf (ls_monetary s2)" using wf r d by (simp add: state_wf_def)
  ultimately have m: "monetary_wf (ls_monetary s')" "supply_ok s'"
    and e: "s' = s2\<lparr>ls_monetary := ls_monetary s', ls_unallocated_circulating := ls_unallocated_circulating s'\<rparr>"
    using apply_monetary_Inr [OF s(3)] b unfolding body_typed_def by blast+
  have k: "ls_network_id s' = ls_network_id s2" "ls_finalized s' = ls_finalized s2" "ls_rejected s' = ls_rejected s2"
    "ls_balances s' = ls_balances s2" "ls_allocated_circulating s' = ls_allocated_circulating s2"
    "ls_nullifiers s' = ls_nullifiers s2" "ls_shielded s' = ls_shielded s2"
    by (subst e, simp)+
  have "accounts_wf C s'" using 1(1) unfolding accounts_wf_def k d .
  with 2 m wf show ?thesis by (simp add: state_wf_def k d r)
qed

text \<open>Outside the claims a block does not touch the accounts.\<close>

lemma block_accounts:
  assumes C: "digests_ok C" and wf: "accounts_wf C s" and a: "apply_block_with_verifier C s body v = Inr s'"
  shows "accounts s' = fold (settle C (ls_network_id s)) (bb_claims body) (accounts s)"
    "ls_network_id s' = ls_network_id s"
proof -
  from block_Inr [OF a] obtain s1 s2 where s: "apply_claims C s (bb_claims body) = Inr s1"
    "apply_nullifiers s1 (bb_nullifiers body) v = Inr s2" "apply_monetary s2 (bb_monetary_epochs body) = Inr s'" by blast
  from all_claims [OF C wf, of "bb_claims body"] s(1) have 1: "same_rest s s1"
    "accounts s1 = fold (settle C (ls_network_id s)) (bb_claims body) (accounts s)" by auto
  note d = shielded_stepD [OF apply_nullifiers_step [OF s(2)]]
  have k: "ls_network_id s' = ls_network_id s2" "ls_finalized s' = ls_finalized s2" "ls_rejected s' = ls_rejected s2"
    "ls_balances s' = ls_balances s2"
    using s(3) by (auto simp: apply_monetary_def split: list.splits)
  show "accounts s' = fold (settle C (ls_network_id s)) (bb_claims body) (accounts s)"
    using 1(2) by (simp add: accounts_def k d)
  show "ls_network_id s' = ls_network_id s" using same_restD(1) [OF 1(1)] by (simp add: k d)
qed

section \<open>The claims that paid\<close>

fun paid_claims :: "crypto \<Rightarrow> bytes \<Rightarrow> account_ledger \<Rightarrow> PaymentClaim list \<Rightarrow> PaymentClaim list" where
  "paid_claims C network A [] = []"
| "paid_claims C network A (c # cs) =
     (if judge C network A c = Paid then [c] else []) @ paid_claims C network (settle C network c A) cs"

definition above_mark :: "account_ledger \<Rightarrow> PaymentClaim \<Rightarrow> bool" where
  "above_mark A c = (case ac_mark A (pc_payer c) of None \<Rightarrow> True | Some (n, _) \<Rightarrow> n < pc_sequence c)"

lemma paid_above: "judge C network A c = Paid \<Longrightarrow> above_mark A c"
  by (auto simp: judge_def above_mark_def stale_def not_le split: if_splits option.splits)

lemma above_settle:
  assumes "above_mark (settle C network c A) c'"
  shows "above_mark A c' \<and> (judge C network A c = Paid \<longrightarrow> pc_payer c = pc_payer c' \<longrightarrow> pc_sequence c < pc_sequence c')"
proof (cases "judge C network A c")
  case Paid
  show ?thesis
  proof (cases "pc_payer c = pc_payer c'")
    case True
    with assms Paid have "pc_sequence c < pc_sequence c'" by (simp add: settle_def above_mark_def Let_def)
    with paid_above [OF Paid] True show ?thesis by (auto simp: above_mark_def split: option.splits)
  next
    case False
    with assms Paid show ?thesis by (auto simp: settle_def above_mark_def Let_def)
  qed
qed (use assms in \<open>auto simp: settle_def above_mark_def\<close>)

lemma paid_claims_above: "c \<in> set (paid_claims C network A cs) \<Longrightarrow> above_mark A c"
proof (induction cs arbitrary: A)
  case (Cons c' cs)
  then show ?case using paid_above above_settle by (fastforce split: if_splits)
qed simp

definition slot_order :: "PaymentClaim \<Rightarrow> PaymentClaim \<Rightarrow> bool" where
  "slot_order a b = (pc_payer a = pc_payer b \<longrightarrow> pc_sequence a < pc_sequence b)"

lemma paid_claims_sorted: "sorted_wrt slot_order (paid_claims C network A cs)"
proof (induction cs arbitrary: A)
  case (Cons c cs)
  have "slot_order c b" if "judge C network A c = Paid" "b \<in> set (paid_claims C network (settle C network c A) cs)" for b
    using above_settle [OF paid_claims_above [OF that(2)]] that(1) by (simp add: slot_order_def)
  with Cons show ?case by simp
qed simp

definition amount_sum :: "(PaymentClaim \<Rightarrow> bool) \<Rightarrow> PaymentClaim list \<Rightarrow> nat" where
  "amount_sum P cs = (\<Sum>c\<leftarrow>filter P cs. unat (pc_amount_micro c))"

lemma settle_balance:
  "ac_bal (settle C network c A) a + amount_sum (\<lambda>c. pc_payer c = a) (if judge C network A c = Paid then [c] else [])
     = ac_bal A a + amount_sum (\<lambda>c. pc_payee c = a) (if judge C network A c = Paid then [c] else [])"
proof (cases "judge C network A c")
  case Paid
  then have "unat (pc_amount_micro c) \<le> ac_bal A (pc_payer c)"
    by (auto simp: judge_def short_of_funds_def not_less split: if_splits)
  with Paid show ?thesis by (auto simp: settle_def Let_def amount_sum_def)
qed (simp_all add: settle_def amount_sum_def)

lemma paid_claims_balance:
  "ac_bal (fold (settle C network) cs A) a + amount_sum (\<lambda>c. pc_payer c = a) (paid_claims C network A cs)
     = ac_bal A a + amount_sum (\<lambda>c. pc_payee c = a) (paid_claims C network A cs)"
proof (induction cs arbitrary: A)
  case (Cons c cs)
  have app: "amount_sum P (xs @ ys) = amount_sum P xs + amount_sum P ys" for P xs ys
    by (simp add: amount_sum_def)
  from Cons [of "settle C network c A"] settle_balance [of C network c A a] show ?case
    by (simp only: paid_claims.simps app fold_simps)
qed (simp add: amount_sum_def)

text \<open>A run of blocks, each with the verifier it was given.\<close>

fun run_blocks ::
  "crypto \<Rightarrow> LedgerState \<Rightarrow> (SettlementBlockBody \<times> ClaimVerifier option) list \<Rightarrow> ExecutionError + LedgerState" where
  "run_blocks C s [] = Inr s"
| "run_blocks C s ((body, v) # bs) = andThen (apply_block_with_verifier C s body v) (\<lambda>s. run_blocks C s bs)"

definition claims_of :: "(SettlementBlockBody \<times> ClaimVerifier option) list \<Rightarrow> PaymentClaim list" where
  "claims_of bs = concat (map (\<lambda>b. bb_claims (fst b)) bs)"

lemma run_blocks_accounts:
  assumes "digests_ok C" "state_wf C s" "list_all (\<lambda>b. body_typed (fst b)) bs" "run_blocks C s bs = Inr s'"
  shows "accounts s' = fold (settle C (ls_network_id s)) (claims_of bs) (accounts s)"
  using assms(2-)
proof (induction bs arbitrary: s)
  case (Cons b bs)
  obtain body v where b: "b = (body, v)" by (cases b)
  with Cons.prems obtain t where t: "apply_block_with_verifier C s body v = Inr t" "run_blocks C t bs = Inr s'" by auto
  have "accounts_wf C s" using Cons.prems(1) by (simp add: state_wf_def)
  note a = block_accounts [OF assms(1) this t(1)]
  have "state_wf C t" using block_wf [OF assms(1) Cons.prems(1) _ t(1)] Cons.prems(2) by (simp add: b)
  from Cons.IH [OF this _ t(2)] Cons.prems(2) a show ?case by (simp add: b claims_of_def)
qed (simp add: claims_of_def)

section \<open>The state as a canonical ledger\<close>

definition ledger_move :: "crypto \<Rightarrow> LedgerState \<Rightarrow> LedgerState \<Rightarrow> bool" where
  "ledger_move C s s' = (\<exists>body v. apply_block_with_verifier C s body v = Inr s')"

definition mark_le :: "(u64 \<times> bytes) option \<Rightarrow> (u64 \<times> bytes) option \<Rightarrow> bool" where
  "mark_le a b = (case a of None \<Rightarrow> True | Some (n, d) \<Rightarrow> (\<exists>m e. b = Some (m, e) \<and> (n < m \<or> m = n \<and> e = d)))"

lemma mark_le_refl [simp]: "mark_le a a"
  by (auto simp: mark_le_def split: option.split)

lemma mark_le_trans: "mark_le a b \<Longrightarrow> mark_le b c \<Longrightarrow> mark_le a c"
  by (auto simp: mark_le_def split: option.splits)

lemma one_claim_marks:
  assumes "apply_one_claim C s c = Inr s'"
  shows "mark_le (map_of (ls_finalized s) p) (map_of (ls_finalized s') p)"
proof -
  have "ls_finalized s' = ls_finalized s
      \<or> \<not> stale (accounts s) c \<and> ls_finalized s' = bt_insert (pc_payer c) (pc_sequence c, claim_digest C c) (ls_finalized s)"
    using assms unfolding apply_one_claim_def wins_iff Let_def
    by (auto simp: reject_claim_def split: if_splits)
  then show ?thesis
    by (auto simp: mark_le_def stale_def accounts_def not_le split: option.splits)
qed

lemma claims_marks:
  "apply_claims C s cs = Inr s' \<Longrightarrow> mark_le (map_of (ls_finalized s) p) (map_of (ls_finalized s') p)"
  by (induction cs arbitrary: s) (auto dest: one_claim_marks [where p = p] intro: mark_le_trans)

lemma move_marks:
  assumes "ledger_move C s s'"
  shows "mark_le (map_of (ls_finalized s) p) (map_of (ls_finalized s') p)"
proof -
  from assms obtain body v where "apply_block_with_verifier C s body v = Inr s'" by (auto simp: ledger_move_def)
  from block_Inr [OF this] obtain s1 s2 where s: "apply_claims C s (bb_claims body) = Inr s1"
    "apply_nullifiers s1 (bb_nullifiers body) v = Inr s2" "apply_monetary s2 (bb_monetary_epochs body) = Inr s'" by blast
  have "ls_finalized s' = ls_finalized s2" using s(3) by (auto simp: apply_monetary_def split: list.splits)
  with claims_marks [OF s(1)] shielded_stepD(2) [OF apply_nullifiers_step [OF s(2)]] show ?thesis by simp
qed

interpretation chain_ledger: canonical_ledger state_view "ledger_move C" for C
proof
  fix s s' p and n :: u64
  assume m: "ledger_move C s s'" and n: "finalized_sequence (state_view s) p = Some n"
  from n obtain d where "map_of (ls_finalized s) p = Some (n, d)" by (auto simp: state_view_def)
  with move_marks [OF m, of p] show "\<exists>m. n \<le> m \<and> finalized_sequence (state_view s') p = Some m"
    by (auto simp: state_view_def mark_le_def)
next
  fix s s' p and n :: u64
  assume m: "ledger_move C s s'" and n: "finalized_sequence (state_view s) p = Some n"
    and n': "finalized_sequence (state_view s') p = Some n"
  from n obtain d where "map_of (ls_finalized s) p = Some (n, d)" by (auto simp: state_view_def)
  with move_marks [OF m, of p] n' show "finalized_claim_digest (state_view s') p n = finalized_claim_digest (state_view s) p n"
    by (auto simp: state_view_def mark_le_def)
qed

section \<open>The chain\<close>

text \<open>Every chain that a genesis and finalized blocks produce, with any certificates and verifiers.\<close>

inductive chain_reach :: "crypto \<Rightarrow> LedgerChain \<Rightarrow> bool" for C where
  supply_genesis: "length network = 32 \<Longrightarrow> chain_reach C (genesis_for_network network g)"
| balance_genesis: "length network = 32 \<Longrightarrow> genesis_with_network_balances C network g allocations = Inr ch
    \<Longrightarrow> chain_reach C ch"
| shielded_genesis: "length network = 32 \<Longrightarrow> genesis_with_shielded_allocations network as v = Inr ch
    \<Longrightarrow> chain_reach C ch"
| block: "chain_reach C ch \<Longrightarrow> body_typed body
    \<Longrightarrow> apply_finalized_block_with_verifier C ch header body qc vs oracle v = Inr (root, ch') \<Longrightarrow> chain_reach C ch'"

lemma circulating_new [simp]: "circulating_supply (ml_new g) = Inr g"
  by (simp add: circulating_supply_def ml_new_def)

lemma monetary_wf_new [simp]: "monetary_wf (ml_new g)"
  by (simp add: monetary_wf_def ml_new_ok) (simp add: ml_new_def)

lemma supply_genesis_wf: "length network = 32 \<Longrightarrow> state_wf C (with_network_and_genesis_supply network g)"
  by (simp add: state_wf_def accounts_wf_def images_wf_def supply_ok_def with_network_and_genesis_supply_def
      shielded_pool_def) (simp add: sl_default_def)

lemma allocate_loop_wf:
  assumes "allocate_loop C m a as = Inr (m', a')" "bt_wf m" "bt_total unat m = unat a"
    "\<forall>(k, b) \<in> set m. is_supported_account C k \<and> b \<noteq> 0"
  shows "bt_wf m' \<and> bt_total unat m' = unat a' \<and> (\<forall>(k, b) \<in> set m'. is_supported_account C k \<and> b \<noteq> 0)"
  using assms
proof (induction as arbitrary: m a)
  case (Cons e as)
  obtain k x where e: "e = (k, x)" by (cases e)
  from Cons.prems(1) obtain b where n: "is_supported_account C k" "x \<noteq> 0" "map_of m k = None"
    "unat b = unat a + unat x" "allocate_loop C (bt_insert k x m) b as = Inr (m', a')"
    by (auto simp: e split: if_splits)
  have "set (bt_insert k x m) \<subseteq> insert (k, x) (set m)" by (rule set_bt_insert)
  then have "\<forall>(k, b) \<in> set (bt_insert k x m). is_supported_account C k \<and> b \<noteq> 0" using n(1,2) Cons.prems(4) by auto
  moreover have "bt_total unat (bt_insert k x m) = unat b"
    using bt_total_insert [OF Cons.prems(2), of unat k x] n(3,4) Cons.prems(3) by simp
  ultimately show ?case using Cons.IH [OF n(5)] Cons.prems(2) by simp
qed simp

lemma balance_genesis_wf:
  assumes "length network = 32" "with_network_and_genesis_balances C network g as = Inr s"
  shows "state_wf C s"
proof -
  from assms(2) obtain m a where a: "allocate_loop C [] 0 as = Inr (m, a)" "a = g"
    "s = \<lparr>ls_network_id = network, ls_finalized = [], ls_rejected = [], ls_nullifiers = [],
         ls_monetary = ml_new g, ls_shielded = sl_default, ls_balances = m,
         ls_allocated_circulating = a, ls_unallocated_circulating = 0\<rparr>"
    by (auto simp: with_network_and_genesis_balances_def split: if_splits)
  from allocate_loop_wf [OF a(1)] assms(1) show ?thesis
    by (simp add: a(2,3) state_wf_def accounts_wf_def images_wf_def supply_ok_def shielded_pool_def)
       (simp add: sl_default_def)
qed

lemma shielded_genesis_wf:
  assumes "length network = 32" "with_shielded_genesis network as v = Inr s"
  shows "state_wf C s"
proof -
  from assms(2) obtain sl where s: "sl_from_genesis network as v = Inr sl"
    "s = (with_network_and_genesis_supply network (sl_pool_micro sl))\<lparr>ls_unallocated_circulating := 0, ls_shielded := sl\<rparr>"
    by (auto simp: with_shielded_genesis_def Let_def)
  from sl_from_genesis_wf [OF s(1)] assms(1) show ?thesis
    by (simp add: s(2) state_wf_def accounts_wf_def images_wf_def supply_ok_def with_network_and_genesis_supply_def
        shielded_pool_def)
qed

lemma finalized_block_Inr:
  assumes "apply_finalized_block_with_verifier C ch header body qc vs oracle v = Inr (root, ch')"
  shows "apply_block_with_verifier C (lc_state ch) body v = Inr (lc_state ch')"
    "root = state_commitment C (lc_state ch')" "bh_state_root header = state_commitment C (lc_state ch')"
    "lc_tip_hash ch' = header_hash C header" "lc_height ch' = bh_height header"
    "unat (bh_height header) = unat (lc_height ch) + 1" "bh_prev_hash header = lc_tip_hash ch"
    "\<exists>n. verify_finality C qc vs oracle = Inr n" "qc_height qc = bh_height header" "qc_block_hash qc = header_hash C header"
    "bh_body_root header = body_hash C body"
  using assms by (auto simp: apply_finalized_block_with_verifier_def)

lemma chain_reach_wf:
  assumes "digests_ok C" "chain_reach C ch"
  shows "state_wf C (lc_state ch)"
  using assms(2)
proof (induction rule: chain_reach.induct)
  case (supply_genesis network g)
  then show ?case using supply_genesis_wf by (simp add: genesis_for_network_def chain_of_state_def)
next
  case (balance_genesis network g as ch)
  then show ?case using balance_genesis_wf by (auto simp: genesis_with_network_balances_def chain_of_state_def)
next
  case (shielded_genesis network as v ch)
  then show ?case using shielded_genesis_wf by (auto simp: genesis_with_shielded_allocations_def chain_of_state_def)
next
  case (block ch body header qc vs "oracle" v root ch')
  from block_wf [OF assms(1) block.IH block.hyps(2) finalized_block_Inr(1) [OF block.hyps(3)]] show ?case .
qed

lemma balance_total_loop_sum: "balance_total_loop a bs = ok_or (checked_sum a bs) AmountOverflow"
  by (induction bs arbitrary: a) (auto simp: amount_add_def split: option.split)

lemma verify_balance_total_iff:
  "verify_balance_map_total s = Inr u \<longleftrightarrow> bt_total unat (ls_balances s) = unat (ls_allocated_circulating s)"
proof -
  have "bt_total unat (ls_balances s) = sum_list (map unat (map snd (ls_balances s)))"
    by (simp add: bt_total_def comp_def)
  then show ?thesis
    using checked_sum_Some [of 0 "map snd (ls_balances s)" "ls_allocated_circulating s"]
    by (auto simp: verify_balance_map_total_def balance_total_loop_sum split: if_splits)
qed

section \<open>A concrete chain\<close>

text \<open>
  Two accounts with seeds of one byte; the first is allocated 50 at genesis and signs three claims
  to the second.
\<close>

definition demo_key :: "u8 \<Rightarrow> bytes" where "demo_key b = b # replicate 31 0"

definition demo_alloc :: "(bytes \<times> Amount) list" where "demo_alloc = [(demo_key 1, 50)]"

definition demo_claim :: "u64 \<Rightarrow> u64 \<Rightarrow> PaymentClaim" where
  "demo_claim amount sq =
     projr (sign_claim toy_crypto (from_seed [1]) (demo_key 2) amount sq 10 [] 0)"

definition demo_state0 :: LedgerState where
  "demo_state0 =
     \<lparr>ls_network_id = MININET_NETWORK_ID, ls_finalized = [], ls_rejected = [], ls_nullifiers = [],
      ls_monetary = ml_new 50, ls_shielded = sl_default, ls_balances = demo_alloc,
      ls_allocated_circulating = 50, ls_unallocated_circulating = 0\<rparr>"

lemma toy_supported: "is_supported_account toy_crypto a \<longleftrightarrow> length a = 32"
  by (cases "length a = 32")
     (auto simp: is_supported_account_def MAX_ACCOUNT_BYTES_def vk_from_suite_bytes_def DEFAULT_SUITE_def toy_crypto_def)

lemma demo_key_length [simp]: "length (demo_key b) = 32"
  by (simp add: demo_key_def)

lemma MININET_length [simp]: "length MININET_NETWORK_ID = 32"
  by (simp add: MININET_NETWORK_ID_def)

lemma demo_genesis: "with_genesis_balances toy_crypto 50 demo_alloc = Inr demo_state0"
  by (simp add: with_genesis_balances_def with_network_and_genesis_balances_def demo_alloc_def toy_supported
      demo_state0_def amount_add_def checked_add_def)

lemma demo_wf: "state_wf toy_crypto demo_state0"
  using balance_genesis_wf [OF MININET_length, of toy_crypto 50 demo_alloc demo_state0] demo_genesis
  by (simp add: with_genesis_balances_def)

lemma demo_claim_ok:
  assumes "amount \<noteq> 0"
  shows "verify_claim_signature toy_crypto (demo_claim amount sq) = Inr ()" "pc_payer (demo_claim amount sq) = demo_key 1"
    "pc_payee (demo_claim amount sq) = demo_key 2" "pc_amount_micro (demo_claim amount sq) = amount"
    "pc_sequence (demo_claim amount sq) = sq" "pc_network_id (demo_claim amount sq) = MININET_NETWORK_ID"
    "pc_last_known_chain (demo_claim amount sq) = []"
proof -
  have "c_ed_public toy_crypto [1] = demo_key 1" by (simp add: toy_crypto_def demo_key_def)
  with signed_claim_verifies [OF toy_crypto_ok(2) assms, of 0 10 "[1]" "demo_key 2" sq MININET_NETWORK_ID "[]"]
  show "verify_claim_signature toy_crypto (demo_claim amount sq) = Inr ()" "pc_payer (demo_claim amount sq) = demo_key 1"
    "pc_payee (demo_claim amount sq) = demo_key 2" "pc_amount_micro (demo_claim amount sq) = amount"
    "pc_sequence (demo_claim amount sq) = sq" "pc_network_id (demo_claim amount sq) = MININET_NETWORK_ID"
    by (auto simp: demo_claim_def sign_claim_def)
  from assms show "pc_last_known_chain (demo_claim amount sq) = []"
    by (simp add: demo_claim_def sign_claim_def sign_claim_for_network_def DEFAULT_SUITE_def from_seed_def sk_sign_def Let_def)
qed

text \<open>A body of transparent claims within the limit never fails on a well-formed state.\<close>

lemma claims_block:
  assumes C: "digests_ok C" and wf: "state_wf C s" and l: "length cs \<le> MAX_CLAIMS_PER_BLOCK"
  shows "\<exists>s'. apply_block C s (body_new cs) = Inr s' \<and> state_wf C s'
    \<and> accounts s' = fold (settle C (ls_network_id s)) cs (accounts s)"
proof -
  from all_claims [OF C, of s cs] wf obtain s' where s: "apply_claims C s cs = Inr s'" "same_rest s s'"
    "accounts s' = fold (settle C (ls_network_id s)) cs (accounts s)" by (auto simp: state_wf_def)
  have "supply_ok s'" using wf same_restD [OF s(2)] by (simp add: state_wf_def supply_ok_def shielded_pool_def)
  then have "apply_block C s (body_new cs) = Inr s'"
    using l s(1) by (simp add: apply_block_def apply_block_with_verifier_def body_new_def apply_nullifiers_def
        apply_monetary_def verify_supply_iff not_less)
  moreover from this have "state_wf C s'"
    unfolding apply_block_def by (rule block_wf [OF C wf, rotated]) (simp add: body_typed_def body_new_def)
  ultimately show ?thesis using s(3) by blast
qed

lemma view_accounts:
  "finalized_sequence (state_view s) p = map_option fst (ac_mark (accounts s) p)"
  "finalized_claim_digest (state_view s) p n =
     (case ac_mark (accounts s) p of None \<Rightarrow> None | Some (m, d) \<Rightarrow> if m = n then Some d else None)"
  "rejected_claim (state_view s) d = ac_refused (accounts s) d"
  by (simp_all add: state_view_def accounts_def)

lemma reconcile_accounts:
  "reconcile C c (state_view s) now = Inr Finalized \<longleftrightarrow> verify_claim_signature C c = Inr ()
     \<and> ac_mark (accounts s) (pc_payer c) = Some (pc_sequence c, claim_digest C c)
     \<and> ac_refused (accounts s) (claim_digest C c) = None"
  by (auto simp: reconcile_Finalized view_accounts)

lemma paid_claims_signed:
  "c \<in> set (paid_claims C network A cs) \<Longrightarrow> verify_claim_signature C c = Inr () \<and> pc_network_id c = network"
  by (induction cs arbitrary: A) (auto simp: judge_def split: if_splits)

lemma paid_claims_subseq: "subseq (paid_claims C network A cs) cs"
  by (induction cs arbitrary: A) (auto intro: subseq_Cons')

definition demo_chain0 :: LedgerChain where "demo_chain0 = chain_of_state demo_state0"

lemma demo_chain0_reach: "chain_reach toy_crypto demo_chain0"
proof (rule balance_genesis [OF MININET_length])
  show "genesis_with_network_balances toy_crypto MININET_NETWORK_ID 50 demo_alloc = Inr demo_chain0"
    using demo_genesis by (simp add: genesis_with_network_balances_def with_genesis_balances_def demo_chain0_def)
qed

lemma demo_judge:
  "judge toy_crypto MININET_NETWORK_ID (accounts demo_state0) (demo_claim 30 1) = Paid"
  by (simp add: judge_def demo_claim_ok toy_supported stale_def short_of_funds_def accounts_def demo_state0_def
      demo_alloc_def bal_def)

definition demo_state1 :: LedgerState where
  "demo_state1 = projr (apply_block toy_crypto demo_state0 (body_new [demo_claim 30 1]))"

lemma demo_block1:
  "apply_block toy_crypto demo_state0 (body_new [demo_claim 30 1]) = Inr demo_state1" "state_wf toy_crypto demo_state1"
  "accounts demo_state1 = settle toy_crypto MININET_NETWORK_ID (demo_claim 30 1) (accounts demo_state0)"
  "ls_network_id demo_state1 = MININET_NETWORK_ID"
proof -
  have n: "ls_network_id demo_state0 = MININET_NETWORK_ID" by (simp add: demo_state0_def)
  from claims_block [OF toy_crypto_ok(1) demo_wf, of "[demo_claim 30 1]"] n
  show b: "apply_block toy_crypto demo_state0 (body_new [demo_claim 30 1]) = Inr demo_state1" "state_wf toy_crypto demo_state1"
    "accounts demo_state1 = settle toy_crypto MININET_NETWORK_ID (demo_claim 30 1) (accounts demo_state0)"
    by (auto simp: demo_state1_def MAX_CLAIMS_PER_BLOCK_def)
  have "accounts_wf toy_crypto demo_state0" using demo_wf by (simp add: state_wf_def)
  from block_accounts(2) [OF toy_crypto_ok(1) this b(1) [unfolded apply_block_def]] n
  show "ls_network_id demo_state1 = MININET_NETWORK_ID" by simp
qed

lemma demo_finalized: "reconcile toy_crypto (demo_claim 30 1) (state_view demo_state1) now = Inr Finalized"
  by (simp add: reconcile_accounts demo_claim_ok demo_block1(3) settle_def demo_judge Let_def)

section \<open>Properties\<close>

text \<open>Property (C7): the state of every chain is well formed. Whatever blocks, certificates and verifiers
  a chain was fed, its maps are sorted, every account that holds a balance or a mark is a supported
  account, no stored balance is zero, every digest has 32 bytes, the shielded ledger is within its
  limits, and both supply checks of the code succeed: the balances add up to the allocated supply,
  and allocated, unallocated and shielded supply add up to exactly what circulates.\<close>

theorem reachable_state_well_formed:
  assumes "digests_ok C" "chain_reach C ch"
  shows "state_wf C (lc_state ch)
    \<and> verify_supply_conservation (lc_state ch) = Inr () \<and> verify_balance_map_total (lc_state ch) = Inr ()"
  using chain_reach_wf [OF assms]
  by (simp add: verify_supply_iff verify_balance_total_iff) (simp add: state_wf_def accounts_wf_def)

theorem reachable_state_well_formed_witness:
  "chain_reach toy_crypto demo_chain0 \<and> state_wf toy_crypto (lc_state demo_chain0)"
  using reachable_state_well_formed [OF toy_crypto_ok(1) demo_chain0_reach] demo_chain0_reach by blast

text \<open>Property (C3): payments refine an account ledger. On the state of any chain, applying any list of
  claims succeeds, changes nothing but balances, marks and refusals, and does to these exactly what
  the abstract ledger does: an unsigned claim is ignored, a claim for another network, to an
  unsupported account, at a used sequence or beyond the balance is refused for that reason, and any
  other claim pays, on unbounded numbers, and takes its slot.\<close>

theorem claims_refine_accounts:
  assumes "digests_ok C" "chain_reach C ch"
  shows "\<exists>s'. apply_claims C (lc_state ch) cs = Inr s' \<and> same_rest (lc_state ch) s'
    \<and> accounts s' = fold (settle C (ls_network_id (lc_state ch))) cs (accounts (lc_state ch))"
  using all_claims [OF assms(1), of "lc_state ch" cs] chain_reach_wf [OF assms] by (auto simp: state_wf_def)

theorem claims_refine_accounts_witness:
  "chain_reach toy_crypto demo_chain0 \<and> (\<exists>s'. apply_claims toy_crypto (lc_state demo_chain0) [demo_claim 30 1] = Inr s'
     \<and> unat (balance s' (demo_key 1)) = 20 \<and> unat (balance s' (demo_key 2)) = 30)"
proof -
  have l: "lc_state demo_chain0 = demo_state0" by (simp add: demo_chain0_def chain_of_state_def)
  have n: "ls_network_id demo_state0 = MININET_NETWORK_ID" by (simp add: demo_state0_def)
  have "ac_bal (settle toy_crypto MININET_NETWORK_ID (demo_claim 30 1) (accounts demo_state0)) (demo_key 1) = 20"
    "ac_bal (settle toy_crypto MININET_NETWORK_ID (demo_claim 30 1) (accounts demo_state0)) (demo_key 2) = 30"
    by (simp_all add: settle_def demo_judge demo_claim_ok Let_def demo_key_def)
       (simp_all add: accounts_def demo_state0_def demo_alloc_def bal_def demo_key_def)
  moreover have "unat (balance s' a) = ac_bal (accounts s') a" for s' a by (simp add: unat_balance accounts_def)
  ultimately show ?thesis
    using claims_refine_accounts [OF toy_crypto_ok(1) demo_chain0_reach, of "[demo_claim 30 1]"] demo_chain0_reach
    by (auto simp: l n)
qed

text \<open>Property (C4): balances are explained by the claims that paid, each of them once. For any run of
  blocks on the state of a chain there is a selection, in order, of the claims they contain, all
  signed by their payer for this network, with strictly increasing sequence numbers per payer, so
  that every account's balance is what it was, plus what the selected claims paid to it, minus what
  they paid from it.\<close>

theorem balances_explained:
  assumes "digests_ok C" "chain_reach C ch" "list_all (\<lambda>b. body_typed (fst b)) bs"
    and "run_blocks C (lc_state ch) bs = Inr s'"
  shows "\<exists>ps. subseq ps (concat (map (\<lambda>b. bb_claims (fst b)) bs))
    \<and> (\<forall>c \<in> set ps. verify_claim_signature C c = Inr () \<and> pc_network_id c = ls_network_id (lc_state ch))
    \<and> sorted_wrt (\<lambda>a b. pc_payer a = pc_payer b \<longrightarrow> pc_sequence a < pc_sequence b) ps
    \<and> (\<forall>a. unat (balance s' a) + (\<Sum>c\<leftarrow>filter (\<lambda>c. pc_payer c = a) ps. unat (pc_amount_micro c))
         = unat (balance (lc_state ch) a) + (\<Sum>c\<leftarrow>filter (\<lambda>c. pc_payee c = a) ps. unat (pc_amount_micro c)))"
proof -
  let ?A = "accounts (lc_state ch)" and ?n = "ls_network_id (lc_state ch)"
  let ?ps = "paid_claims C ?n ?A (claims_of bs)"
  have "accounts s' = fold (settle C ?n) (claims_of bs) ?A"
    by (rule run_blocks_accounts [OF assms(1) chain_reach_wf [OF assms(1,2)] assms(3,4)])
  moreover have "unat (balance s a) = ac_bal (accounts s) a" for s a by (simp add: unat_balance accounts_def)
  ultimately show ?thesis
    using paid_claims_subseq [of C ?n ?A "claims_of bs"] paid_claims_sorted [of C ?n ?A "claims_of bs"]
      paid_claims_signed [of _ C ?n ?A "claims_of bs"] paid_claims_balance [of C ?n "claims_of bs" ?A]
    by (intro exI [of _ ?ps]) (simp add: slot_order_def [abs_def] amount_sum_def claims_of_def)
qed

theorem balances_explained_witness:
  "run_blocks toy_crypto (lc_state demo_chain0) [(body_new [demo_claim 30 1], None)] = Inr demo_state1
   \<and> (\<exists>ps. subseq ps [demo_claim 30 1]
        \<and> unat (balance demo_state1 (demo_key 2)) + (\<Sum>c\<leftarrow>filter (\<lambda>c. pc_payer c = demo_key 2) ps. unat (pc_amount_micro c))
           = (\<Sum>c\<leftarrow>filter (\<lambda>c. pc_payee c = demo_key 2) ps. unat (pc_amount_micro c)))"
proof -
  have r: "run_blocks toy_crypto (lc_state demo_chain0) [(body_new [demo_claim 30 1], None)] = Inr demo_state1"
    using demo_block1(1) by (simp add: demo_chain0_def chain_of_state_def apply_block_def)
  have t: "list_all (\<lambda>b. body_typed (fst b)) [(body_new [demo_claim 30 1], None)]"
    by (simp add: body_typed_def body_new_def)
  have z: "balance (lc_state demo_chain0) (demo_key 2) = 0"
    by (simp add: demo_chain0_def chain_of_state_def balance_def demo_state0_def demo_alloc_def demo_key_def)
  from balances_explained [OF toy_crypto_ok(1) demo_chain0_reach t r] obtain ps where
    "subseq ps [demo_claim 30 1]"
    "\<forall>a. unat (balance demo_state1 a) + (\<Sum>c\<leftarrow>filter (\<lambda>c. pc_payer c = a) ps. unat (pc_amount_micro c))
       = unat (balance (lc_state demo_chain0) a) + (\<Sum>c\<leftarrow>filter (\<lambda>c. pc_payee c = a) ps. unat (pc_amount_micro c))"
    by (auto simp: body_new_def)
  with r z show ?thesis by (intro conjI exI [of _ ps]) simp_all
qed

text \<open>Property (C13): no slot has two winners. If reconciliation calls one claim final on a ledger and
  another final, at the same payer and sequence, on the ledger any number of blocks later, the two
  are the same signed promise, unless they exhibit a BLAKE3 collision.\<close>

theorem one_winner_per_slot:
  assumes "(ledger_move C)\<^sup>*\<^sup>* s s'"
    and "reconcile C c (state_view s) now = Inr Finalized" "reconcile C c' (state_view s') now' = Inr Finalized"
    and "pc_payer c = pc_payer c'" "pc_sequence c = pc_sequence c'" "claim_sized c" "claim_sized c'"
  shows "c' = c\<lparr>pc_signature := pc_signature c'\<rparr> \<or> collides C (message_of c) (message_of c')"
  by (rule claim_digest_eqD [OF assms(6,7) chain_ledger.one_winner [OF assms(1-5)]])

theorem one_winner_per_slot_witness:
  "ledger_move toy_crypto demo_state0 demo_state1
   \<and> reconcile toy_crypto (demo_claim 30 1) (state_view demo_state1) 0 = Inr Finalized
   \<and> reconcile toy_crypto (demo_claim 30 1) (state_view demo_state1) 99 = Inr Finalized
   \<and> (demo_claim 30 1 = (demo_claim 30 1)\<lparr>pc_signature := pc_signature (demo_claim 30 1)\<rparr>
      \<or> collides toy_crypto (message_of (demo_claim 30 1)) (message_of (demo_claim 30 1)))"
proof -
  have "claim_sized (demo_claim 30 1)" by (simp add: claim_sized_def demo_claim_ok)
  from one_winner_per_slot [OF rtranclp.rtrancl_refl demo_finalized demo_finalized refl refl this this]
  show ?thesis using demo_finalized demo_block1(1) by (auto simp: ledger_move_def apply_block_def)
qed

text \<open>A claim that is included a second time is stale, whatever its digest.\<close>

lemma repeated_claim_refused:
  assumes "digests_ok C" "chain_reach C ch" "reconcile C c (state_view (lc_state ch)) now = Inr Finalized"
    and "pc_network_id c = ls_network_id (lc_state ch)" "is_supported_account C (pc_payee c)"
  shows "\<exists>s'. apply_block C (lc_state ch) (body_new [c]) = Inr s'
    \<and> (\<forall>a. balance s' a = balance (lc_state ch) a)
    \<and> finalized_claim_digest (state_view s') (pc_payer c) (pc_sequence c) = Some (claim_digest C c)
    \<and> reconcile C c (state_view s') now = Inr (RejectedCanonical StaleSequence)"
proof -
  let ?s = "lc_state ch"
  from claims_block [OF assms(1) chain_reach_wf [OF assms(1,2)], of "[c]"] obtain s' where
    s: "apply_block C ?s (body_new [c]) = Inr s'" "accounts s' = settle C (ls_network_id ?s) c (accounts ?s)"
    by (auto simp: MAX_CLAIMS_PER_BLOCK_def)
  from assms(3) have f: "verify_claim_signature C c = Inr ()"
    "ac_mark (accounts ?s) (pc_payer c) = Some (pc_sequence c, claim_digest C c)" by (simp_all add: reconcile_accounts)
  then have "judge C (ls_network_id ?s) (accounts ?s) c = Refused StaleSequence"
    using assms(4,5) by (simp add: judge_def stale_def)
  then have a: "accounts s' = (accounts ?s)\<lparr>ac_refused := (ac_refused (accounts ?s))(claim_digest C c \<mapsto> StaleSequence)\<rparr>"
    by (simp add: s(2) settle_def)
  then have "bal (ls_balances s') = bal (ls_balances ?s)" by (simp add: accounts_def)
  then have "\<forall>a. balance s' a = balance ?s a" by (simp add: word_unat_eq_iff unat_balance)
  moreover have "reconcile C c (state_view s') now = Inr (RejectedCanonical StaleSequence)"
    by (simp add: reconcile_def f(1) view_accounts a)
  ultimately show ?thesis using s(1) f(2) by (intro exI [of _ s']) (simp add: view_accounts a)
qed

text \<open>Once the payer's next claim pays, the mark has moved past the earlier slot.\<close>

lemma overtaken_claim_refused:
  assumes "digests_ok C" "chain_reach C ch" "reconcile C c (state_view (lc_state ch)) now = Inr Finalized"
    and "pc_payer c' = pc_payer c" "judge C (ls_network_id (lc_state ch)) (accounts (lc_state ch)) c' = Paid"
  shows "\<exists>s'. apply_block C (lc_state ch) (body_new [c']) = Inr s' \<and> reconcile C c' (state_view s') now = Inr Finalized
    \<and> reconcile C c (state_view s') now = Inr RejectedConflict"
proof -
  let ?s = "lc_state ch"
  from claims_block [OF assms(1) chain_reach_wf [OF assms(1,2)], of "[c']"] obtain s' where
    s: "apply_block C ?s (body_new [c']) = Inr s'" "accounts s' = settle C (ls_network_id ?s) c' (accounts ?s)"
    by (auto simp: MAX_CLAIMS_PER_BLOCK_def)
  from assms(3) have f: "verify_claim_signature C c = Inr ()" "ac_refused (accounts ?s) (claim_digest C c) = None"
    "ac_mark (accounts ?s) (pc_payer c) = Some (pc_sequence c, claim_digest C c)" by (simp_all add: reconcile_accounts)
  with assms(4,5) have n: "verify_claim_signature C c' = Inr ()" "pc_sequence c < pc_sequence c'"
    by (auto simp: judge_def stale_def split: if_splits)
  have a: "ac_mark (accounts s') (pc_payer c) = Some (pc_sequence c', claim_digest C c')"
    "ac_refused (accounts s') (claim_digest C c') = None" "ac_refused (accounts s') (claim_digest C c) = None"
    using f(2) assms(4) by (simp_all add: s(2) settle_def assms(5) Let_def)
  have "reconcile C c (state_view s') now = Inr RejectedConflict"
    using n(2) by (auto simp: reconcile_def f(1) view_accounts a slot_outcome_def)
  moreover have "reconcile C c' (state_view s') now = Inr Finalized" by (simp add: reconcile_accounts n(1) a assms(4))
  ultimately show ?thesis using s(1) by blast
qed

text \<open>Property (C39): a final answer does not last. Let reconciliation call a claim final on a chain. If a later
  block includes the claim again, no money moves and the slot keeps its winner, but reconciliation
  now reports the claim as canonically rejected for a stale sequence. If a later block pays the next
  claim of the same payer, that claim is final and the earlier one, although it paid, is reported as
  lost to a conflicting claim.\<close>

theorem final_report_does_not_last:
  assumes "digests_ok C" "chain_reach C ch" "reconcile C c (state_view (lc_state ch)) now = Inr Finalized"
    and "pc_network_id c = ls_network_id (lc_state ch)" "is_supported_account C (pc_payee c)"
    and "pc_payer c' = pc_payer c" "judge C (ls_network_id (lc_state ch)) (accounts (lc_state ch)) c' = Paid"
  shows "(\<exists>s'. apply_block C (lc_state ch) (body_new [c]) = Inr s'
      \<and> (\<forall>a. balance s' a = balance (lc_state ch) a)
      \<and> finalized_claim_digest (state_view s') (pc_payer c) (pc_sequence c) = Some (claim_digest C c)
      \<and> reconcile C c (state_view s') now = Inr (RejectedCanonical StaleSequence))
    \<and> (\<exists>s'. apply_block C (lc_state ch) (body_new [c']) = Inr s'
      \<and> reconcile C c' (state_view s') now = Inr Finalized
      \<and> reconcile C c (state_view s') now = Inr RejectedConflict)"
  using repeated_claim_refused [OF assms(1-5)] overtaken_claim_refused [OF assms(1-3,6,7)] by blast

text \<open>The chain after the first block, behind a certificate of the one validator.\<close>

definition demo_header1 :: BlockHeader where
  "demo_header1 =
     \<lparr>bh_height = 1, bh_prev_hash = replicate 32 0, bh_state_root = state_commitment toy_crypto demo_state1,
      bh_body_root = body_hash toy_crypto (body_new [demo_claim 30 1]), bh_timestamp_ms = 1,
      bh_proposer = replicate 32 7\<rparr>"

definition demo_chain1 :: LedgerChain where
  "demo_chain1 = \<lparr>lc_height = 1, lc_tip_hash = header_hash toy_crypto demo_header1, lc_state = demo_state1\<rparr>"

lemma demo_chain1_step:
  "apply_finalized_block_with_verifier toy_crypto demo_chain0 demo_header1 (body_new [demo_claim 30 1])
     (demo_qc (header_hash toy_crypto demo_header1)) demo_vs demo_oracle None
   = Inr (state_commitment toy_crypto demo_state1, demo_chain1)"
proof -
  have h: "bh_height demo_header1 = 1" "bh_prev_hash demo_header1 = replicate 32 0" "bh_timestamp_ms demo_header1 = 1"
    "bh_state_root demo_header1 = state_commitment toy_crypto demo_state1"
    "bh_body_root demo_header1 = body_hash toy_crypto (body_new [demo_claim 30 1])"
    by (simp_all add: demo_header1_def)
  have b: "apply_block_with_verifier toy_crypto demo_state0 (body_new [demo_claim 30 1]) None = Inr demo_state1"
    using demo_block1(1) by (simp add: apply_block_def)
  have c: "lc_state demo_chain0 = demo_state0" "lc_height demo_chain0 = 0" "lc_tip_hash demo_chain0 = replicate 32 0"
    by (simp_all add: demo_chain0_def chain_of_state_def)
  have q: "qc_height (demo_qc x) = 1" "qc_block_hash (demo_qc x) = x" for x by (simp_all add: demo_qc_def)
  have l: "length (bb_claims (body_new [demo_claim 30 1])) = 1" "bb_monetary_epochs (body_new [demo_claim 30 1]) = []"
    by (simp_all add: body_new_def)
  have k: "ck_add (0 :: u64) 1 = Inr 1" by (simp add: ck_add_def checked_add_def)
  show ?thesis
    unfolding apply_finalized_block_with_verifier_def c b h q demo_qc_final l k demo_chain1_def
    by (simp add: MAX_CLAIMS_PER_BLOCK_def MAX_MONETARY_EPOCHS_PER_BLOCK_def)
qed

lemma demo_chain1_reach: "chain_reach toy_crypto demo_chain1"
  by (rule chain_reach.block [OF demo_chain0_reach _ demo_chain1_step]) (simp add: body_typed_def body_new_def)

lemma demo_next_paid:
  "judge toy_crypto (ls_network_id demo_state1) (accounts demo_state1) (demo_claim 20 2) = Paid"
proof -
  have k: "demo_key 2 \<noteq> demo_key 1" "length (demo_key 2) = 32" by (simp_all add: demo_key_def)
  have b: "ac_bal (accounts demo_state0) (demo_key 1) = 50"
    by (simp add: accounts_def demo_state0_def demo_alloc_def bal_def)
  have "ac_mark (accounts demo_state1) (demo_key 1) = Some (1, claim_digest toy_crypto (demo_claim 30 1))"
    "ac_bal (accounts demo_state1) (demo_key 1) = 20"
    using k by (simp_all add: demo_block1(3) settle_def demo_judge demo_claim_ok Let_def b)
  then show ?thesis
    by (simp add: demo_block1(4) judge_def demo_claim_ok toy_supported k stale_def short_of_funds_def word_le_nat_alt)
qed

theorem final_report_does_not_last_witness:
  "reconcile toy_crypto (demo_claim 30 1) (state_view (lc_state demo_chain1)) 0 = Inr Finalized
   \<and> (\<exists>s'. apply_block toy_crypto (lc_state demo_chain1) (body_new [demo_claim 30 1]) = Inr s'
        \<and> reconcile toy_crypto (demo_claim 30 1) (state_view s') 0 = Inr (RejectedCanonical StaleSequence))
   \<and> (\<exists>s'. apply_block toy_crypto (lc_state demo_chain1) (body_new [demo_claim 20 2]) = Inr s'
        \<and> reconcile toy_crypto (demo_claim 20 2) (state_view s') 0 = Inr Finalized
        \<and> reconcile toy_crypto (demo_claim 30 1) (state_view s') 0 = Inr RejectedConflict)"
proof -
  have l: "lc_state demo_chain1 = demo_state1" by (simp add: demo_chain1_def)
  have f: "reconcile toy_crypto (demo_claim 30 1) (state_view (lc_state demo_chain1)) 0 = Inr Finalized"
    unfolding l by (rule demo_finalized)
  have n: "pc_network_id (demo_claim 30 1) = ls_network_id (lc_state demo_chain1)"
    by (simp add: l demo_claim_ok demo_block1(4))
  have a: "is_supported_account toy_crypto (pc_payee (demo_claim 30 1))" by (simp add: toy_supported demo_claim_ok)
  have p: "pc_payer (demo_claim 20 2) = pc_payer (demo_claim 30 1)" by (simp add: demo_claim_ok)
  have j: "judge toy_crypto (ls_network_id (lc_state demo_chain1)) (accounts (lc_state demo_chain1)) (demo_claim 20 2) = Paid"
    by (simp add: l demo_next_paid)
  from final_report_does_not_last [OF toy_crypto_ok(1) demo_chain1_reach f n a p j] f show ?thesis by blast
qed

text \<open>Property (C12): a shielded spend is all or nothing and spends nothing twice. An applied block keeps
  every key image with the claim that first took it; and where it gives a key image to a claim that
  did not hold it, that image was free, the verifier accepted exactly the records of that claim in
  the block, and all of their key images now belong to that claim.\<close>

theorem shielded_spends_atomic:
  assumes "apply_block_with_verifier C s body v = Inr s'"
  shows "(\<forall>k d. finalized_nullifier s k = Some d \<longrightarrow> finalized_nullifier s' k = Some d)
    \<and> (\<forall>k d. finalized_nullifier s' k = Some d \<longrightarrow> finalized_nullifier s k \<noteq> Some d \<longrightarrow>
         finalized_nullifier s k = None
         \<and> (let g = filter (\<lambda>r. nr_claim_digest r = d) (bb_nullifiers body) in
              k \<in> nr_key_image ` set g
              \<and> (\<exists>verifier. v = Some verifier \<and> verify_claim verifier (ls_network_id s) d g \<noteq> None)
              \<and> (\<forall>r \<in> set g. finalized_nullifier s' (nr_key_image r) = Some d)))"
proof -
  from block_Inr [OF assms] obtain s1 s2 where s: "apply_claims C s (bb_claims body) = Inr s1"
    "apply_nullifiers s1 (bb_nullifiers body) v = Inr s2" "apply_monetary s2 (bb_monetary_epochs body) = Inr s'" by blast
  have "ls_nullifiers s' = ls_nullifiers s2" using s(3) by (auto simp: apply_monetary_def split: list.splits)
  then have n': "finalized_nullifier s' = finalized_nullifier s2" by (simp add: finalized_nullifier_def fun_eq_iff)
  have "same_rest s s1" by (rule claims_same_rest [OF s(1)])
  then have n: "finalized_nullifier s1 = finalized_nullifier s" "ls_network_id s1 = ls_network_id s"
    using same_restD [of s s1] by (simp_all add: finalized_nullifier_def fun_eq_iff)
  from apply_nullifiers_Inr [OF s(2)] show ?thesis
  proof (elim disjE exE conjE)
    fix vf order groups
    assume g: "v = Some vf" "grouped (bb_nullifiers body) order groups" "apply_groups vf groups s1 order = Inr s2"
    have "g = filter (\<lambda>r. nr_claim_digest r = d) (bb_nullifiers body)" if "map_of groups d = Some g" for d g
      using that g(2) by (auto simp: grouped_def Let_def split: if_splits)
    with apply_groups_facts [OF g(3)] g(1) show ?thesis
      unfolding n n' shielded_step_def Let_def by blast
  qed (simp add: n n')
qed

text \<open>A shielded genesis with one output and a claim that spends it with a fee.\<close>

definition demo_output :: "u8 \<Rightarrow> ShieldedOutput" where
  "demo_output b = \<lparr>so_public_key = replicate 32 b, so_amount_commitment = replicate 32 2\<rparr>"

definition demo_verifier :: ClaimVerifier where
  "demo_verifier =
     \<lparr>verify_claim = (\<lambda>_ _ _. Some \<lparr>sc_ring_members = [demo_output 1], sc_outputs = [demo_output 3], sc_fee_micro = 1\<rparr>),
      verify_genesis_allocation = (\<lambda>_ _. True)\<rparr>"

definition demo_pool :: ShieldedLedger where
  "demo_pool = \<lparr>sl_genesis = [\<lparr>sg_output = demo_output 1, sg_amount_micro = 5\<rparr>],
     sl_outputs = [(replicate 32 1, replicate 32 2)], sl_applied = [], sl_pool_micro = 5\<rparr>"

definition demo_shielded :: LedgerState where
  "demo_shielded =
     (with_network_and_genesis_supply MININET_NETWORK_ID 5)\<lparr>ls_unallocated_circulating := 0, ls_shielded := demo_pool\<rparr>"

definition demo_spend :: SettlementBlockBody where
  "demo_spend = with_nullifiers (body_new []) [\<lparr>nr_key_image = [9], nr_claim_digest = replicate 32 8\<rparr>]"

definition demo_spent :: LedgerState where
  "demo_spent =
     demo_shielded\<lparr>ls_unallocated_circulating := 1, ls_nullifiers := [([9], replicate 32 8)],
       ls_shielded := demo_pool\<lparr>sl_pool_micro := 4, sl_applied := [replicate 32 8],
         sl_outputs := [(replicate 32 1, replicate 32 2), (replicate 32 3, replicate 32 2)]\<rparr>\<rparr>"

lemma demo_spend_pool:
  "sl_apply demo_pool (replicate 32 8) \<lparr>sc_ring_members = [demo_output 1], sc_outputs = [demo_output 3], sc_fee_micro = 1\<rparr>
     = Inr (1, ls_shielded demo_spent)"
proof -
  have "(1 :: u8) < 3" by simp
  then have k: "replicate 32 (1 :: u8) < replicate 32 3" "replicate 32 (3 :: u8) \<noteq> replicate 32 1"
    by (simp_all add: numeral_eq_Suc)
  have m: "(1 :: nat) + 1 \<le> MAX_OUTPUTS" "\<not> MAX_RING_MEMBERS < 1" "\<not> MAX_OUTPUTS \<le> 0"
    by (simp_all add: MAX_OUTPUTS_def MAX_RING_MEMBERS_def MAX_LEDGER_SNAPSHOT_ENTRIES_def)
  have c: "checked_sub (5 :: u128) 1 = Some 4" by (simp add: checked_sub_def)
  from k m c show ?thesis
    by (simp add: sl_apply_def demo_pool_def demo_spent_def demo_output_def so_well_formed_def del: replicate_eq_replicate)
qed

lemma demo_spend_applies: "apply_block_with_verifier toy_crypto demo_shielded demo_spend (Some demo_verifier) = Inr demo_spent"
proof -
  have a: "amount_add 0 (ucast (1 :: u64)) = Inr 1" by (simp add: amount_add_def checked_add_def)
  have n: "apply_nullifiers demo_shielded (bb_nullifiers demo_spend) (Some demo_verifier) = Inr demo_spent"
    using demo_spend_pool a
    by (simp add: apply_nullifiers_def demo_spend_def with_nullifiers_def nr_is_well_formed_def MAX_KEY_IMAGE_BYTES_def
        push_group_def demo_verifier_def demo_shielded_def with_network_and_genesis_supply_def demo_spent_def
        del: amount_add_Inr)
  have "supply_ok demo_spent"
    by (simp add: supply_ok_def demo_spent_def demo_shielded_def with_network_and_genesis_supply_def shielded_pool_def)
  with n show ?thesis
    by (simp add: apply_block_with_verifier_def verify_supply_iff)
       (simp add: demo_spend_def with_nullifiers_def body_new_def apply_monetary_def verify_supply_iff MAX_CLAIMS_PER_BLOCK_def
         MAX_MONETARY_EPOCHS_PER_BLOCK_def MAX_NULLIFIERS_PER_BLOCK_def)
qed

theorem shielded_spends_atomic_witness:
  "apply_block_with_verifier toy_crypto demo_shielded demo_spend (Some demo_verifier) = Inr demo_spent
   \<and> finalized_nullifier demo_spent [9] = Some (replicate 32 8) \<and> finalized_nullifier demo_shielded [9] = None"
proof -
  have "finalized_nullifier demo_spent [9] = Some (replicate 32 8)" "finalized_nullifier demo_shielded [9] \<noteq> Some (replicate 32 8)"
    by (simp_all add: finalized_nullifier_def demo_spent_def demo_shielded_def with_network_and_genesis_supply_def)
  with shielded_spends_atomic [OF demo_spend_applies] demo_spend_applies show ?thesis by blast
qed

end
