(* ===== verification/StateRoot.thy ===== *)
theory StateRoot
  imports ExecutionProps
begin

text \<open>
  The state root of a block header identifies the ledger state: the bytes that
  \<open>LedgerState::commitment\<close> hashes are an injective encoding of well-formed states. So two chains,
  however they were advanced or restored, that stand on the same header hold the same state.
\<close>

section \<open>The rows of the encoding\<close>

definition put_mark :: "bytes \<times> u64 \<times> bytes \<Rightarrow> bytes" where
  "put_mark e = put_bytes (fst e) @ to_be64 (fst (snd e)) @ snd (snd e)"

definition mark_ok :: "bytes \<times> u64 \<times> bytes \<Rightarrow> bool" where
  "mark_ok e = (length (fst e) < 2 ^ 32 \<and> length (snd (snd e)) = 32)"

definition put_refusal :: "bytes \<times> CanonicalRejection \<Rightarrow> bytes" where
  "put_refusal e = fst e @ [exec_rejection_tag (snd e)]"

definition put_image :: "bytes \<times> bytes \<Rightarrow> bytes" where
  "put_image e = put_bytes (fst e) @ snd e"

definition put_balance :: "bytes \<times> Amount \<Rightarrow> bytes" where
  "put_balance e = put_bytes (fst e) @ to_be128 (snd e)"

definition put_pair :: "bytes \<times> bytes \<Rightarrow> bytes" where
  "put_pair e = fst e @ snd e"

definition put_allocation :: "ShieldedGenesisAllocation \<Rightarrow> bytes" where
  "put_allocation a = so_public_key (sg_output a) @ so_amount_commitment (sg_output a) @ to_be64 (sg_amount_micro a)"

lemma rejection_tag_inject [simp]: "exec_rejection_tag a = exec_rejection_tag b \<longleftrightarrow> a = b"
  by (cases a; cases b) simp_all

interpretation mark: prefix_code put_mark mark_ok
proof
  fix x y :: "bytes \<times> u64 \<times> bytes" and r s
  assume ok: "mark_ok x" "mark_ok y" and e: "put_mark x @ r = put_mark y @ s"
  from e have "put_bytes (fst x) @ to_be64 (fst (snd x)) @ snd (snd x) @ r = put_bytes (fst y) @ to_be64 (fst (snd y)) @ snd (snd y) @ s"
    by (simp add: put_mark_def)
  from bytes32.split [OF _ _ this] ok have "fst x = fst y" "to_be64 (fst (snd x)) @ snd (snd x) @ r = to_be64 (fst (snd y)) @ snd (snd y) @ s"
    by (simp_all add: mark_ok_def)
  with ok show "x = y \<and> r = s" by (auto simp: mark_ok_def prod_eq_iff)
qed

interpretation refusal: prefix_code put_refusal "\<lambda>e. length (fst e) = 32"
  by unfold_locales (auto simp: put_refusal_def prod_eq_iff)

interpretation image: prefix_code put_image "\<lambda>e. length (fst e) < 2 ^ 32 \<and> length (snd e) = 32"
proof
  fix x y :: "bytes \<times> bytes" and r s
  assume ok: "length (fst x) < 2 ^ 32 \<and> length (snd x) = 32" "length (fst y) < 2 ^ 32 \<and> length (snd y) = 32"
    and e: "put_image x @ r = put_image y @ s"
  from bytes32.split [of "fst x" "fst y" "snd x @ r" "snd y @ s"] ok e have "fst x = fst y" "snd x @ r = snd y @ s"
    by (simp_all add: put_image_def)
  with ok show "x = y \<and> r = s" by (simp add: prod_eq_iff)
qed

interpretation balance_row: prefix_code put_balance "\<lambda>e. length (fst e) < 2 ^ 32"
proof
  fix x y :: "bytes \<times> Amount" and r s
  assume ok: "length (fst x) < 2 ^ 32" "length (fst y) < 2 ^ 32" and e: "put_balance x @ r = put_balance y @ s"
  from bytes32.split [of "fst x" "fst y" "to_be128 (snd x) @ r" "to_be128 (snd y) @ s"] ok e
  have "fst x = fst y" "to_be128 (snd x) @ r = to_be128 (snd y) @ s" by (simp_all add: put_balance_def)
  then show "x = y \<and> r = s" by (simp add: prod_eq_iff)
qed

interpretation output_row: prefix_code put_pair "\<lambda>e. length (fst e) = 32 \<and> length (snd e) = 32"
  by unfold_locales (auto simp: put_pair_def prod_eq_iff)

interpretation digest_row: prefix_code "\<lambda>d. d" "\<lambda>d. length d = 32"
  by unfold_locales simp

interpretation allocation_row: prefix_code put_allocation "\<lambda>a. so_well_formed (sg_output a)"
  by unfold_locales (auto simp: put_allocation_def so_well_formed_def)

section \<open>The shielded ledger\<close>

lemma sl_to_bytes_rows:
  "sl_to_bytes sl = ascii ''mini-execution/shielded-ledger/v1''
     @ to_be32 (len32 (sl_genesis sl)) @ concat (map put_allocation (sl_genesis sl))
     @ to_be32 (len32 (sl_outputs sl)) @ concat (map put_pair (sl_outputs sl))
     @ to_be32 (len32 (sl_applied sl)) @ concat (map (\<lambda>d. d) (sl_applied sl))
     @ to_be128 (sl_pool_micro sl)"
  by (simp add: sl_to_bytes_def put_allocation_def [abs_def] put_pair_def [abs_def] split_def)

lemma shielded_rows:
  assumes "shielded_wf sl"
  shows "list_all (\<lambda>a. so_well_formed (sg_output a)) (sl_genesis sl)" "length (sl_genesis sl) < 2 ^ 32"
    "list_all (\<lambda>e. length (fst e) = 32 \<and> length (snd e) = 32) (sl_outputs sl)" "length (sl_outputs sl) < 2 ^ 32"
    "list_all (\<lambda>d. length d = 32) (sl_applied sl)" "length (sl_applied sl) < 2 ^ 32"
  using assms by (auto simp: shielded_wf_def list_all_iff MAX_OUTPUTS_def MAX_LEDGER_SNAPSHOT_ENTRIES_def)

interpretation shielded_row: prefix_code sl_to_bytes shielded_wf
proof
  fix x y :: ShieldedLedger and r s
  assume ok: "shielded_wf x" "shielded_wf y" and e: "sl_to_bytes x @ r = sl_to_bytes y @ s"
  note rx = shielded_rows [OF ok(1)] and ry = shielded_rows [OF ok(2)]
  let ?t2 = "\<lambda>l r. to_be32 (len32 (sl_applied l)) @ concat (map (\<lambda>d. d) (sl_applied l)) @ to_be128 (sl_pool_micro l) @ r"
  let ?t1 = "\<lambda>l r. to_be32 (len32 (sl_outputs l)) @ concat (map put_pair (sl_outputs l)) @ ?t2 l r"
  from e have e0: "to_be32 (len32 (sl_genesis x)) @ concat (map put_allocation (sl_genesis x)) @ ?t1 x r
      = to_be32 (len32 (sl_genesis y)) @ concat (map put_allocation (sl_genesis y)) @ ?t1 y s"
    by (simp add: sl_to_bytes_rows)
  from allocation_row.counted32 [OF e0 rx(1) ry(1) rx(2) ry(2)] have g: "sl_genesis x = sl_genesis y" and e1: "?t1 x r = ?t1 y s"
    by blast+
  from output_row.counted32 [OF e1 rx(3) ry(3) rx(4) ry(4)] have o: "sl_outputs x = sl_outputs y" and e2: "?t2 x r = ?t2 y s"
    by blast+
  from digest_row.counted32 [OF e2 rx(5) ry(5) rx(6) ry(6)]
  have "sl_applied x = sl_applied y" "sl_pool_micro x = sl_pool_micro y" "r = s" by simp_all
  with g o show "x = y \<and> r = s" by simp
qed

section \<open>The state\<close>

text \<open>The sizes that every memory bounds: each map has fewer than 2 to the 64 rows.\<close>

definition state_sized :: "LedgerState \<Rightarrow> bool" where
  "state_sized s =
     (length (ls_finalized s) < 2 ^ 64 \<and> length (ls_rejected s) < 2 ^ 64 \<and> length (ls_nullifiers s) < 2 ^ 64
      \<and> length (ls_balances s) < 2 ^ 64 \<and> length (ml_positions (ls_monetary s)) < 2 ^ 64)"

lemma state_bytes_rows:
  "state_bytes C s = ascii ''mini-execution/ledger-state/v5'' @ ls_network_id s
     @ to_be64 (len64 (ls_finalized s)) @ concat (map put_mark (ls_finalized s))
     @ to_be64 (len64 (ls_rejected s)) @ concat (map put_refusal (ls_rejected s))
     @ to_be64 (len64 (ls_nullifiers s)) @ concat (map put_image (ls_nullifiers s))
     @ sl_to_bytes (ls_shielded s) @ multihash_to_bytes (ledger_commitment C (ls_monetary s))
     @ to_be64 (len64 (ls_balances s)) @ concat (map put_balance (ls_balances s))
     @ to_be128 (ls_allocated_circulating s) @ to_be128 (ls_unallocated_circulating s)"
  by (simp add: state_bytes_def put_mark_def [abs_def] put_refusal_def [abs_def] put_image_def [abs_def]
      put_balance_def [abs_def] put_bytes_def split_def)

lemma commitment_split:
  assumes "digests_ok C"
    and "multihash_to_bytes (ledger_commitment C L) @ r = multihash_to_bytes (ledger_commitment C K) @ s"
  shows "c_blake3 C (ledger_bytes L) = c_blake3 C (ledger_bytes K) \<and> r = s"
  using assms by (simp add: multihash_to_bytes_def ledger_commitment_def multihash_of_def)

lemma supported_length: "is_supported_account C a \<Longrightarrow> length a < 2 ^ 32"
  by (auto simp: is_supported_account_def MAX_ACCOUNT_BYTES_def)

lemma state_rows:
  assumes "state_wf C s"
  shows "list_all mark_ok (ls_finalized s)" "list_all (\<lambda>e. length (fst e) = 32) (ls_rejected s)"
    "list_all (\<lambda>e. length (fst e) < 2 ^ 32 \<and> length (snd e) = 32) (ls_nullifiers s)"
    "list_all (\<lambda>e. length (fst e) < 2 ^ 32) (ls_balances s)"
  using assms supported_length [of C]
  by (fastforce simp: state_wf_def accounts_wf_def images_wf_def list_all_iff mark_ok_def MAX_KEY_IMAGE_BYTES_def)+

lemma state_bytes_inj:
  assumes C: "digests_ok C" and wf: "state_wf C x" "state_wf C y" and sz: "state_sized x" "state_sized y"
    and e: "state_bytes C x = state_bytes C y"
  shows "x = y \<or> collides C (ledger_bytes (ls_monetary x)) (ledger_bytes (ls_monetary y))"
proof -
  note rx = state_rows [OF wf(1)] and ry = state_rows [OF wf(2)]
  note zx = sz(1) [unfolded state_sized_def] and zy = sz(2) [unfolded state_sized_def]
  let ?t5 = "\<lambda>s. to_be64 (len64 (ls_balances s)) @ concat (map put_balance (ls_balances s))
     @ to_be128 (ls_allocated_circulating s) @ to_be128 (ls_unallocated_circulating s)"
  let ?t4 = "\<lambda>s. multihash_to_bytes (ledger_commitment C (ls_monetary s)) @ ?t5 s"
  let ?t3 = "\<lambda>s. sl_to_bytes (ls_shielded s) @ ?t4 s"
  let ?t2 = "\<lambda>s. to_be64 (len64 (ls_nullifiers s)) @ concat (map put_image (ls_nullifiers s)) @ ?t3 s"
  let ?t1 = "\<lambda>s. to_be64 (len64 (ls_rejected s)) @ concat (map put_refusal (ls_rejected s)) @ ?t2 s"
  have "length (ls_network_id x) = length (ls_network_id y)" using wf by (simp add: state_wf_def)
  with e have n: "ls_network_id x = ls_network_id y"
    and e0: "to_be64 (len64 (ls_finalized x)) @ concat (map put_mark (ls_finalized x)) @ ?t1 x
      = to_be64 (len64 (ls_finalized y)) @ concat (map put_mark (ls_finalized y)) @ ?t1 y"
    unfolding state_bytes_rows by simp_all
  from mark.counted64 [OF e0 rx(1) ry(1)] zx zy have f: "ls_finalized x = ls_finalized y" and e1: "?t1 x = ?t1 y" by blast+
  from refusal.counted64 [OF e1 rx(2) ry(2)] zx zy have j: "ls_rejected x = ls_rejected y" and e2: "?t2 x = ?t2 y" by blast+
  from image.counted64 [OF e2 rx(3) ry(3)] zx zy have i: "ls_nullifiers x = ls_nullifiers y" and e3: "?t3 x = ?t3 y" by blast+
  from shielded_row.split [OF _ _ e3] wf have h: "ls_shielded x = ls_shielded y" and e4: "?t4 x = ?t4 y"
    unfolding state_wf_def by blast+
  from commitment_split [OF C e4] have m: "c_blake3 C (ledger_bytes (ls_monetary x)) = c_blake3 C (ledger_bytes (ls_monetary y))"
    and e5: "?t5 x = ?t5 y" by blast+
  from balance_row.counted64 [OF e5 rx(4) ry(4)] zx zy
  have b: "ls_balances x = ls_balances y" "ls_allocated_circulating x = ls_allocated_circulating y"
    "ls_unallocated_circulating x = ls_unallocated_circulating y" by simp_all
  have "ledger_typed (ls_monetary x)" "ledger_typed (ls_monetary y)"
    using wf zx zy by (simp_all add: state_wf_def monetary_wf_def ledger_typed_def)
  from blake3_eqD [OF m] ledger_bytes_inj [OF this] n f j i h b show ?thesis by auto
qed

text \<open>Two states with one root, or the collision that explains it.\<close>

definition root_collision :: "crypto \<Rightarrow> LedgerState \<Rightarrow> LedgerState \<Rightarrow> bool" where
  "root_collision C x y =
     (collides C (state_bytes C x) (state_bytes C y)
      \<or> collides C (ledger_bytes (ls_monetary x)) (ledger_bytes (ls_monetary y)))"

lemma state_root_binds:
  assumes "digests_ok C" "state_wf C x" "state_wf C y" "state_sized x" "state_sized y"
    and "state_commitment C x = state_commitment C y"
  shows "x = y \<or> root_collision C x y"
  using state_bytes_inj [OF assms(1-5)] blake3_eqD [of C "state_bytes C x" "state_bytes C y"] assms(6)
  by (auto simp: state_commitment_def root_collision_def)

text \<open>
  The body root is not such an identifier: it hashes the digests of the claims, which leave out the
  signatures, so the signatures of a body can be replaced under the same root.
\<close>

lemma body_hash_ignores_signatures:
  "body_hash C (body\<lparr>bb_claims := map (pc_signature_update f) (bb_claims body)\<rparr>) = body_hash C body"
proof -
  have "claim_digest C (pc_signature_update f c) = claim_digest C c" for c
    by (simp add: claim_digest_def message_of_def)
  then show ?thesis by (simp add: body_hash_def body_bytes_def comp_def len64_def)
qed

end
