(* ===== verification/Snapshot.thy ===== *)
theory Snapshot
  imports StateRoot
begin

text \<open>
  Ledger snapshots (\<open>mini-execution/src/snapshot.rs\<close> and \<open>ShieldedLedger::from_bytes\<close>): the bounded
  encoding of a whole ledger state and its strict decoder. The decoder accepts exactly the encodings
  of well-formed states whose total supply can be represented, so a snapshot loses nothing and
  smuggles nothing in.
\<close>

section \<open>Encoding (snapshot.rs)\<close>

definition MAX_LEDGER_SNAPSHOT_BYTES :: nat where "MAX_LEDGER_SNAPSHOT_BYTES = 8 * 1024 * 1024"

definition SNAPSHOT_DOMAIN :: bytes where "SNAPSHOT_DOMAIN = ascii ''mini-execution/ledger-snapshot/v3''"

definition put_count :: "nat \<Rightarrow> ExecutionError + bytes" where
  "put_count n = (if n < 2 ^ 32 then Inr (to_be32 (of_nat n)) else Inl SnapshotTooLarge)"

definition sn_put_bytes :: "bytes \<Rightarrow> ExecutionError + bytes" where
  "sn_put_bytes b = (if length b < 2 ^ 32 then Inr (to_be32 (len32 b) @ b) else Inl SnapshotTooLarge)"

fun sn_rejection_tag :: "CanonicalRejection \<Rightarrow> u8" where
  "sn_rejection_tag WrongNetwork = 0"
| "sn_rejection_tag UnsupportedPayee = 1"
| "sn_rejection_tag StaleSequence = 2"
| "sn_rejection_tag InsufficientFunds = 3"
| "sn_rejection_tag UnrecognizedAnchor = 4"

fun sn_channel_tag :: "Channel \<Rightarrow> u8" where
  "sn_channel_tag HumanShare = 0"
| "sn_channel_tag Service = 1"
| "sn_channel_tag TreasuryContribution = 2"

text \<open>A loop that appends the encoding of each row and stops at the first error.\<close>

fun put_rows :: "('a \<Rightarrow> ExecutionError + bytes) \<Rightarrow> 'a list \<Rightarrow> ExecutionError + bytes" where
  "put_rows f [] = Inr []"
| "put_rows f (x # xs) = andThen (f x) (\<lambda>b. andThen (put_rows f xs) (\<lambda>r. Inr (b @ r)))"

definition encode_subject :: "VestingSubject \<Rightarrow> ExecutionError + bytes" where
  "encode_subject subject =
     (case subject of
        SnapshotSubject h \<Rightarrow> Inr ([0] @ hs_root h @ to_be64 (hs_eligible_count h))
      | Beneficiary b \<Rightarrow>
          if b = [] then Inl SnapshotMalformed
          else if length b > MAX_SNAPSHOT_BENEFICIARY_BYTES then Inl SnapshotTooLarge
          else andThen (sn_put_bytes b) (\<lambda>x. Inr ([1] @ x)))"

definition encode_position :: "VestingPosition \<Rightarrow> ExecutionError + bytes" where
  "encode_position p =
     andThen (encode_subject (vp_subject p)) (\<lambda>subject.
       Inr (to_be64 (vp_epoch p) @ subject @ [sn_channel_tag (vp_channel p)] @ to_be128 (vp_amount p)
         @ to_be128 (vp_starts_at_policy_ms p) @ to_be64 (vp_duration_ms p)))"

definition encode_monetary :: "MonetaryLedgerSnapshot \<Rightarrow> ExecutionError + bytes" where
  "encode_monetary m =
     andThen (put_count (length (ms_positions m))) (\<lambda>n.
     andThen (put_rows encode_position (ms_positions m)) (\<lambda>positions.
       Inr (to_be128 (ms_genesis_circulating m) @ to_be128 (ms_total_issued m) @ to_be128 (ms_policy_time_ms m)
         @ (case ms_last_epoch m of Some e \<Rightarrow> [1] @ to_be64 e | None \<Rightarrow> [0]) @ n @ positions)))"

text \<open>The size check before anything is written. A sum that leaves \<open>usize\<close> is beyond the limit as well.\<close>

definition add_snapshot_len :: "nat \<Rightarrow> nat \<Rightarrow> ExecutionError + nat" where
  "add_snapshot_len len additional =
     (if len + additional > MAX_LEDGER_SNAPSHOT_BYTES then Inl SnapshotTooLarge else Inr (len + additional))"

fun add_lens :: "('a \<Rightarrow> nat \<Rightarrow> ExecutionError + nat) \<Rightarrow> 'a list \<Rightarrow> nat \<Rightarrow> ExecutionError + nat" where
  "add_lens f [] len = Inr len"
| "add_lens f (x # xs) len = andThen (f x len) (add_lens f xs)"

definition add_key_len :: "nat \<Rightarrow> bytes \<Rightarrow> nat \<Rightarrow> ExecutionError + nat" where
  "add_key_len fixed key len =
     andThen (ensure (length key < 2 ^ 32) SnapshotTooLarge) (\<lambda>_. add_snapshot_len len (4 + length key + fixed))"

definition add_position_len :: "VestingPosition \<Rightarrow> nat \<Rightarrow> ExecutionError + nat" where
  "add_position_len p len =
     andThen (add_snapshot_len len (8 + 1)) (\<lambda>len.
     andThen (case vp_subject p of
          SnapshotSubject h \<Rightarrow> add_snapshot_len len (32 + 8)
        | Beneficiary b \<Rightarrow>
            if b = [] then Inl SnapshotMalformed
            else if length b > MAX_SNAPSHOT_BENEFICIARY_BYTES then Inl SnapshotTooLarge
            else add_key_len 0 b len) (\<lambda>len.
       add_snapshot_len len (1 + 16 + 16 + 8)))"

definition snapshot_encoded_len :: "LedgerState \<Rightarrow> MonetaryLedgerSnapshot \<Rightarrow> ExecutionError + nat" where
  "snapshot_encoded_len s m =
     andThen (add_snapshot_len 0 (length SNAPSHOT_DOMAIN + 32)) (\<lambda>len.
     andThen (add_snapshot_len len 4) (\<lambda>len.
     andThen (add_lens (add_key_len (8 + 32)) (map fst (ls_finalized s)) len) (\<lambda>len.
     andThen (add_snapshot_len len 4) (\<lambda>len.
     andThen (add_snapshot_len len (length (ls_rejected s) * 33)) (\<lambda>len.
     andThen (add_snapshot_len len 4) (\<lambda>len.
     andThen (add_lens (add_key_len 32) (map fst (ls_nullifiers s)) len) (\<lambda>len.
     andThen (add_snapshot_len len (4 + length (sl_to_bytes (ls_shielded s)))) (\<lambda>len.
     andThen (add_snapshot_len len (16 + 16 + 16 + 1)) (\<lambda>len.
     andThen (if ms_last_epoch m \<noteq> None then add_snapshot_len len 8 else Inr len) (\<lambda>len.
     andThen (add_snapshot_len len 4) (\<lambda>len.
     andThen (add_lens add_position_len (ms_positions m) len) (\<lambda>len.
     andThen (add_snapshot_len len 4) (\<lambda>len.
     andThen (add_lens (add_key_len 16) (map fst (ls_balances s)) len) (\<lambda>len.
       add_snapshot_len len (16 + 16)))))))))))))))"

definition to_snapshot_bytes :: "LedgerState \<Rightarrow> ExecutionError + bytes" where
  "to_snapshot_bytes s =
     andThen (ensure (list_all (\<lambda>n. \<not> n > MAX_LEDGER_SNAPSHOT_ENTRIES)
        [length (ls_finalized s), length (ls_rejected s), length (ls_nullifiers s), length (ls_balances s)])
        SnapshotTooLarge) (\<lambda>_.
     let monetary = export_snapshot (ls_monetary s) in
     andThen (ensure (\<not> length (ms_positions monetary) > MAX_VESTING_POSITIONS) SnapshotTooLarge) (\<lambda>_.
     andThen (snapshot_encoded_len s monetary) (\<lambda>exact_len.
     andThen (put_count (length (ls_finalized s))) (\<lambda>n1.
     andThen (put_rows (\<lambda>(payer, sequence, digest).
        andThen (sn_put_bytes payer) (\<lambda>k. Inr (k @ to_be64 sequence @ digest))) (ls_finalized s)) (\<lambda>finalized.
     andThen (put_count (length (ls_rejected s))) (\<lambda>n2.
     andThen (put_rows (\<lambda>(digest, reason). Inr (digest @ [sn_rejection_tag reason])) (ls_rejected s)) (\<lambda>rejected.
     andThen (put_count (length (ls_nullifiers s))) (\<lambda>n3.
     andThen (put_rows (\<lambda>(key_image, digest).
        andThen (sn_put_bytes key_image) (\<lambda>k. Inr (k @ digest))) (ls_nullifiers s)) (\<lambda>nullifiers.
     andThen (sn_put_bytes (sl_to_bytes (ls_shielded s))) (\<lambda>shielded.
     andThen (encode_monetary monetary) (\<lambda>money.
     andThen (put_count (length (ls_balances s))) (\<lambda>n4.
     andThen (put_rows (\<lambda>(account, amount).
        andThen (sn_put_bytes account) (\<lambda>k. Inr (k @ to_be128 amount))) (ls_balances s)) (\<lambda>balances.
     let out = SNAPSHOT_DOMAIN @ ls_network_id s @ n1 @ finalized @ n2 @ rejected @ n3 @ nullifiers @ shielded @ money
           @ n4 @ balances @ to_be128 (ls_allocated_circulating s) @ to_be128 (ls_unallocated_circulating s)
     in andThen (ensure (length out = exact_len) SnapshotMalformed) (\<lambda>_. Inr out))))))))))))))"

section \<open>Decoding (snapshot.rs, shielded.rs)\<close>

definition sn_take :: "nat \<Rightarrow> bytes \<Rightarrow> ExecutionError + bytes \<times> bytes" where
  "sn_take = take_n SnapshotMalformed"

definition sn_u8 :: "bytes \<Rightarrow> ExecutionError + u8 \<times> bytes" where "sn_u8 = rd_u8 SnapshotMalformed"
definition sn_u32 :: "bytes \<Rightarrow> ExecutionError + u32 \<times> bytes" where "sn_u32 = rd_u32 SnapshotMalformed"
definition sn_u64 :: "bytes \<Rightarrow> ExecutionError + u64 \<times> bytes" where "sn_u64 = rd_u64 SnapshotMalformed"
definition sn_u128 :: "bytes \<Rightarrow> ExecutionError + u128 \<times> bytes" where "sn_u128 = rd_u128 SnapshotMalformed"

definition sn_bytes :: "nat \<Rightarrow> bytes \<Rightarrow> ExecutionError + bytes \<times> bytes" where
  "sn_bytes max_len bs =
     andThen (sn_u32 bs) (\<lambda>(n, bs). if unat n > max_len then Inl SnapshotTooLarge else sn_take (unat n) bs)"

definition sn_count :: "nat \<Rightarrow> bytes \<Rightarrow> ExecutionError + nat \<times> bytes" where
  "sn_count max_count bs =
     andThen (sn_u32 bs) (\<lambda>(n, bs). if unat n > max_count then Inl SnapshotTooLarge else Inr (unat n, bs))"

definition decode_rejection :: "u8 \<Rightarrow> ExecutionError + CanonicalRejection" where
  "decode_rejection t =
     (if t = 0 then Inr WrongNetwork else if t = 1 then Inr UnsupportedPayee else if t = 2 then Inr StaleSequence
      else if t = 3 then Inr InsufficientFunds else if t = 4 then Inr UnrecognizedAnchor else Inl SnapshotMalformed)"

definition decode_channel :: "u8 \<Rightarrow> ExecutionError + Channel" where
  "decode_channel t =
     (if t = 0 then Inr HumanShare else if t = 1 then Inr Service else if t = 2 then Inr TreasuryContribution
      else Inl SnapshotMalformed)"

definition strictly_after :: "bytes option \<Rightarrow> bytes \<Rightarrow> bool" where
  "strictly_after previous current = (case previous of None \<Rightarrow> True | Some prior \<Rightarrow> prior < current)"

text \<open>
  The loop that reads the rows of a map: a key, which must be admissible and greater than the one
  before it, then its value.
\<close>

fun read_rows ::
  "(bytes \<Rightarrow> ExecutionError + bytes \<times> bytes) \<Rightarrow> (bytes \<Rightarrow> bool) \<Rightarrow> (bytes \<Rightarrow> ExecutionError + 'v \<times> bytes)
     \<Rightarrow> bytes option \<Rightarrow> (bytes, 'v) btree \<Rightarrow> nat \<Rightarrow> bytes \<Rightarrow> ExecutionError + (bytes, 'v) btree \<times> bytes" where
  "read_rows key ok val previous m 0 bs = Inr (m, bs)"
| "read_rows key ok val previous m (Suc n) bs =
     andThen (key bs) (\<lambda>(k, bs).
     andThen (ensure (ok k \<and> strictly_after previous k) SnapshotMalformed) (\<lambda>_.
     andThen (val bs) (\<lambda>(v, bs). read_rows key ok val (Some k) (bt_insert k v m) n bs)))"

definition read_mark :: "bytes \<Rightarrow> ExecutionError + (u64 \<times> bytes) \<times> bytes" where
  "read_mark bs = andThen (sn_u64 bs) (\<lambda>(n, bs). andThen (sn_take 32 bs) (\<lambda>(d, bs). Inr ((n, d), bs)))"

definition read_rejection :: "bytes \<Rightarrow> ExecutionError + CanonicalRejection \<times> bytes" where
  "read_rejection bs = andThen (sn_u8 bs) (\<lambda>(t, bs). andThen (decode_rejection t) (\<lambda>r. Inr (r, bs)))"

definition read_amount :: "bytes \<Rightarrow> ExecutionError + Amount \<times> bytes" where
  "read_amount bs = andThen (sn_u128 bs) (\<lambda>(a, bs). andThen (ensure (a \<noteq> 0) SnapshotMalformed) (\<lambda>_. Inr (a, bs)))"

definition read_map ::
  "(bytes \<Rightarrow> ExecutionError + bytes \<times> bytes) \<Rightarrow> (bytes \<Rightarrow> bool) \<Rightarrow> (bytes \<Rightarrow> ExecutionError + 'v \<times> bytes)
     \<Rightarrow> bytes \<Rightarrow> ExecutionError + (bytes, 'v) btree \<times> bytes" where
  "read_map key ok val bs =
     andThen (sn_count MAX_LEDGER_SNAPSHOT_ENTRIES bs) (\<lambda>(n, bs). read_rows key ok val None [] n bs)"

definition read_subject :: "bytes \<Rightarrow> ExecutionError + VestingSubject \<times> bytes" where
  "read_subject bs =
     andThen (sn_u8 bs) (\<lambda>(t, bs).
       if t = 0 then
         andThen (sn_take 32 bs) (\<lambda>(root, bs). andThen (sn_u64 bs) (\<lambda>(n, bs).
           Inr (SnapshotSubject \<lparr>hs_root = root, hs_eligible_count = n\<rparr>, bs)))
       else if t = 1 then
         andThen (sn_bytes MAX_SNAPSHOT_BENEFICIARY_BYTES bs) (\<lambda>(b, bs).
         andThen (ensure (utf8_valid b) SnapshotMalformed) (\<lambda>_. Inr (Beneficiary b, bs)))
       else Inl SnapshotMalformed)"

definition read_position :: "bytes \<Rightarrow> ExecutionError + VestingPosition \<times> bytes" where
  "read_position bs =
     andThen (sn_u64 bs) (\<lambda>(epoch, bs).
     andThen (read_subject bs) (\<lambda>(subject, bs).
     andThen (sn_u8 bs) (\<lambda>(t, bs).
     andThen (decode_channel t) (\<lambda>channel.
     andThen (sn_u128 bs) (\<lambda>(amount, bs).
     andThen (sn_u128 bs) (\<lambda>(starts, bs).
     andThen (sn_u64 bs) (\<lambda>(duration, bs).
       Inr (\<lparr>vp_epoch = epoch, vp_subject = subject, vp_channel = channel, vp_amount = amount,
             vp_starts_at_policy_ms = starts, vp_duration_ms = duration\<rparr>, bs))))))))"

definition decode_monetary :: "bytes \<Rightarrow> ExecutionError + MonetaryLedgerSnapshot \<times> bytes" where
  "decode_monetary bs =
     andThen (sn_u128 bs) (\<lambda>(genesis, bs).
     andThen (sn_u128 bs) (\<lambda>(issued, bs).
     andThen (sn_u128 bs) (\<lambda>(policy_time, bs).
     andThen (sn_u8 bs) (\<lambda>(t, bs).
     andThen (if t = 0 then Inr (None, bs) else if t = 1 then andThen (sn_u64 bs) (\<lambda>(e, bs). Inr (Some e, bs))
              else Inl SnapshotMalformed) (\<lambda>(last_epoch, bs).
     andThen (sn_count MAX_VESTING_POSITIONS bs) (\<lambda>(n, bs).
     andThen (dec_n read_position n bs) (\<lambda>(positions, bs).
       Inr (\<lparr>ms_genesis_circulating = genesis, ms_total_issued = issued, ms_policy_time_ms = policy_time,
             ms_last_epoch = last_epoch, ms_positions = positions\<rparr>, bs))))))))"

definition sl_count :: "bytes \<Rightarrow> ExecutionError + nat \<times> bytes" where
  "sl_count bs =
     andThen (take_n SnapshotMalformed 4 bs) (\<lambda>(x, bs).
       let n = unat (from_be32 x) in if n > MAX_OUTPUTS then Inl SnapshotTooLarge else Inr (n, bs))"

fun sl_read_genesis ::
  "bytes list \<Rightarrow> ShieldedGenesisAllocation list \<Rightarrow> nat \<Rightarrow> bytes \<Rightarrow> ExecutionError + ShieldedGenesisAllocation list \<times> bytes" where
  "sl_read_genesis seen as 0 bs = Inr (as, bs)"
| "sl_read_genesis seen as (Suc n) bs =
     andThen (take_n SnapshotMalformed 32 bs) (\<lambda>(key, bs).
     andThen (take_n SnapshotMalformed 32 bs) (\<lambda>(commitment, bs).
     andThen (take_n SnapshotMalformed 8 bs) (\<lambda>(amount, bs).
     andThen (ensure (key \<notin> set seen) SnapshotMalformed) (\<lambda>_.
       sl_read_genesis (key # seen)
         (as @ [\<lparr>sg_output = \<lparr>so_public_key = key, so_amount_commitment = commitment\<rparr>, sg_amount_micro = from_be64 amount\<rparr>])
         n bs))))"

fun sl_read_outputs :: "(bytes, bytes) btree \<Rightarrow> nat \<Rightarrow> bytes \<Rightarrow> ExecutionError + (bytes, bytes) btree \<times> bytes" where
  "sl_read_outputs m 0 bs = Inr (m, bs)"
| "sl_read_outputs m (Suc n) bs =
     andThen (take_n SnapshotMalformed 32 bs) (\<lambda>(key, bs).
     andThen (take_n SnapshotMalformed 32 bs) (\<lambda>(commitment, bs).
     andThen (ensure (map_of m key = None) SnapshotMalformed) (\<lambda>_.
       sl_read_outputs (bt_insert key commitment m) n bs)))"

fun sl_read_applied :: "bytes list \<Rightarrow> nat \<Rightarrow> bytes \<Rightarrow> ExecutionError + bytes list \<times> bytes" where
  "sl_read_applied applied 0 bs = Inr (applied, bs)"
| "sl_read_applied applied (Suc n) bs =
     andThen (take_n SnapshotMalformed 32 bs) (\<lambda>(digest, bs).
     andThen (ensure (digest \<notin> set applied) SnapshotMalformed) (\<lambda>_.
       sl_read_applied (applied @ [digest]) n bs))"

definition sl_from_bytes :: "bytes \<Rightarrow> ExecutionError + ShieldedLedger" where
  "sl_from_bytes bs =
     (let domain = ascii ''mini-execution/shielded-ledger/v1'' in
      andThen (take_n SnapshotMalformed (length domain) bs) (\<lambda>(d, bs).
      andThen (ensure (d = domain) SnapshotMalformed) (\<lambda>_.
      andThen (sl_count bs) (\<lambda>(n, bs).
      andThen (sl_read_genesis [] [] n bs) (\<lambda>(genesis, bs).
      andThen (sl_count bs) (\<lambda>(n, bs).
      andThen (sl_read_outputs [] n bs) (\<lambda>(outputs, bs).
      andThen (sl_count bs) (\<lambda>(n, bs).
      andThen (sl_read_applied [] n bs) (\<lambda>(applied, bs).
      andThen (take_n SnapshotMalformed 16 bs) (\<lambda>(pool, bs).
      andThen (ensure (bs = []) SnapshotMalformed) (\<lambda>_.
        Inr \<lparr>sl_genesis = genesis, sl_outputs = outputs, sl_applied = applied, sl_pool_micro = from_be128 pool\<rparr>)))))))))))"

definition from_snapshot_bytes :: "crypto \<Rightarrow> bytes \<Rightarrow> ExecutionError + LedgerState" where
  "from_snapshot_bytes C bytes =
     (if length bytes > MAX_LEDGER_SNAPSHOT_BYTES then Inl SnapshotTooLarge
      else
        andThen (sn_take (length SNAPSHOT_DOMAIN) bytes) (\<lambda>(d, bs).
        andThen (ensure (d = SNAPSHOT_DOMAIN) SnapshotMalformed) (\<lambda>_.
        andThen (sn_take 32 bs) (\<lambda>(network_id, bs).
        andThen (read_map (sn_bytes MAX_ACCOUNT_BYTES) (is_supported_account C) read_mark bs) (\<lambda>(finalized, bs).
        andThen (read_map (sn_take 32) (\<lambda>_. True) read_rejection bs) (\<lambda>(rejected, bs).
        andThen (read_map (sn_bytes MAX_KEY_IMAGE_BYTES) (\<lambda>k. k \<noteq> []) (sn_take 32) bs) (\<lambda>(nullifiers, bs).
        andThen (sn_bytes MAX_LEDGER_SNAPSHOT_BYTES bs) (\<lambda>(b, bs).
        andThen (sl_from_bytes b) (\<lambda>shielded.
        andThen (decode_monetary bs) (\<lambda>(monetary_snapshot, bs).
        andThen (map_err InvalidMonetaryEpoch (import_snapshot monetary_snapshot)) (\<lambda>monetary.
        andThen (read_map (sn_bytes MAX_ACCOUNT_BYTES) (is_supported_account C) read_amount bs) (\<lambda>(balances, bs).
        andThen (sn_u128 bs) (\<lambda>(allocated, bs).
        andThen (sn_u128 bs) (\<lambda>(unallocated, bs).
        andThen (ensure (bs = []) SnapshotMalformed) (\<lambda>_.
        let s = \<lparr>ls_network_id = network_id, ls_finalized = finalized, ls_rejected = rejected,
              ls_nullifiers = nullifiers, ls_monetary = monetary, ls_shielded = shielded, ls_balances = balances,
              ls_allocated_circulating = allocated, ls_unallocated_circulating = unallocated\<rparr>
        in andThen (verify_supply_conservation s) (\<lambda>_.
           andThen (verify_balance_map_total s) (\<lambda>_.
           andThen (to_snapshot_bytes s) (\<lambda>again.
           andThen (ensure (again = bytes) SnapshotMalformed) (\<lambda>_. Inr s)))))))))))))))))))"

section \<open>Readers\<close>

lemma sn_iff [wire_iff]:
  "sn_take n bs = Inr (xs, r) \<longleftrightarrow> bs = xs @ r \<and> length xs = n"
  "sn_u8 bs = Inr (b, r) \<longleftrightarrow> bs = b # r"
  "sn_u32 bs = Inr (w, r) \<longleftrightarrow> bs = to_be32 w @ r"
  "sn_u64 bs = Inr (x, r) \<longleftrightarrow> bs = to_be64 x @ r"
  "sn_u128 bs = Inr (y, r) \<longleftrightarrow> bs = to_be128 y @ r"
  by (simp_all add: sn_take_def sn_u8_def sn_u32_def sn_u64_def sn_u128_def take_n_eq_Inr rd_u8_iff rd_u32_iff
      rd_u64_iff rd_u128_iff)

lemma sn_bytes_iff:
  assumes "m < 2 ^ 32"
  shows "sn_bytes m bs = Inr (x, r) \<longleftrightarrow> length x \<le> m \<and> bs = put_bytes x @ r"
proof -
  have "sn_bytes m bs = Inr (x, r) \<longleftrightarrow> (\<exists>n. bs = to_be32 n @ x @ r \<and> length x = unat n \<and> unat n \<le> m)"
    by (auto simp: sn_bytes_def wire_iff not_less split: if_splits)
  also have "\<dots> \<longleftrightarrow> length x \<le> m \<and> bs = put_bytes x @ r"
    using assms by (auto simp: put_bytes_def length_eq_len32)
  finally show ?thesis .
qed

lemma sn_count_iff:
  "sn_count m bs = Inr (n, r) \<longleftrightarrow> (\<exists>w. bs = to_be32 w @ r \<and> n = unat w \<and> n \<le> m)"
  by (auto simp: sn_count_def wire_iff not_less split: if_splits)

lemma put_count_Inr: "put_count n = Inr b \<longleftrightarrow> n < 2 ^ 32 \<and> b = to_be32 (of_nat n)"
  by (auto simp: put_count_def)

lemma sn_put_bytes_Inr: "sn_put_bytes x = Inr b \<longleftrightarrow> length x < 2 ^ 32 \<and> b = put_bytes x"
  by (auto simp: sn_put_bytes_def put_bytes_def)

lemma put_rows_Inr:
  assumes "\<And>x b. f x = Inr b \<longleftrightarrow> ok x \<and> b = enc x"
  shows "put_rows f xs = Inr b \<longleftrightarrow> list_all ok xs \<and> b = concat (map enc xs)"
  by (induction xs arbitrary: b) (auto simp: assms)

lemma tags_agree [simp]: "sn_rejection_tag r = exec_rejection_tag r" "sn_channel_tag c = channel_tag c"
  by (cases r; simp) (cases c; simp add: channel_tag_def)

lemma decode_tags [simp]:
  "decode_rejection t = Inr r \<longleftrightarrow> t = exec_rejection_tag r"
  "decode_channel t = Inr c \<longleftrightarrow> t = channel_tag c"
  by (cases r; auto simp: decode_rejection_def) (cases c; auto simp: decode_channel_def channel_tag_def)

section \<open>Maps in key order\<close>

lemma bt_insert_last: "\<forall>k' \<in> fst ` set m. k' < k \<Longrightarrow> bt_insert k v m = m @ [(k, v)]"
  by (induction m) auto

lemma read_rows_Suc:
  "read_rows key ok val previous m (Suc n) bs = Inr x \<longleftrightarrow>
     (\<exists>k b1 v b2. key bs = Inr (k, b1) \<and> ok k \<and> strictly_after previous k \<and> val b1 = Inr (v, b2)
        \<and> read_rows key ok val (Some k) (bt_insert k v m) n b2 = Inr x)"
  by (auto simp: split_beta)

text \<open>
  Rows whose keys and values have canonical codecs make a canonical codec of the map: the reader
  accepts exactly the rows in strictly increasing order of admissible keys.
\<close>

locale sorted_rows = key: canonical_codec kenc kdec kok + val: canonical_codec venc vdec vok
  for kenc :: "bytes \<Rightarrow> bytes" and kdec :: "bytes \<Rightarrow> ExecutionError + bytes \<times> bytes" and kok
    and venc :: "'v \<Rightarrow> bytes" and vdec :: "bytes \<Rightarrow> ExecutionError + 'v \<times> bytes" and vok +
  fixes good :: "bytes \<Rightarrow> bool"
begin

lemma read_rows_sound:
  assumes "read_rows kdec good vdec previous m n bs = Inr (m', r)"
    and "\<forall>k \<in> fst ` set m. case previous of None \<Rightarrow> False | Some p \<Rightarrow> k \<le> p"
  shows "\<exists>rows. m' = m @ rows \<and> length rows = n \<and> bt_wf rows \<and> (\<forall>k \<in> fst ` set rows. strictly_after previous k)
    \<and> list_all (\<lambda>(k, v). kok k \<and> good k \<and> vok v) rows \<and> bs = concat (map (\<lambda>(k, v). kenc k @ venc v) rows) @ r"
  using assms
proof (induction n arbitrary: previous m bs)
  case (Suc n)
  from Suc.prems(1) obtain k b1 v b2 where k: "kok k" "bs = kenc k @ b1" "good k" "strictly_after previous k"
    and v: "vok v" "b1 = venc v @ b2" and rest: "read_rows kdec good vdec (Some k) (bt_insert k v m) n b2 = Inr (m', r)"
    unfolding read_rows_Suc key.dec_iff val.dec_iff by blast
  have lt: "\<forall>x \<in> fst ` set m. x < k" using Suc.prems(2) k(4) by (force simp: strictly_after_def split: option.splits)
  then have le: "\<forall>x \<in> fst ` set (m @ [(k, v)]). case Some k of None \<Rightarrow> False | Some p \<Rightarrow> x \<le> p" by force
  from Suc.IH [OF rest [unfolded bt_insert_last [OF lt]] le] obtain rows where rows: "m' = (m @ [(k, v)]) @ rows"
    "length rows = n" "bt_wf rows" "\<forall>x \<in> fst ` set rows. strictly_after (Some k) x"
    "list_all (\<lambda>(k, v). kok k \<and> good k \<and> vok v) rows" "b2 = concat (map (\<lambda>(k, v). kenc k @ venc v) rows) @ r" by blast
  have kx: "k < x" if "x \<in> fst ` set rows" for x using rows(4) that by (auto simp: strictly_after_def)
  have "strictly_after previous x" if "x \<in> fst ` set rows" for x
    using kx [OF that] k(4) by (cases previous) (auto simp: strictly_after_def)
  then show ?case using rows k v kx by (intro exI [of _ "(k, v) # rows"]) (auto simp: bt_wf_Cons)
qed auto

lemma read_rows_complete:
  assumes "bt_wf rows" "\<forall>k \<in> fst ` set rows. strictly_after previous k" "list_all (\<lambda>(k, v). kok k \<and> good k \<and> vok v) rows"
    and "\<forall>k \<in> fst ` set m. case previous of None \<Rightarrow> False | Some p \<Rightarrow> k \<le> p"
  shows "read_rows kdec good vdec previous m (length rows) (concat (map (\<lambda>(k, v). kenc k @ venc v) rows) @ r) = Inr (m @ rows, r)"
  using assms
proof (induction rows arbitrary: previous m)
  case (Cons e rows)
  obtain k v where e: "e = (k, v)" by (cases e)
  have sa: "strictly_after previous k" using Cons.prems(2) by (simp add: e)
  have lt: "\<forall>x \<in> fst ` set m. x < k" using Cons.prems(4) sa by (force simp: strictly_after_def split: option.splits)
  then have le: "\<forall>x \<in> fst ` set (m @ [(k, v)]). case Some k of None \<Rightarrow> False | Some p \<Rightarrow> x \<le> p" by force
  have "read_rows kdec good vdec (Some k) (m @ [(k, v)]) (length rows) (concat (map (\<lambda>(k, v). kenc k @ venc v) rows) @ r)
      = Inr ((m @ [(k, v)]) @ rows, r)"
    by (rule Cons.IH [OF _ _ _ le]) (use Cons.prems(1,3) in \<open>auto simp: e bt_wf_Cons strictly_after_def\<close>)
  with Cons.prems(3) sa show ?case by (simp add: e key.dec_enc val.dec_enc bt_insert_last [OF lt])
qed simp

lemma map_iff:
  "read_map kdec good vdec bs = Inr (m, r) \<longleftrightarrow>
     length m \<le> MAX_LEDGER_SNAPSHOT_ENTRIES \<and> bt_wf m \<and> list_all (\<lambda>(k, v). kok k \<and> good k \<and> vok v) m
     \<and> bs = to_be32 (len32 m) @ concat (map (\<lambda>(k, v). kenc k @ venc v) m) @ r"
proof
  assume "read_map kdec good vdec bs = Inr (m, r)"
  then obtain w b1 where w: "bs = to_be32 w @ b1" "unat w \<le> MAX_LEDGER_SNAPSHOT_ENTRIES"
    "read_rows kdec good vdec None [] (unat w) b1 = Inr (m, r)" by (auto simp: read_map_def sn_count_iff)
  from read_rows_sound [OF w(3)] w(1,2)
  show "length m \<le> MAX_LEDGER_SNAPSHOT_ENTRIES \<and> bt_wf m \<and> list_all (\<lambda>(k, v). kok k \<and> good k \<and> vok v) m
     \<and> bs = to_be32 (len32 m) @ concat (map (\<lambda>(k, v). kenc k @ venc v) m) @ r"
    by (auto simp: length_eq_len32)
next
  assume a: "length m \<le> MAX_LEDGER_SNAPSHOT_ENTRIES \<and> bt_wf m \<and> list_all (\<lambda>(k, v). kok k \<and> good k \<and> vok v) m
     \<and> bs = to_be32 (len32 m) @ concat (map (\<lambda>(k, v). kenc k @ venc v) m) @ r"
  then have "length m < 2 ^ 32" by (simp add: MAX_LEDGER_SNAPSHOT_ENTRIES_def)
  with a have "sn_count MAX_LEDGER_SNAPSHOT_ENTRIES bs = Inr (length m, concat (map (\<lambda>(k, v). kenc k @ venc v) m) @ r)"
    by (auto simp: sn_count_iff)
  with a read_rows_complete [of m None "[]" r] show "read_map kdec good vdec bs = Inr (m, r)"
    by (simp add: read_map_def strictly_after_def)
qed

end

lemma limits_small:
  "MAX_ACCOUNT_BYTES < 2 ^ 32" "MAX_KEY_IMAGE_BYTES < 2 ^ 32" "MAX_LEDGER_SNAPSHOT_BYTES < 2 ^ 32"
  "MAX_SNAPSHOT_BENEFICIARY_BYTES < 2 ^ 32" "MAX_LEDGER_SNAPSHOT_ENTRIES < 2 ^ 32" "MAX_VESTING_POSITIONS < 2 ^ 32"
  by (simp_all add: MAX_ACCOUNT_BYTES_def MAX_KEY_IMAGE_BYTES_def MAX_LEDGER_SNAPSHOT_BYTES_def
      MAX_SNAPSHOT_BENEFICIARY_BYTES_def MAX_LEDGER_SNAPSHOT_ENTRIES_def MAX_VESTING_POSITIONS_def)

lemmas sn_field_iff = limits_small(1-4) [THEN sn_bytes_iff]

interpretation mark_rows: sorted_rows put_bytes "sn_bytes MAX_ACCOUNT_BYTES" "\<lambda>k. length k \<le> MAX_ACCOUNT_BYTES"
  "\<lambda>v. to_be64 (fst v) @ snd v" read_mark "\<lambda>v. length (snd v) = 32" "is_supported_account C" for C
  by unfold_locales (auto simp: sn_field_iff read_mark_def wire_iff)

interpretation refusal_rows: sorted_rows "\<lambda>d. d" "sn_take 32" "\<lambda>d. length d = 32"
  "\<lambda>v. [exec_rejection_tag v]" read_rejection "\<lambda>_. True" "\<lambda>_. True"
  by unfold_locales (auto simp: read_rejection_def wire_iff)

interpretation image_rows: sorted_rows put_bytes "sn_bytes MAX_KEY_IMAGE_BYTES" "\<lambda>k. length k \<le> MAX_KEY_IMAGE_BYTES"
  "\<lambda>d. d" "sn_take 32" "\<lambda>d. length d = 32" "\<lambda>k. k \<noteq> []"
  by unfold_locales (auto simp: sn_field_iff wire_iff)

interpretation balance_rows: sorted_rows put_bytes "sn_bytes MAX_ACCOUNT_BYTES" "\<lambda>k. length k \<le> MAX_ACCOUNT_BYTES"
  to_be128 read_amount "\<lambda>a. a \<noteq> 0" "is_supported_account C" for C
  by unfold_locales (auto simp: sn_field_iff read_amount_def wire_iff)

lemma supported_bound: "is_supported_account C k \<Longrightarrow> length k \<le> MAX_ACCOUNT_BYTES"
  by (simp add: is_supported_account_def)

lemma rows_as_pairs:
  "(\<lambda>(k, v). put_bytes k @ to_be64 (fst v) @ snd v) = put_mark"
  "(\<lambda>(k, v). k @ [exec_rejection_tag v]) = put_refusal"
  "(\<lambda>(k, v). put_bytes k @ v) = put_image"
  "(\<lambda>(k, v). put_bytes k @ to_be128 v) = put_balance"
  by (auto simp: put_mark_def put_refusal_def put_image_def put_balance_def fun_eq_iff)

text \<open>The four maps of a state, read and written.\<close>

definition counted :: "('a \<Rightarrow> bytes) \<Rightarrow> 'a list \<Rightarrow> bytes" where
  "counted enc xs = to_be32 (len32 xs) @ concat (map enc xs)"

lemma read_marks_iff:
  "read_map (sn_bytes MAX_ACCOUNT_BYTES) (is_supported_account C) read_mark bs = Inr (m, r) \<longleftrightarrow>
     length m \<le> MAX_LEDGER_SNAPSHOT_ENTRIES \<and> bt_wf m \<and> (\<forall>(p, n, d) \<in> set m. is_supported_account C p \<and> length d = 32)
     \<and> bs = counted put_mark m @ r"
  unfolding mark_rows.map_iff rows_as_pairs by (auto simp: counted_def list_all_iff dest: supported_bound)

lemma read_refusals_iff:
  "read_map (sn_take 32) (\<lambda>_. True) read_rejection bs = Inr (m, r) \<longleftrightarrow>
     length m \<le> MAX_LEDGER_SNAPSHOT_ENTRIES \<and> bt_wf m \<and> (\<forall>(d, x) \<in> set m. length d = 32)
     \<and> bs = counted put_refusal m @ r"
  unfolding refusal_rows.map_iff rows_as_pairs by (auto simp: counted_def list_all_iff)

lemma read_images_iff:
  "read_map (sn_bytes MAX_KEY_IMAGE_BYTES) (\<lambda>k. k \<noteq> []) (sn_take 32) bs = Inr (m, r) \<longleftrightarrow>
     length m \<le> MAX_LEDGER_SNAPSHOT_ENTRIES \<and> images_wf m \<and> bs = counted put_image m @ r"
  unfolding image_rows.map_iff rows_as_pairs by (auto simp: counted_def list_all_iff images_wf_def)

lemma read_balances_iff:
  "read_map (sn_bytes MAX_ACCOUNT_BYTES) (is_supported_account C) read_amount bs = Inr (m, r) \<longleftrightarrow>
     length m \<le> MAX_LEDGER_SNAPSHOT_ENTRIES \<and> bt_wf m \<and> (\<forall>(a, b) \<in> set m. is_supported_account C a \<and> b \<noteq> 0)
     \<and> bs = counted put_balance m @ r"
  unfolding balance_rows.map_iff rows_as_pairs by (auto simp: counted_def list_all_iff dest: supported_bound)

section \<open>The monetary ledger\<close>

definition put_subject32 :: "VestingSubject \<Rightarrow> bytes" where
  "put_subject32 s =
     (case s of SnapshotSubject h \<Rightarrow> [0] @ hs_root h @ to_be64 (hs_eligible_count h) | Beneficiary b \<Rightarrow> [1] @ put_bytes b)"

definition subject32_ok :: "VestingSubject \<Rightarrow> bool" where
  "subject32_ok s =
     (case s of SnapshotSubject h \<Rightarrow> length (hs_root h) = 32
      | Beneficiary b \<Rightarrow> length b \<le> MAX_SNAPSHOT_BENEFICIARY_BYTES \<and> utf8_valid b)"

definition put_position32 :: "VestingPosition \<Rightarrow> bytes" where
  "put_position32 p =
     to_be64 (vp_epoch p) @ put_subject32 (vp_subject p) @ [channel_tag (vp_channel p)] @ to_be128 (vp_amount p)
       @ to_be128 (vp_starts_at_policy_ms p) @ to_be64 (vp_duration_ms p)"

definition put_monetary :: "MonetaryLedgerSnapshot \<Rightarrow> bytes" where
  "put_monetary m =
     to_be128 (ms_genesis_circulating m) @ to_be128 (ms_total_issued m) @ to_be128 (ms_policy_time_ms m)
       @ (case ms_last_epoch m of Some e \<Rightarrow> [1] @ to_be64 e | None \<Rightarrow> [0]) @ counted put_position32 (ms_positions m)"

interpretation subject32: canonical_codec put_subject32 read_subject subject32_ok
proof
  fix bs s r
  show "read_subject bs = Inr (s, r) \<longleftrightarrow> subject32_ok s \<and> bs = put_subject32 s @ r"
  proof (cases s)
    case (SnapshotSubject h)
    then show ?thesis
      by (cases h) (auto simp: read_subject_def wire_iff subject32_ok_def put_subject32_def
          intro: exI [of _ "0 :: u8"] split: if_splits)
  next
    case (Beneficiary b)
    then show ?thesis
      by (auto simp: read_subject_def wire_iff sn_field_iff subject32_ok_def put_subject32_def
          intro: exI [of _ "1 :: u8"] split: if_splits)
  qed
qed

interpretation position32: canonical_codec put_position32 read_position "\<lambda>p. subject32_ok (vp_subject p)"
proof
  fix bs p r
  show "read_position bs = Inr (p, r) \<longleftrightarrow> subject32_ok (vp_subject p) \<and> bs = put_position32 p @ r"
  proof
    assume "read_position bs = Inr (p, r)"
    then show "subject32_ok (vp_subject p) \<and> bs = put_position32 p @ r"
      by (auto simp: read_position_def wire_iff subject32.dec_iff put_position32_def)
  next
    assume a: "subject32_ok (vp_subject p) \<and> bs = put_position32 p @ r"
    have "sn_u64 (to_be64 x @ r) = Inr (x, r)" "sn_u128 (to_be128 y @ r) = Inr (y, r)" "sn_u8 (b # r) = Inr (b, r)"
      "decode_channel (channel_tag c) = Inr c" for x y b r c by (simp_all add: sn_iff)
    with a show "read_position bs = Inr (p, r)"
      by (simp add: read_position_def put_position32_def subject32.dec_enc)
  qed
qed

lemma encode_subject_Inr:
  "encode_subject s = Inr b \<longleftrightarrow>
     (case s of Beneficiary x \<Rightarrow> x \<noteq> [] \<and> length x \<le> MAX_SNAPSHOT_BENEFICIARY_BYTES | _ \<Rightarrow> True) \<and> b = put_subject32 s"
  using limits_small(4) by (cases s) (auto simp: encode_subject_def put_subject32_def sn_put_bytes_Inr)

definition subject_writable :: "VestingSubject \<Rightarrow> bool" where
  "subject_writable s = (case s of Beneficiary x \<Rightarrow> x \<noteq> [] \<and> length x \<le> MAX_SNAPSHOT_BENEFICIARY_BYTES | _ \<Rightarrow> True)"

lemma encode_position_Inr:
  "encode_position p = Inr b \<longleftrightarrow> subject_writable (vp_subject p) \<and> b = put_position32 p"
  by (auto simp: encode_position_def encode_subject_Inr put_position32_def subject_writable_def)

lemma encode_monetary_Inr:
  "encode_monetary m = Inr b \<longleftrightarrow>
     length (ms_positions m) < 2 ^ 32 \<and> list_all (\<lambda>p. subject_writable (vp_subject p)) (ms_positions m) \<and> b = put_monetary m"
  by (auto simp: encode_monetary_def put_count_Inr put_rows_Inr [OF encode_position_Inr] put_monetary_def counted_def
      len32_def split: option.splits)

lemma decode_monetary_iff:
  "decode_monetary bs = Inr (m, r) \<longleftrightarrow>
     length (ms_positions m) \<le> MAX_VESTING_POSITIONS \<and> list_all (\<lambda>p. subject32_ok (vp_subject p)) (ms_positions m)
     \<and> bs = put_monetary m @ r"
proof
  assume "decode_monetary bs = Inr (m, r)"
  then show "length (ms_positions m) \<le> MAX_VESTING_POSITIONS \<and> list_all (\<lambda>p. subject32_ok (vp_subject p)) (ms_positions m)
     \<and> bs = put_monetary m @ r"
    by (auto simp: decode_monetary_def wire_iff sn_count_iff position32.list_iff put_monetary_def counted_def
        length_eq_len32 split: if_splits)
next
  assume a: "length (ms_positions m) \<le> MAX_VESTING_POSITIONS \<and> list_all (\<lambda>p. subject32_ok (vp_subject p)) (ms_positions m)
     \<and> bs = put_monetary m @ r"
  then have l: "length (ms_positions m) < 2 ^ 32" using limits_small(6) by linarith
  have e: "sn_u64 (to_be64 x @ r) = Inr (x, r)" "sn_u128 (to_be128 y @ r) = Inr (y, r)" "sn_u8 (b # r) = Inr (b, r)"
    for x y b r by (simp_all add: sn_iff)
  have c: "sn_count MAX_VESTING_POSITIONS (to_be32 (len32 (ms_positions m)) @ x) = Inr (length (ms_positions m), x)" for x
    using a l by (auto simp: sn_count_iff)
  show "decode_monetary bs = Inr (m, r)"
    using a by (cases "ms_last_epoch m") (simp_all add: decode_monetary_def put_monetary_def counted_def e c position32.dec_list)
qed

section \<open>The shielded ledger\<close>

lemma sl_count_iff: "sl_count bs = Inr (n, r) \<longleftrightarrow> (\<exists>w. bs = to_be32 w @ r \<and> n = unat w \<and> n \<le> MAX_OUTPUTS)"
proof -
  have "sl_count bs = sn_count MAX_OUTPUTS bs"
    by (simp add: sl_count_def sn_count_def sn_u32_def rd_u32_def Let_def take_n_def)
  then show ?thesis by (simp add: sn_count_iff)
qed

lemma read_genesis_complete:
  assumes "list_all (\<lambda>a. so_well_formed (sg_output a)) xs" "distinct (map genesis_key xs)"
    "genesis_key ` set xs \<inter> set seen = {}"
  shows "sl_read_genesis seen as (length xs) (concat (map put_allocation xs) @ r) = Inr (as @ xs, r)"
  using assms
proof (induction xs arbitrary: seen as)
  case (Cons x xs)
  have x: "length (so_public_key (sg_output x)) = 32" "length (so_amount_commitment (sg_output x)) = 32"
    "so_public_key (sg_output x) \<notin> set seen"
    using Cons.prems by (auto simp: so_well_formed_def genesis_key_def)
  have "sl_read_genesis (so_public_key (sg_output x) # seen) (as @ [x]) (length xs) (concat (map put_allocation xs) @ r)
      = Inr ((as @ [x]) @ xs, r)"
    by (rule Cons.IH) (use Cons.prems in \<open>auto simp: genesis_key_def\<close>)
  moreover have eta: "\<lparr>sg_output = \<lparr>so_public_key = so_public_key (sg_output x), so_amount_commitment = so_amount_commitment (sg_output x)\<rparr>,
      sg_amount_micro = sg_amount_micro x\<rparr> = x" by simp
  ultimately show ?case using x by (simp add: put_allocation_def [of x] eta)
qed simp

lemma read_genesis_sound:
  assumes "sl_read_genesis seen as n bs = Inr (as', r)"
  shows "\<exists>xs. as' = as @ xs \<and> length xs = n \<and> list_all (\<lambda>a. so_well_formed (sg_output a)) xs
    \<and> distinct (map genesis_key xs) \<and> genesis_key ` set xs \<inter> set seen = {}"
  using assms
proof (induction n arbitrary: seen as bs)
  case (Suc n)
  from Suc.prems obtain key commitment amount bs' where k: "length key = 32" "length commitment = 32" "key \<notin> set seen"
    "sl_read_genesis (key # seen)
         (as @ [\<lparr>sg_output = \<lparr>so_public_key = key, so_amount_commitment = commitment\<rparr>, sg_amount_micro = from_be64 amount\<rparr>])
         n bs' = Inr (as', r)"
    by (auto simp: take_n_eq_Inr)
  let ?x = "\<lparr>sg_output = \<lparr>so_public_key = key, so_amount_commitment = commitment\<rparr>, sg_amount_micro = from_be64 amount\<rparr>"
  from Suc.IH [OF k(4)] obtain xs where "as' = (as @ [?x]) @ xs" "length xs = n" "list_all (\<lambda>a. so_well_formed (sg_output a)) xs"
    "distinct (map genesis_key xs)" "genesis_key ` set xs \<inter> set (key # seen) = {}" by blast
  then show ?case using k(1-3)
    by (intro exI [of _ "?x # xs"]) (auto simp: so_well_formed_def genesis_key_def [of ?x])
qed simp

lemma read_outputs_complete:
  assumes "list_all (\<lambda>e. length (fst e) = 32 \<and> length (snd e) = 32) xs" "bt_wf xs"
    "\<forall>a \<in> fst ` set m. \<forall>b \<in> fst ` set xs. a < b"
  shows "sl_read_outputs m (length xs) (concat (map put_pair xs) @ r) = Inr (m @ xs, r)"
  using assms
proof (induction xs arbitrary: m)
  case (Cons x xs)
  have lt: "\<forall>a \<in> fst ` set m. a < fst x" using Cons.prems(3) by simp
  then have new: "map_of m (fst x) = None" by (auto simp: map_of_eq_None_iff)
  have "sl_read_outputs (m @ [(fst x, snd x)]) (length xs) (concat (map put_pair xs) @ r) = Inr ((m @ [(fst x, snd x)]) @ xs, r)"
    by (rule Cons.IH) (use Cons.prems in \<open>auto simp: bt_wf_Cons\<close>)
  with Cons.prems(1) new show ?case by (simp add: put_pair_def [of x] bt_insert_last [OF lt])
qed simp

lemma read_outputs_sound:
  assumes "sl_read_outputs m n bs = Inr (m', r)" "bt_wf m" "\<forall>(k, v) \<in> set m. length k = 32 \<and> length v = 32"
  shows "bt_wf m' \<and> (\<forall>(k, v) \<in> set m'. length k = 32 \<and> length v = 32) \<and> length m' \<le> length m + n"
  using assms
proof (induction n arbitrary: m bs)
  case (Suc n)
  from Suc.prems(1) obtain key commitment bs' where k: "length key = 32" "length commitment = 32"
    "sl_read_outputs (bt_insert key commitment m) n bs' = Inr (m', r)" by (auto simp: take_n_eq_Inr)
  have "\<forall>(k, v) \<in> set (bt_insert key commitment m). length k = 32 \<and> length v = 32"
    using Suc.prems(3) k(1,2) set_bt_insert [of key commitment m] by auto
  from Suc.IH [OF k(3) _ this] Suc.prems(2) length_bt_insert [of key commitment m] show ?case by simp
qed simp

lemma read_applied_complete:
  "list_all (\<lambda>d. length d = 32) xs \<Longrightarrow> distinct (as @ xs) \<Longrightarrow>
     sl_read_applied as (length xs) (concat (map (\<lambda>d. d) xs) @ r) = Inr (as @ xs, r)"
proof (induction xs arbitrary: as)
  case (Cons x xs)
  then show ?case using Cons.IH [of "as @ [x]"] by simp
qed simp

lemma read_applied_sound:
  assumes "sl_read_applied as n bs = Inr (as', r)" "distinct as" "\<forall>d \<in> set as. length d = 32"
  shows "distinct as' \<and> (\<forall>d \<in> set as'. length d = 32) \<and> length as' = length as + n"
  using assms
proof (induction n arbitrary: as bs)
  case (Suc n)
  from Suc.prems(1) obtain d bs' where d: "length d = 32" "d \<notin> set as" "sl_read_applied (as @ [d]) n bs' = Inr (as', r)"
    by (auto simp: take_n_eq_Inr)
  from Suc.IH [OF d(3)] d(1,2) Suc.prems(2,3) show ?case by auto
qed simp

lemma sl_from_to_bytes:
  assumes "shielded_wf sl"
  shows "sl_from_bytes (sl_to_bytes sl) = Inr sl"
proof -
  note r = shielded_rows [OF assms]
  have c: "sl_count (to_be32 (len32 xs) @ x) = Inr (length xs, x)" if "length xs \<le> MAX_OUTPUTS" for xs :: "'a list" and x
    using that by (auto simp: sl_count_iff MAX_OUTPUTS_def MAX_LEDGER_SNAPSHOT_ENTRIES_def)
  have l: "length (sl_genesis sl) \<le> MAX_OUTPUTS" "length (sl_outputs sl) \<le> MAX_OUTPUTS" "length (sl_applied sl) \<le> MAX_OUTPUTS"
    and g: "distinct (map genesis_key (sl_genesis sl))" and w: "bt_wf (sl_outputs sl)" and d: "distinct (sl_applied sl)"
    using assms by (simp_all add: shielded_wf_def)
  have "\<lparr>sl_genesis = sl_genesis sl, sl_outputs = sl_outputs sl, sl_applied = sl_applied sl, sl_pool_micro = sl_pool_micro sl\<rparr> = sl"
    by simp
  then show ?thesis
    using read_genesis_complete [OF r(1) g, of "[]" "[]"] read_outputs_complete [OF r(3) w, of "[]"]
      read_applied_complete [OF r(5), of "[]"] d
    by (simp add: sl_from_bytes_def sl_to_bytes_rows Let_def c l del: map_ident)
qed

lemma sl_from_bytes_wf:
  assumes "sl_from_bytes bs = Inr sl"
  shows "shielded_wf sl"
proof -
  have c: "n \<le> MAX_OUTPUTS" if "sl_count b = Inr (n, r)" for b n r using that by (auto simp: sl_count_iff)
  from assms obtain b0 n1 b1 g b2 n2 b3 out b4 n3 b5 ap b6 p where
    g: "sl_count b0 = Inr (n1, b1)" "sl_read_genesis [] [] n1 b1 = Inr (g, b2)"
    and o: "sl_count b2 = Inr (n2, b3)" "sl_read_outputs [] n2 b3 = Inr (out, b4)"
    and a: "sl_count b4 = Inr (n3, b5)" "sl_read_applied [] n3 b5 = Inr (ap, b6)"
    and s: "sl = \<lparr>sl_genesis = g, sl_outputs = out, sl_applied = ap, sl_pool_micro = p\<rparr>"
    unfolding sl_from_bytes_def Let_def by (simp only: andThen_eq_Inr split_paired_Ex prod.case ensure_eq_Inr sum.inject) blast
  from read_genesis_sound [OF g(2)] have "list_all (\<lambda>a. so_well_formed (sg_output a)) g" "distinct (map genesis_key g)"
    "length g = n1" by auto
  moreover from read_outputs_sound [OF o(2)] have "bt_wf out" "\<forall>(k, v) \<in> set out. length k = 32 \<and> length v = 32"
    "length out \<le> n2" by simp_all
  moreover from read_applied_sound [OF a(2)] have "distinct ap" "\<forall>d \<in> set ap. length d = 32" "length ap = n3" by simp_all
  ultimately show ?thesis using c [OF g(1)] c [OF o(1)] c [OF a(1)] by (simp add: shielded_wf_def s)
qed

section \<open>What the encoder writes\<close>

definition snapshot_bytes :: "LedgerState \<Rightarrow> bytes" where
  "snapshot_bytes s =
     SNAPSHOT_DOMAIN @ ls_network_id s @ counted put_mark (ls_finalized s) @ counted put_refusal (ls_rejected s)
       @ counted put_image (ls_nullifiers s) @ put_bytes (sl_to_bytes (ls_shielded s))
       @ put_monetary (export_snapshot (ls_monetary s)) @ counted put_balance (ls_balances s)
       @ to_be128 (ls_allocated_circulating s) @ to_be128 (ls_unallocated_circulating s)"

text \<open>What a snapshot can hold.\<close>

definition fits_snapshot :: "LedgerState \<Rightarrow> bool" where
  "fits_snapshot s =
     (length (ls_finalized s) \<le> MAX_LEDGER_SNAPSHOT_ENTRIES \<and> length (ls_rejected s) \<le> MAX_LEDGER_SNAPSHOT_ENTRIES
      \<and> length (ls_nullifiers s) \<le> MAX_LEDGER_SNAPSHOT_ENTRIES \<and> length (ls_balances s) \<le> MAX_LEDGER_SNAPSHOT_ENTRIES
      \<and> length (ml_positions (ls_monetary s)) \<le> MAX_VESTING_POSITIONS
      \<and> list_all (\<lambda>p. subject_writable (vp_subject p)) (ml_positions (ls_monetary s))
      \<and> length (snapshot_bytes s) \<le> MAX_LEDGER_SNAPSHOT_BYTES)"

lemma add_snapshot_len_Inr:
  "add_snapshot_len n k = Inr n' \<longleftrightarrow> n' = n + k \<and> n' \<le> MAX_LEDGER_SNAPSHOT_BYTES"
  by (auto simp: add_snapshot_len_def)

lemma add_lens_Inr:
  assumes "\<And>x n n'. x \<in> set xs \<Longrightarrow> n \<le> MAX_LEDGER_SNAPSHOT_BYTES \<Longrightarrow>
      f x n = Inr n' \<longleftrightarrow> ok x \<and> n' = n + len x \<and> n' \<le> MAX_LEDGER_SNAPSHOT_BYTES"
    and "n \<le> MAX_LEDGER_SNAPSHOT_BYTES"
  shows "add_lens f xs n = Inr n' \<longleftrightarrow> list_all ok xs \<and> n' = n + sum_list (map len xs) \<and> n' \<le> MAX_LEDGER_SNAPSHOT_BYTES"
  using assms
proof (induction xs arbitrary: n)
  case (Cons x xs)
  have "add_lens f (x # xs) n = Inr n' \<longleftrightarrow>
      ok x \<and> n + len x \<le> MAX_LEDGER_SNAPSHOT_BYTES \<and> add_lens f xs (n + len x) = Inr n'"
    using Cons.prems(1) [OF _ Cons.prems(2), of x] by auto
  also have "\<dots> \<longleftrightarrow> ok x \<and> n + len x \<le> MAX_LEDGER_SNAPSHOT_BYTES \<and> list_all ok xs
      \<and> n' = n + len x + sum_list (map len xs) \<and> n' \<le> MAX_LEDGER_SNAPSHOT_BYTES"
    using Cons.IH [of "n + len x", OF Cons.prems(1)] by auto
  finally show ?case by auto
qed auto

lemma add_key_len_Inr:
  "add_key_len fixed k n = Inr n' \<longleftrightarrow> length k < 2 ^ 32 \<and> n' = n + (4 + length k + fixed) \<and> n' \<le> MAX_LEDGER_SNAPSHOT_BYTES"
  by (auto simp: add_key_len_def add_snapshot_len_Inr)

lemma length_put_bytes [simp]: "length (put_bytes b) = 4 + length b"
  by (simp add: put_bytes_def)

lemma add_position_len_Inr:
  assumes "subject_typed (vp_subject p)"
  shows "add_position_len p n = Inr n' \<longleftrightarrow>
    subject_writable (vp_subject p) \<and> n' = n + length (put_position32 p) \<and> n' \<le> MAX_LEDGER_SNAPSHOT_BYTES"
proof (cases "vp_subject p")
  case (SnapshotSubject h)
  then show ?thesis using assms
    by (auto simp: add_position_len_def add_snapshot_len_Inr subject_writable_def put_position32_def put_subject32_def
        subject_typed_def)
next
  case (Beneficiary b)
  then show ?thesis using limits_small(4)
    by (auto simp: add_position_len_def add_snapshot_len_Inr add_key_len_Inr subject_writable_def put_position32_def
        put_subject32_def split: if_splits)
qed

lemma length_rows:
  "(\<forall>x \<in> set xs. length (enc x) = len x) \<Longrightarrow> length (concat (map enc xs)) = sum_list (map len xs)"
  by (induction xs) auto

lemma length_counted [simp]: "length (counted enc xs) = 4 + sum_list (map (\<lambda>x. length (enc x)) xs)"
  by (simp add: counted_def length_rows [where len = "\<lambda>x. length (enc x)"])

lemma add_key_lens_Inr:
  assumes "n \<le> MAX_LEDGER_SNAPSHOT_BYTES" "\<forall>e \<in> set m. length (fst e) < 2 ^ 32 \<and> length (enc e) = 4 + length (fst e) + fixed"
  shows "add_lens (add_key_len fixed) (map fst m) n = Inr n' \<longleftrightarrow>
    n' = n + sum_list (map (\<lambda>e. length (enc e)) m) \<and> n' \<le> MAX_LEDGER_SNAPSHOT_BYTES"
proof -
  have "map ((\<lambda>k. 4 + length k + fixed) \<circ> fst) m = map (\<lambda>e. length (enc e)) m" using assms(2) by auto
  then have "sum_list (map ((\<lambda>k. 4 + length k + fixed) \<circ> fst) m) = sum_list (map (\<lambda>e. length (enc e)) m)"
    by (rule arg_cong)
  then show ?thesis
    using add_lens_Inr [of "map fst m" "add_key_len fixed" "\<lambda>k. length k < 2 ^ 32" "\<lambda>k. 4 + length k + fixed" n n'] assms
    by (simp add: add_key_len_Inr list_all_iff)
qed

lemma snapshot_rows:
  assumes "state_wf C s"
  shows "\<forall>e \<in> set (ls_finalized s). length (fst e) < 2 ^ 32 \<and> length (put_mark e) = 4 + length (fst e) + (8 + 32)"
    "\<forall>e \<in> set (ls_rejected s). length (put_refusal e) = 33"
    "\<forall>e \<in> set (ls_nullifiers s). length (fst e) < 2 ^ 32 \<and> length (put_image e) = 4 + length (fst e) + 32"
    "\<forall>e \<in> set (ls_balances s). length (fst e) < 2 ^ 32 \<and> length (put_balance e) = 4 + length (fst e) + 16"
    "\<forall>p \<in> set (ml_positions (ls_monetary s)). subject_typed (vp_subject p)"
proof -
  have a: "length k < 2 ^ 32" if "is_supported_account C k" for k
    using supported_bound [OF that] limits_small(1) by linarith
  show "\<forall>e \<in> set (ls_finalized s). length (fst e) < 2 ^ 32 \<and> length (put_mark e) = 4 + length (fst e) + (8 + 32)"
    using assms a by (force simp: state_wf_def accounts_wf_def put_mark_def)
  show "\<forall>e \<in> set (ls_rejected s). length (put_refusal e) = 33"
    using assms by (force simp: state_wf_def accounts_wf_def put_refusal_def)
  show "\<forall>e \<in> set (ls_nullifiers s). length (fst e) < 2 ^ 32 \<and> length (put_image e) = 4 + length (fst e) + 32"
    using assms limits_small(2) by (force simp: state_wf_def images_wf_def put_image_def)
  show "\<forall>e \<in> set (ls_balances s). length (fst e) < 2 ^ 32 \<and> length (put_balance e) = 4 + length (fst e) + 16"
    using assms a by (force simp: state_wf_def accounts_wf_def put_balance_def)
  show "\<forall>p \<in> set (ml_positions (ls_monetary s)). subject_typed (vp_subject p)"
    using assms by (simp add: state_wf_def monetary_wf_def list_all_iff)
qed

lemma snapshot_encoded_len_Inr:
  assumes wf: "state_wf C s"
  shows "snapshot_encoded_len s (export_snapshot (ls_monetary s)) = Inr n \<longleftrightarrow>
    list_all (\<lambda>p. subject_writable (vp_subject p)) (ml_positions (ls_monetary s))
    \<and> n = length (snapshot_bytes s) \<and> n \<le> MAX_LEDGER_SNAPSHOT_BYTES"
proof -
  note r = snapshot_rows [OF wf]
  let ?f = "sum_list (map (\<lambda>e. length (put_mark e)) (ls_finalized s))"
  let ?r = "length (ls_rejected s) * 33"
  let ?i = "sum_list (map (\<lambda>e. length (put_image e)) (ls_nullifiers s))"
  let ?s = "length (sl_to_bytes (ls_shielded s))"
  let ?p = "sum_list (map (\<lambda>p. length (put_position32 p)) (ml_positions (ls_monetary s)))"
  let ?b = "sum_list (map (\<lambda>e. length (put_balance e)) (ls_balances s))"
  let ?e = "if ml_last_epoch (ls_monetary s) = None then 0 else 8 :: nat"
  have pos: "add_lens add_position_len (ml_positions (ls_monetary s)) m = Inr m' \<longleftrightarrow>
      list_all (\<lambda>p. subject_writable (vp_subject p)) (ml_positions (ls_monetary s)) \<and> m' = m + ?p
      \<and> m' \<le> MAX_LEDGER_SNAPSHOT_BYTES" if "m \<le> MAX_LEDGER_SNAPSHOT_BYTES" for m m'
    by (rule add_lens_Inr [OF _ that]) (use r(5) add_position_len_Inr in blast)
  have fin: "add_lens (add_key_len 40) (map fst (ls_finalized s)) m = Inr m' \<longleftrightarrow> m' = m + ?f \<and> m' \<le> MAX_LEDGER_SNAPSHOT_BYTES"
    if "m \<le> MAX_LEDGER_SNAPSHOT_BYTES" for m m' using add_key_lens_Inr [OF that r(1)] by simp
  have opt: "(if ml_last_epoch (ls_monetary s) \<noteq> None then add_snapshot_len m 8 else Inr m) = Inr m' \<longleftrightarrow>
      m' = m + ?e \<and> m' \<le> MAX_LEDGER_SNAPSHOT_BYTES" if "m \<le> MAX_LEDGER_SNAPSHOT_BYTES" for m m'
    using that by (cases "ml_last_epoch (ls_monetary s)") (auto simp: add_snapshot_len_Inr)
  have rej: "sum_list (map (\<lambda>e. length (put_refusal e)) (ls_rejected s)) = ?r"
    using r(2) by (induction "ls_rejected s") (auto simp: sum_list_triv map_eq_conv cong: map_cong)
  have len: "length (snapshot_bytes s) = length SNAPSHOT_DOMAIN + 32 + 4 + ?f + 4 + ?r + 4 + ?i + (4 + ?s) + 49 + ?e + 4 + ?p + 4 + ?b + 32"
    using wf by (simp add: snapshot_bytes_def put_monetary_def rej state_wf_def export_snapshot_sel split: option.split)
  show ?thesis
    unfolding snapshot_encoded_len_def len export_snapshot_sel
    by (auto simp: add_snapshot_len_Inr fin add_key_lens_Inr [OF _ r(3)] add_key_lens_Inr [OF _ r(4)]
        pos opt)
qed

lemma row_encoders:
  "put_rows (\<lambda>(payer, sequence, digest). andThen (sn_put_bytes payer) (\<lambda>k. Inr (k @ to_be64 sequence @ digest))) f = Inr b
     \<longleftrightarrow> list_all (\<lambda>e. length (fst e) < 2 ^ 32) f \<and> b = concat (map put_mark f)"
  "put_rows (\<lambda>(digest, reason). Inr (digest @ [sn_rejection_tag reason])) r = Inr b
     \<longleftrightarrow> list_all (\<lambda>_. True) r \<and> b = concat (map put_refusal r)"
  "put_rows (\<lambda>(key_image, digest). andThen (sn_put_bytes key_image) (\<lambda>k. Inr (k @ digest))) i = Inr b
     \<longleftrightarrow> list_all (\<lambda>e. length (fst e) < 2 ^ 32) i \<and> b = concat (map put_image i)"
  "put_rows (\<lambda>(account, amount). andThen (sn_put_bytes account) (\<lambda>k. Inr (k @ to_be128 amount))) a = Inr b
     \<longleftrightarrow> list_all (\<lambda>e. length (fst e) < 2 ^ 32) a \<and> b = concat (map put_balance a)"
  by (rule put_rows_Inr; auto simp: sn_put_bytes_Inr put_mark_def put_refusal_def put_image_def put_balance_def split_beta)+

lemma counted_count: "to_be32 (of_nat (length xs)) @ concat (map enc xs) @ r = counted enc xs @ r"
  by (simp add: counted_def len32_def)

lemma to_snapshot_Inr:
  assumes wf: "state_wf C s"
  shows "to_snapshot_bytes s = Inr b \<longleftrightarrow> fits_snapshot s \<and> b = snapshot_bytes s"
proof -
  note r = snapshot_rows [OF wf]
  have keys: "list_all (\<lambda>e. length (fst e) < 2 ^ 32) (ls_finalized s)" "list_all (\<lambda>e. length (fst e) < 2 ^ 32) (ls_nullifiers s)"
    "list_all (\<lambda>e. length (fst e) < 2 ^ 32) (ls_balances s)" using r(1,3,4) by (simp_all add: list_all_iff)
  have sl: "length (sl_to_bytes (ls_shielded s)) \<le> length (snapshot_bytes s)" by (simp add: snapshot_bytes_def)
  show ?thesis
  proof
    assume "to_snapshot_bytes s = Inr b"
    then show "fits_snapshot s \<and> b = snapshot_bytes s"
      by (auto simp: to_snapshot_bytes_def Let_def export_snapshot_sel snapshot_encoded_len_Inr [OF wf] put_count_Inr
          row_encoders encode_monetary_Inr sn_put_bytes_Inr fits_snapshot_def counted_count simp del: tags_agree)
         (simp_all add: snapshot_bytes_def counted_count)
  next
    assume f: "fits_snapshot s \<and> b = snapshot_bytes s"
    then have e: "snapshot_encoded_len s (export_snapshot (ls_monetary s)) = Inr (length (snapshot_bytes s))"
      by (simp add: snapshot_encoded_len_Inr [OF wf] fits_snapshot_def)
    have c: "put_count (length xs) = Inr (to_be32 (len32 xs))" if "length xs \<le> MAX_LEDGER_SNAPSHOT_ENTRIES" for xs :: "'x list"
      using that limits_small(5) by (simp add: put_count_Inr len32_def)
    have "encode_monetary (export_snapshot (ls_monetary s)) = Inr (put_monetary (export_snapshot (ls_monetary s)))"
      using f limits_small(6) by (simp add: encode_monetary_Inr export_snapshot_sel fits_snapshot_def)
    moreover have "sn_put_bytes (sl_to_bytes (ls_shielded s)) = Inr (put_bytes (sl_to_bytes (ls_shielded s)))"
      using f sl limits_small(3) by (simp add: sn_put_bytes_Inr fits_snapshot_def)
    moreover have "put_rows (\<lambda>(payer, sequence, digest). andThen (sn_put_bytes payer) (\<lambda>k. Inr (k @ to_be64 sequence @ digest)))
        (ls_finalized s) = Inr (concat (map put_mark (ls_finalized s)))"
      "put_rows (\<lambda>(digest, reason). Inr (digest @ [sn_rejection_tag reason])) (ls_rejected s)
        = Inr (concat (map put_refusal (ls_rejected s)))"
      "put_rows (\<lambda>(key_image, digest). andThen (sn_put_bytes key_image) (\<lambda>k. Inr (k @ digest))) (ls_nullifiers s)
        = Inr (concat (map put_image (ls_nullifiers s)))"
      "put_rows (\<lambda>(account, amount). andThen (sn_put_bytes account) (\<lambda>k. Inr (k @ to_be128 amount))) (ls_balances s)
        = Inr (concat (map put_balance (ls_balances s)))"
      unfolding row_encoders using keys by (simp_all add: list_all_iff)
    ultimately show "to_snapshot_bytes s = Inr b"
      using f unfolding to_snapshot_bytes_def Let_def
      by (simp add: e c fits_snapshot_def export_snapshot_sel snapshot_bytes_def counted_def del: tags_agree)
  qed
qed

section \<open>The decoder accepts exactly the encodings of well-formed states\<close>

lemma subject32_ok_iff:
  "subject32_ok s \<and> subject_writable s \<longleftrightarrow> subject_typed s \<and> subject_writable s"
  by (cases s) (auto simp: subject32_ok_def subject_typed_def subject_writable_def MAX_SNAPSHOT_BENEFICIARY_BYTES_def)

lemma subject32_typed: "subject32_ok s \<Longrightarrow> subject_typed s"
  by (cases s) (auto simp: subject32_ok_def subject_typed_def MAX_SNAPSHOT_BENEFICIARY_BYTES_def)

lemma from_snapshot_sound:
  assumes "from_snapshot_bytes C b = Inr s"
  shows "state_wf C s \<and> is_ok (total_supply (ls_monetary s)) \<and> to_snapshot_bytes s = Inr b"
proof -
  from assms obtain net b2 fin b3 rej b4 nul b5 x b6 sh ms b7 mon bal b8 alloc b9 unalloc b10 where
    n: "sn_take 32 b2 = Inr (net, b3)"
    and f: "read_map (sn_bytes MAX_ACCOUNT_BYTES) (is_supported_account C) read_mark b3 = Inr (fin, b4)"
    and r: "read_map (sn_take 32) (\<lambda>_. True) read_rejection b4 = Inr (rej, b5)"
    and i: "read_map (sn_bytes MAX_KEY_IMAGE_BYTES) (\<lambda>k. k \<noteq> []) (sn_take 32) b5 = Inr (nul, b6)"
    and h: "sl_from_bytes x = Inr sh" and m: "decode_monetary b7 = Inr (ms, b8)" "import_snapshot ms = Inr mon"
    and a: "read_map (sn_bytes MAX_ACCOUNT_BYTES) (is_supported_account C) read_amount b8 = Inr (bal, b9)"
    and s: "s = \<lparr>ls_network_id = net, ls_finalized = fin, ls_rejected = rej, ls_nullifiers = nul, ls_monetary = mon,
       ls_shielded = sh, ls_balances = bal, ls_allocated_circulating = alloc, ls_unallocated_circulating = unalloc\<rparr>"
    and v: "verify_supply_conservation s = Inr ()" "verify_balance_map_total s = Inr ()" "to_snapshot_bytes s = Inr b"
    unfolding from_snapshot_bytes_def Let_def
    by (simp only: andThen_eq_Inr map_err_eq_Inr split_paired_Ex prod.case ensure_eq_Inr sum.inject split: if_splits) auto
  have mon: "ledger_ok mon" "is_ok (total_supply mon)" "list_all (\<lambda>p. subject_typed (vp_subject p)) (ml_positions mon)"
    using m by (auto simp: snapshot_accepts_exactly_well_formed decode_monetary_iff export_snapshot_sel list_all_iff subject32_typed)
  have "accounts_wf C s"
    using f r a v(2) by (simp add: accounts_wf_def s read_marks_iff read_refusals_iff read_balances_iff verify_balance_total_iff)
  moreover have "images_wf (ls_nullifiers s)" "length (ls_network_id s) = 32" using i n by (simp_all add: s read_images_iff sn_iff)
  moreover have "shielded_wf (ls_shielded s)" using sl_from_bytes_wf [OF h] by (simp add: s)
  moreover have "monetary_wf (ls_monetary s)" using mon by (simp add: s monetary_wf_def)
  moreover have "supply_ok s" using v(1) by (simp add: verify_supply_iff)
  ultimately show ?thesis using v(3) mon(2) by (simp add: state_wf_def s)
qed

text \<open>The bytes of a well-formed state read back field by field; the monetary ledger is imported last.\<close>

lemma from_snapshot_import:
  assumes wf: "state_wf C s" and b: "to_snapshot_bytes s = Inr b"
  shows "from_snapshot_bytes C b =
    andThen (map_err InvalidMonetaryEpoch (import_snapshot (export_snapshot (ls_monetary s)))) (\<lambda>m.
      andThen (verify_supply_conservation (s\<lparr>ls_monetary := m\<rparr>)) (\<lambda>_.
      andThen (verify_balance_map_total (s\<lparr>ls_monetary := m\<rparr>)) (\<lambda>_.
      andThen (to_snapshot_bytes (s\<lparr>ls_monetary := m\<rparr>)) (\<lambda>again.
      andThen (ensure (again = b) SnapshotMalformed) (\<lambda>_. Inr (s\<lparr>ls_monetary := m\<rparr>))))))"
proof -
  from b to_snapshot_Inr [OF wf] have fit: "fits_snapshot s" and bs: "b = snapshot_bytes s" by blast+
  from wf have w: "length (ls_network_id s) = 32" "accounts_wf C s" "images_wf (ls_nullifiers s)" "shielded_wf (ls_shielded s)"
    "monetary_wf (ls_monetary s)" "supply_ok s" by (simp_all add: state_wf_def)
  have f: "read_map (sn_bytes MAX_ACCOUNT_BYTES) (is_supported_account C) read_mark (counted put_mark (ls_finalized s) @ r)
      = Inr (ls_finalized s, r)" for r
    using w(2) fit by (simp add: read_marks_iff accounts_wf_def fits_snapshot_def)
  have j: "read_map (sn_take 32) (\<lambda>_. True) read_rejection (counted put_refusal (ls_rejected s) @ r) = Inr (ls_rejected s, r)" for r
    using w(2) fit by (simp add: read_refusals_iff accounts_wf_def fits_snapshot_def)
  have i: "read_map (sn_bytes MAX_KEY_IMAGE_BYTES) (\<lambda>k. k \<noteq> []) (sn_take 32) (counted put_image (ls_nullifiers s) @ r)
      = Inr (ls_nullifiers s, r)" for r
    using w(3) fit by (simp add: read_images_iff fits_snapshot_def)
  have h: "sn_bytes MAX_LEDGER_SNAPSHOT_BYTES (put_bytes (sl_to_bytes (ls_shielded s)) @ r) = Inr (sl_to_bytes (ls_shielded s), r)" for r
    using fit by (simp add: sn_field_iff fits_snapshot_def snapshot_bytes_def)
  have sub: "subject32_ok (vp_subject p)" if "p \<in> set (ml_positions (ls_monetary s))" for p
    using that w(5) fit subject32_ok_iff by (auto simp: monetary_wf_def fits_snapshot_def list_all_iff)
  have m: "decode_monetary (put_monetary (export_snapshot (ls_monetary s)) @ r) = Inr (export_snapshot (ls_monetary s), r)" for r
    using fit sub by (simp add: decode_monetary_iff export_snapshot_sel fits_snapshot_def list_all_iff)
  have a: "read_map (sn_bytes MAX_ACCOUNT_BYTES) (is_supported_account C) read_amount (counted put_balance (ls_balances s) @ r)
      = Inr (ls_balances s, r)" for r
    using w(2) fit by (simp add: read_balances_iff accounts_wf_def fits_snapshot_def)
  have u: "sn_u128 (to_be128 y @ r) = Inr (y, r)" "sn_u128 (to_be128 y) = Inr (y, [])" for y r by (simp_all add: sn_iff)
  have d: "sn_take (length SNAPSHOT_DOMAIN) (SNAPSHOT_DOMAIN @ r) = Inr (SNAPSHOT_DOMAIN, r)"
    "sn_take 32 (ls_network_id s @ r) = Inr (ls_network_id s, r)" for r using w(1) by (simp_all add: sn_iff)
  have l: "\<not> length b > MAX_LEDGER_SNAPSHOT_BYTES" using fit by (simp add: bs fits_snapshot_def)
  have eta: "\<lparr>ls_network_id = ls_network_id s, ls_finalized = ls_finalized s, ls_rejected = ls_rejected s,
      ls_nullifiers = ls_nullifiers s, ls_monetary = n, ls_shielded = ls_shielded s, ls_balances = ls_balances s,
      ls_allocated_circulating = ls_allocated_circulating s, ls_unallocated_circulating = ls_unallocated_circulating s\<rparr>
      = s\<lparr>ls_monetary := n\<rparr>" for n
    by simp
  show ?thesis
    unfolding from_snapshot_bytes_def if_not_P [OF l] Let_def
    by (simp add: bs snapshot_bytes_def d f j i h sl_from_to_bytes [OF w(4)] m a u eta del: andThen_eq_Inr)
qed

lemma from_snapshot_complete:
  assumes wf: "state_wf C s" and t: "is_ok (total_supply (ls_monetary s))" and b: "to_snapshot_bytes s = Inr b"
  shows "from_snapshot_bytes C b = Inr s"
proof -
  have "fits_snapshot s" using b to_snapshot_Inr [OF wf] by blast
  then have "snapshot_sized (ls_monetary s)"
    by (auto simp: fits_snapshot_def snapshot_sized_def list_all_iff subject_writable_def split: VestingSubject.splits)
  then have "import_snapshot (export_snapshot (ls_monetary s)) = Inr (ls_monetary s)"
    using t wf by (simp add: snapshot_accepts_exactly_well_formed state_wf_def monetary_wf_def)
  moreover have "verify_supply_conservation s = Inr ()" "verify_balance_map_total s = Inr ()"
    using wf by (simp_all add: verify_supply_iff verify_balance_total_iff accounts_wf_def state_wf_def)
  ultimately show ?thesis using from_snapshot_import [OF wf b] b by simp
qed

text \<open>A state whose total supply overflows encodes, but its bytes are refused.\<close>

lemma from_snapshot_overflow:
  assumes wf: "state_wf C s" and t: "\<not> is_ok (total_supply (ls_monetary s))" and b: "to_snapshot_bytes s = Inr b"
  shows "\<exists>e. from_snapshot_bytes C b = Inl (InvalidMonetaryEpoch e)"
proof -
  have "import_snapshot (export_snapshot (ls_monetary s)) \<noteq> Inr m" for m
    using t import_export_sound by blast
  then obtain e where "import_snapshot (export_snapshot (ls_monetary s)) = Inl e"
    by (cases "import_snapshot (export_snapshot (ls_monetary s))") auto
  then show ?thesis using from_snapshot_import [OF wf b] by simp
qed

end
