(* ===== verification/Checkpoint.thy ===== *)
theory Checkpoint
  imports Snapshot
begin

text \<open>
  Checkpoints: a node that exports its ledger state and a node that restores from it
  (\<open>LedgerChain::from_finalized_snapshot_with_verifier\<close>). Restoring replays the whole history of
  shielded claims against the verifier; the history a chain accumulated always replays.
\<close>

section \<open>The verifier of shielded claims\<close>

text \<open>
  What the trait \<open>ClaimVerifier\<close> documents of its implementations: behind a digest there is at most one
  claim, and a group of records is accepted exactly when its key images are those of the claim, each
  once, and all carry its digest. \<open>evidence\<close> gives the key images and the effects of the claims that
  verify.
\<close>

type_synonym claim_evidence = "bytes \<Rightarrow> (bytes list \<times> ShieldedClaimEffects) option"

definition group_matches :: "bytes \<Rightarrow> bytes list \<Rightarrow> NullifierRecord list \<Rightarrow> bool" where
  "group_matches digest images g =
     (list_all (\<lambda>r. nr_claim_digest r = digest) g \<and> distinct (map nr_key_image g)
      \<and> set (map nr_key_image g) = set images)"

definition exact_verifier :: "ClaimVerifier \<Rightarrow> bytes \<Rightarrow> claim_evidence \<Rightarrow> bool" where
  "exact_verifier v network evidence =
     (\<forall>d g. verify_claim v network d g =
        (case evidence d of None \<Rightarrow> None
         | Some (images, effects) \<Rightarrow> if group_matches d images g then Some effects else None))"

lemma exact_verifier_Some:
  "exact_verifier v network ev \<Longrightarrow> verify_claim v network d g = Some e \<longleftrightarrow>
     (\<exists>images. ev d = Some (images, e) \<and> group_matches d images g)"
  by (auto simp: exact_verifier_def split: option.split)

section \<open>Histories that replay\<close>

fun replays :: "claim_evidence \<Rightarrow> ShieldedLedger \<Rightarrow> bytes list \<Rightarrow> ShieldedLedger \<Rightarrow> bool" where
  "replays ev sl [] sl' = (sl' = sl)"
| "replays ev sl (d # ds) sl' =
     (\<exists>images effects fee t. ev d = Some (images, effects) \<and> sl_apply sl d effects = Inr (fee, t) \<and> replays ev t ds sl')"

lemma replays_snoc:
  "replays ev sl ds t \<Longrightarrow> ev d = Some (images, effects) \<Longrightarrow> sl_apply t d effects = Inr (fee, u) \<Longrightarrow> replays ev sl (ds @ [d]) u"
  by (induction ds arbitrary: sl) auto

definition history :: "ClaimVerifier \<Rightarrow> claim_evidence \<Rightarrow> LedgerState \<Rightarrow> bool" where
  "history v ev s =
     ((\<exists>sl. sl_from_genesis (ls_network_id s) (sl_genesis (ls_shielded s)) v = Inr sl
         \<and> replays ev sl (sl_applied (ls_shielded s)) (ls_shielded s))
      \<and> (\<forall>d \<in> set (sl_applied (ls_shielded s)). \<exists>images effects. ev d = Some (images, effects) \<and> images \<noteq> []
           \<and> (\<forall>k. k \<in> set images \<longleftrightarrow> finalized_nullifier s k = Some d))
      \<and> (\<forall>k d. finalized_nullifier s k = Some d \<longrightarrow> d \<in> set (sl_applied (ls_shielded s))))"

lemma sort_key_sorted: "sorted (map f xs) \<Longrightarrow> sort_key f xs = xs"
  by (induction xs) (simp_all add: insort_is_Cons)

lemma sl_from_genesis_again:
  assumes "sl_from_genesis network as v = Inr sl"
  shows "sl_from_genesis network (sl_genesis sl) v = Inr sl"
proof -
  let ?f = "\<lambda>a. (so_public_key (sg_output a), so_amount_commitment (sg_output a))"
  have "sort_key ?f (sort_key ?f as) = sort_key ?f as" by (rule sort_key_sorted) (rule sorted_sort_key)
  with assms show ?thesis by (auto simp: sl_from_genesis_def Let_def split: if_splits)
qed

lemma sl_from_genesis_Nil [simp]: "sl_from_genesis network [] v = Inr sl_default"
  by (simp add: sl_from_genesis_def sl_default_def)

lemma sl_genesis_loop_keeps:
  "sl_genesis_loop network v sl as = Inr sl' \<Longrightarrow> sl_applied sl' = sl_applied sl"
  by (induction as arbitrary: sl) (auto split: if_splits)

lemma sl_from_genesis_applied: "sl_from_genesis network as v = Inr sl \<Longrightarrow> sl_applied sl = []"
  by (auto simp: sl_from_genesis_def Let_def sl_default_def dest!: sl_genesis_loop_keeps split: if_splits)

section \<open>Replay accepts a history\<close>

lemma push_all_groups:
  "map_of (fold (\<lambda>(image, digest). push_group digest \<lparr>nr_key_image = image, nr_claim_digest = digest\<rparr>) ns groups) d =
     (let g = map (\<lambda>e. \<lparr>nr_key_image = fst e, nr_claim_digest = d\<rparr>) (filter (\<lambda>e. snd e = d) ns) in
      if g = [] then map_of groups d else Some (get_or [] (map_of groups d) @ g))"
  by (induction ns arbitrary: groups) (auto simp: push_group_def Let_def)

lemma replay_loop_ok:
  assumes "replays ev sl ds sl'" "distinct ds"
    and "\<forall>d \<in> set ds. \<exists>g images effects. map_of groups d = Some g \<and> ev d = Some (images, effects)
           \<and> verify_claim v network d g = Some effects"
  shows "replay_loop network v sl groups ds = Inr (sl', filter (\<lambda>e. fst e \<notin> set ds) groups)"
  using assms
proof (induction ds arbitrary: sl groups)
  case (Cons d ds)
  from Cons.prems(1) obtain images effects fee t where d: "ev d = Some (images, effects)"
    "sl_apply sl d effects = Inr (fee, t)" "replays ev t ds sl'" by auto
  from Cons.prems(3) d(1) obtain g where g: "map_of groups d = Some g" "verify_claim v network d g = Some effects" by auto
  have "\<forall>d' \<in> set ds. \<exists>g images effects. map_of (bt_remove d groups) d' = Some g \<and> ev d' = Some (images, effects)
           \<and> verify_claim v network d' g = Some effects"
    using Cons.prems(2,3) by auto
  from Cons.IH [OF d(3) _ this] Cons.prems(2) d(2) g
  show ?case by (simp add: bt_remove_def)
qed simp

lemma history_verifies:
  assumes ev: "exact_verifier v (ls_network_id s) ev" and h: "history v ev s"
    and wf: "images_wf (ls_nullifiers s)" "shielded_wf (ls_shielded s)"
  shows "verify_shielded_claims s (Some v) = Inr ()"
proof (cases "ls_shielded s = sl_default \<and> ls_nullifiers s = []")
  case False
  let ?ns = "ls_nullifiers s" and ?ds = "sl_applied (ls_shielded s)" and ?net = "ls_network_id s"
  let ?groups = "fold (\<lambda>(image, digest). push_group digest \<lparr>nr_key_image = image, nr_claim_digest = digest\<rparr>) ?ns []"
  have m: "map_of ?groups d = (let g = map (\<lambda>e. \<lparr>nr_key_image = fst e, nr_claim_digest = d\<rparr>) (filter (\<lambda>e. snd e = d) ?ns) in
      if g = [] then None else Some g)" for d by (simp add: push_all_groups Let_def)
  from h obtain sl where sl: "sl_from_genesis ?net (sl_genesis (ls_shielded s)) v = Inr sl" "replays ev sl ?ds (ls_shielded s)"
    by (auto simp: history_def)
  have dist: "distinct (map fst ?ns)" using wf(1) bt_wf_distinct by (auto simp: images_wf_def)
  have mem: "(k, d) \<in> set ?ns \<longleftrightarrow> finalized_nullifier s k = Some d" for k d
    using dist by (simp add: finalized_nullifier_def)
  have groups: "\<exists>g images effects. map_of ?groups d = Some g \<and> ev d = Some (images, effects) \<and> verify_claim v ?net d g = Some effects"
    if d: "d \<in> set ?ds" for d
  proof -
    from h d obtain images effects where e: "ev d = Some (images, effects)" "images \<noteq> []"
      "\<forall>k. k \<in> set images \<longleftrightarrow> finalized_nullifier s k = Some d" by (auto simp: history_def)
    let ?g = "map (\<lambda>e. \<lparr>nr_key_image = fst e, nr_claim_digest = d\<rparr>) (filter (\<lambda>e. snd e = d) ?ns)"
    have keys: "map nr_key_image ?g = map fst (filter (\<lambda>e. snd e = d) ?ns)" by simp
    have "set (map nr_key_image ?g) = set images" unfolding keys using e(3) mem by force
    moreover have "distinct (map nr_key_image ?g)" unfolding keys using dist by (rule distinct_map_filter)
    ultimately have "group_matches d images ?g" by (simp add: group_matches_def list_all_iff)
    then have "verify_claim v ?net d ?g = Some effects" using exact_verifier_Some [OF ev] e(1) by blast
    moreover have "?g \<noteq> []" using \<open>set (map nr_key_image ?g) = set images\<close> e(2) by force
    then have "map_of ?groups d = Some ?g" unfolding m Let_def by (rule if_not_P)
    ultimately show ?thesis using e(1) by blast
  qed
  have "fst e \<in> set ?ds" if "e \<in> set ?groups" for e
  proof -
    have "map_of ?groups (fst e) \<noteq> None" using that by (auto simp: map_of_eq_None_iff)
    then obtain k where "(k, fst e) \<in> set ?ns" unfolding m by (auto simp: Let_def filter_empty_conv split: if_splits)
    then have "finalized_nullifier s k = Some (fst e)" using mem by blast
    then show ?thesis using h by (auto simp: history_def)
  qed
  then have "filter (\<lambda>e. fst e \<notin> set ?ds) ?groups = []" by (simp add: filter_empty_conv)
  moreover have "distinct ?ds" using wf(2) by (simp add: shielded_wf_def)
  ultimately have "replay_loop ?net v sl ?groups ?ds = Inr (ls_shielded s, [])"
    using replay_loop_ok [OF sl(2), of ?groups v ?net] groups by auto
  with False sl(1) show ?thesis by (simp add: verify_shielded_claims_def sl_verify_replay_def)
qed (simp add: verify_shielded_claims_def sl_verify_replay_def)

section \<open>Blocks keep the history\<close>

lemma history_cong:
  "ls_network_id s' = ls_network_id s \<Longrightarrow> ls_shielded s' = ls_shielded s \<Longrightarrow> ls_nullifiers s' = ls_nullifiers s
    \<Longrightarrow> history v ev s' = history v ev s"
  by (simp add: history_def finalized_nullifier_def)

lemma sl_apply_fields:
  assumes "sl_apply sl d effects = Inr (fee, sl')"
  shows "sl_genesis sl' = sl_genesis sl"
    "sl_applied sl' = (if d \<in> set (sl_applied sl) then sl_applied sl else sl_applied sl @ [d])"
  using assms unfolding sl_apply_def by (auto split: if_splits)

lemma history_spend:
  assumes h: "history v ev s" and e: "ev d = Some (images, effects)" and g: "group_matches d images g" "g \<noteq> []"
    and free: "\<forall>r \<in> set g. finalized_nullifier s (nr_key_image r) \<in> {None, Some d}"
    and a: "sl_apply (ls_shielded s) d effects = Inr (fee, sl)"
    and t: "ls_network_id t = ls_network_id s" "ls_shielded t = sl" "ls_nullifiers t = take_images d g (ls_nullifiers s)"
  shows "history v ev t"
proof -
  let ?ds = "sl_applied (ls_shielded s)"
  have im: "set images = nr_key_image ` set g" "images \<noteq> []" using g by (auto simp: group_matches_def)
  have n: "finalized_nullifier t k = (if k \<in> set images then Some d else finalized_nullifier s k)" for k
    by (simp add: finalized_nullifier_def t(3) map_of_take_images im(1))
  have free': "finalized_nullifier s k \<in> {None, Some d}" if "k \<in> set images" for k using free that im(1) by auto
  show ?thesis
  proof (cases "d \<in> set ?ds")
    case True
    then have sl: "sl = ls_shielded s" using sl_apply_Inr [OF a] by auto
    have "finalized_nullifier s k = Some d" if "k \<in> set images" for k
      using h True e that by (auto simp: history_def)
    then have "finalized_nullifier t k = finalized_nullifier s k" for k by (simp add: n)
    then show ?thesis using h by (simp add: history_def t(1,2) sl)
  next
    case False
    then have ap: "sl_applied sl = ?ds @ [d]" and ge: "sl_genesis sl = sl_genesis (ls_shielded s)"
      using sl_apply_fields [OF a] by simp_all
    from h obtain sl0 where sl0: "sl_from_genesis (ls_network_id s) (sl_genesis (ls_shielded s)) v = Inr sl0"
      "replays ev sl0 ?ds (ls_shielded s)" by (auto simp: history_def)
    have seen: "d' \<in> set ?ds" if "finalized_nullifier s k = Some d'" for k d' using h that by (auto simp: history_def)
    have old: "finalized_nullifier s k = None" if "k \<in> set images" for k
      using free' [OF that] False seen [of k d] by auto
    have other: "finalized_nullifier t k = Some d' \<longleftrightarrow> finalized_nullifier s k = Some d'" if "d' \<in> set ?ds" for k d'
      using that False old [of k] by (auto simp: n)
    have new: "k \<in> set images \<longleftrightarrow> finalized_nullifier t k = Some d" for k
      using n [of k] False seen [of k d] by auto
    have 1: "\<exists>sl1. sl_from_genesis (ls_network_id t) (sl_genesis (ls_shielded t)) v = Inr sl1
         \<and> replays ev sl1 (sl_applied (ls_shielded t)) (ls_shielded t)"
      unfolding t(1,2) ap ge using sl0 replays_snoc [OF sl0(2) e a] by blast
    have 2: "\<exists>images effects. ev d' = Some (images, effects) \<and> images \<noteq> []
           \<and> (\<forall>k. k \<in> set images \<longleftrightarrow> finalized_nullifier t k = Some d')" if "d' \<in> set (sl_applied (ls_shielded t))" for d'
    proof (cases "d' = d")
      case True
      with e im(2) new show ?thesis by blast
    next
      case False
      then have d': "d' \<in> set ?ds" using that by (simp add: t(2) ap)
      with h obtain images' effects' where "ev d' = Some (images', effects')" "images' \<noteq> []"
        "\<forall>k. k \<in> set images' \<longleftrightarrow> finalized_nullifier s k = Some d'" by (auto simp: history_def)
      then show ?thesis using other [OF d'] by blast
    qed
    have 3: "d' \<in> set (sl_applied (ls_shielded t))" if "finalized_nullifier t k = Some d'" for k d'
      using that n [of k] seen [of k d'] by (auto simp: t(2) ap split: if_splits)
    show ?thesis unfolding history_def using 1 2 3 by blast
  qed
qed

lemma groups_genesis:
  "apply_groups v groups s ds = Inr s' \<Longrightarrow> sl_genesis (ls_shielded s') = sl_genesis (ls_shielded s)"
  by (induction ds arbitrary: s) (auto simp: sl_apply_fields split: option.splits if_splits)

lemma history_groups:
  assumes ev: "exact_verifier v (ls_network_id s) ev" and ne: "\<forall>d g. map_of groups d = Some g \<longrightarrow> g \<noteq> []"
    and "apply_groups v groups s ds = Inr s'" "history v ev s"
  shows "history v ev s'"
  using assms(1,3,4)
proof (induction ds arbitrary: s)
  case (Cons d ds)
  show ?case
  proof (cases "map_of groups d")
    case None
    with Cons show ?thesis by simp
  next
    case (Some g)
    from Cons.prems(2) Some obtain effects where e: "verify_claim v (ls_network_id s) d g = Some effects" by auto
    from e exact_verifier_Some [OF Cons.prems(1)] obtain images where im: "ev d = Some (images, effects)" "group_matches d images g"
      by blast
    let ?free = "list_all (\<lambda>r. case map_of (ls_nullifiers s) (nr_key_image r) of
                   None \<Rightarrow> True | Some held \<Rightarrow> held = d) g"
    show ?thesis
    proof (cases ?free)
      case False
      then show ?thesis using Cons e Some by simp
    next
      case True
      from Cons.prems(2) Some e True obtain fee sl un where a: "sl_apply (ls_shielded s) d effects = Inr (fee, sl)"
        "apply_groups v groups (s\<lparr>ls_shielded := sl, ls_unallocated_circulating := un,
           ls_nullifiers := take_images d g (ls_nullifiers s)\<rparr>) ds = Inr s'"
        by (auto simp: take_images_def)
      let ?t = "s\<lparr>ls_shielded := sl, ls_unallocated_circulating := un, ls_nullifiers := take_images d g (ls_nullifiers s)\<rparr>"
      have "\<forall>r \<in> set g. finalized_nullifier s (nr_key_image r) \<in> {None, Some d}"
      proof
        fix r assume "r \<in> set g"
        with True show "finalized_nullifier s (nr_key_image r) \<in> {None, Some d}"
          by (cases "map_of (ls_nullifiers s) (nr_key_image r)") (auto simp: list_all_iff finalized_nullifier_def)
      qed
      then have "history v ev ?t" using ne Some by (intro history_spend [OF Cons.prems(3) im _ _ a(1)]) auto
      then show ?thesis using Cons.IH [OF _ a(2)] Cons.prems(1) by simp
    qed
  qed
qed simp

lemma history_block:
  assumes ev: "exact_verifier v (ls_network_id s) ev" and h: "history v ev s" and w: "w = None \<or> w = Some v"
    and a: "apply_block_with_verifier C s body w = Inr s'"
  shows "history v ev s' \<and> ls_network_id s' = ls_network_id s \<and> sl_genesis (ls_shielded s') = sl_genesis (ls_shielded s)"
proof -
  from block_Inr [OF a] obtain s1 s2 where s: "apply_claims C s (bb_claims body) = Inr s1"
    "apply_nullifiers s1 (bb_nullifiers body) w = Inr s2" "apply_monetary s2 (bb_monetary_epochs body) = Inr s'" by blast
  note r = same_restD [OF claims_same_rest [OF s(1)]]
  have h1: "history v ev s1" using h r history_cong [of s1 s] by simp
  have "history v ev s2"
    using apply_nullifiers_Inr [OF s(2)]
  proof (elim disjE exE conjE)
    fix vf order groups
    assume g: "w = Some vf" "grouped (bb_nullifiers body) order groups" "apply_groups vf groups s1 order = Inr s2"
    have "vf = v" using g(1) w by simp
    have ne: "\<forall>d g. map_of groups d = Some g \<longrightarrow> g \<noteq> []" using g(2) by (simp add: grouped_def Let_def)
    have "exact_verifier v (ls_network_id s1) ev" using ev r(1) by simp
    from history_groups [OF this ne g(3) [unfolded \<open>vf = v\<close>] h1] show ?thesis .
  qed (use h1 in simp)
  moreover have m: "ls_network_id s' = ls_network_id s2" "ls_shielded s' = ls_shielded s2" "ls_nullifiers s' = ls_nullifiers s2"
    using s(3) by (auto simp: apply_monetary_def split: list.splits)
  ultimately have "history v ev s'" using history_cong [of s' s2] by simp
  moreover have "ls_network_id s' = ls_network_id s" using m(1) r shielded_stepD(1) [OF apply_nullifiers_step [OF s(2)]] by simp
  moreover have "sl_genesis (ls_shielded s2) = sl_genesis (ls_shielded s1)"
    using apply_nullifiers_Inr [OF s(2)]
  proof (elim disjE exE conjE)
    fix vf order groups
    assume "apply_groups vf groups s1 order = Inr s2"
    then show ?thesis by (rule groups_genesis)
  qed simp
  ultimately show ?thesis using m r by simp
qed

section \<open>Chains under one verifier\<close>

text \<open>
  A chain whose shielded genesis and shielded spends were checked by the verifier \<open>v\<close>; blocks without
  shielded spends may have been applied without one. The first argument is the genesis.
\<close>

inductive verified_chain :: "crypto \<Rightarrow> ClaimVerifier \<Rightarrow> LedgerChain \<Rightarrow> LedgerChain \<Rightarrow> bool" for C v where
  supply_start: "length network = 32 \<Longrightarrow> verified_chain C v (genesis_for_network network g) (genesis_for_network network g)"
| balance_start: "length network = 32 \<Longrightarrow> genesis_with_network_balances C network g allocations = Inr ch
    \<Longrightarrow> verified_chain C v ch ch"
| shielded_start: "length network = 32 \<Longrightarrow> genesis_with_shielded_allocations network as v = Inr ch \<Longrightarrow> verified_chain C v ch ch"
| next_block: "verified_chain C v start ch \<Longrightarrow> body_typed body \<Longrightarrow> w = None \<or> w = Some v
    \<Longrightarrow> apply_finalized_block_with_verifier C ch header body qc vs oracle w = Inr (root, ch') \<Longrightarrow> verified_chain C v start ch'"

lemma verified_chain_reach: "verified_chain C v start ch \<Longrightarrow> chain_reach C start \<and> chain_reach C ch"
  by (induction rule: verified_chain.induct) (blast intro: chain_reach.intros)+

lemma history_default:
  "ls_shielded s = sl_default \<Longrightarrow> ls_nullifiers s = [] \<Longrightarrow> history v ev s"
  unfolding history_def finalized_nullifier_def by simp (simp add: sl_default_def)

lemma history_shielded_start:
  assumes "with_shielded_genesis network as v = Inr s"
  shows "history v ev s"
proof -
  from assms obtain sl where sl: "sl_from_genesis network as v = Inr sl" "ls_network_id s = network" "ls_shielded s = sl"
    "ls_nullifiers s = []"
    by (auto simp: with_shielded_genesis_def with_network_and_genesis_supply_def Let_def)
  from sl_from_genesis_again [OF sl(1)] sl_from_genesis_applied [OF sl(1)] sl(2-4)
  show ?thesis by (simp add: history_def finalized_nullifier_def)
qed

lemma verified_chain_history:
  assumes "verified_chain C v start ch"
  shows "exact_verifier v (ls_network_id (lc_state start)) ev \<longrightarrow>
    history v ev (lc_state ch) \<and> ls_network_id (lc_state ch) = ls_network_id (lc_state start)
    \<and> sl_genesis (ls_shielded (lc_state ch)) = sl_genesis (ls_shielded (lc_state start))"
  using assms
proof (induction rule: verified_chain.induct)
  case (supply_start network g)
  have "history v ev (lc_state (genesis_for_network network g))"
    by (rule history_default) (simp_all add: genesis_for_network_def chain_of_state_def with_network_and_genesis_supply_def)
  then show ?case by simp
next
  case (balance_start network g allocations ch)
  then have "history v ev (lc_state ch)"
    by (intro history_default)
       (auto simp: genesis_with_network_balances_def chain_of_state_def with_network_and_genesis_balances_def split: if_splits)
  then show ?case by simp
next
  case (shielded_start network as ch)
  then have "history v ev (lc_state ch)"
    using history_shielded_start [of network as v _ ev] by (auto simp: genesis_with_shielded_allocations_def chain_of_state_def)
  then show ?case by simp
next
  case (next_block start ch body w header qc vs orc root ch')
  show ?case
  proof
    assume e: "exact_verifier v (ls_network_id (lc_state start)) ev"
    with next_block.IH have h: "history v ev (lc_state ch)" "ls_network_id (lc_state ch) = ls_network_id (lc_state start)"
      "sl_genesis (ls_shielded (lc_state ch)) = sl_genesis (ls_shielded (lc_state start))" by blast+
    with e have "exact_verifier v (ls_network_id (lc_state ch)) ev" by simp
    from history_block [OF this h(1) next_block.hyps(3) finalized_block_Inr(1) [OF next_block.hyps(4)]] h(2,3)
    show "history v ev (lc_state ch') \<and> ls_network_id (lc_state ch') = ls_network_id (lc_state start)
      \<and> sl_genesis (ls_shielded (lc_state ch')) = sl_genesis (ls_shielded (lc_state start))" by simp
  qed
qed

lemma restore_after_block:
  assumes "digests_ok C" "exact_verifier v (ls_network_id (lc_state start)) evidence"
    and "verified_chain C v start ch" "body_typed body" "w = None \<or> w = Some v"
    and "apply_finalized_block_with_verifier C ch header body qc vs oracle w = Inr (root, ch')"
  shows "state_wf C (lc_state ch') \<and> from_finalized_snapshot_with_verifier C header (lc_state ch') qc vs oracle
      (ls_network_id (lc_state start)) (shielded_genesis_commitment C (lc_state start)) (Some v) = Inr ch'"
proof -
  let ?s = "lc_state ch'"
  have vc: "verified_chain C v start ch'" by (rule next_block [OF assms(3-6)])
  have wf: "state_wf C ?s" using chain_reach_wf [OF assms(1)] verified_chain_reach [OF vc] by blast
  from verified_chain_history [OF vc, of evidence] assms(2) have h: "history v evidence ?s"
    "ls_network_id ?s = ls_network_id (lc_state start)"
    "sl_genesis (ls_shielded ?s) = sl_genesis (ls_shielded (lc_state start))" by blast+
  have "verify_shielded_claims ?s (Some v) = Inr ()"
    by (rule history_verifies [OF _ h(1)]) (use assms(2) h(2) wf in \<open>simp_all add: state_wf_def\<close>)
  moreover have "verify_supply_conservation ?s = Inr ()" "verify_balance_map_total ?s = Inr ()"
    using wf by (simp_all add: verify_supply_iff verify_balance_total_iff state_wf_def accounts_wf_def)
  moreover have "shielded_genesis_commitment C ?s = shielded_genesis_commitment C (lc_state start)"
    using h(3) by (simp add: shielded_genesis_commitment_def sl_genesis_commitment_def)
  moreover note f = finalized_block_Inr [OF assms(6)]
  from f(8) obtain n where "verify_finality C qc vs oracle = Inr n" by blast
  moreover have "bh_height header \<noteq> 0" using f(6) by (metis add_is_0 one_neq_zero unat_0)
  moreover have "bh_timestamp_ms header = bh_height header"
    using assms(6) by (auto simp: apply_finalized_block_with_verifier_def)
  moreover have "ch' = \<lparr>lc_height = bh_height header, lc_tip_hash = header_hash C header, lc_state = ?s\<rparr>"
    using f(4,5) by simp
  ultimately have "from_finalized_snapshot_with_verifier C header ?s qc vs oracle
      (ls_network_id (lc_state start)) (shielded_genesis_commitment C (lc_state start)) (Some v) = Inr ch'"
    using f(3,9,10) h(2) by (simp add: from_finalized_snapshot_with_verifier_def)
  with wf show ?thesis by blast
qed

section \<open>Nodes\<close>

text \<open>
  Where a node can stand: on a chain it executed from genesis, on one it restored from snapshot bytes
  behind a certified header, and on any such chain after further blocks. \<open>stands_on C header qc ch\<close>
  says that it came to \<open>ch\<close> with this header and certificate, by execution or by restoring.
\<close>

inductive node_reach :: "crypto \<Rightarrow> LedgerChain \<Rightarrow> bool" for C where
  from_genesis: "chain_reach C ch \<Longrightarrow> node_reach C ch"
| from_snapshot: "from_snapshot_bytes C b = Inr s
    \<Longrightarrow> from_finalized_snapshot_with_verifier C header s qc vs oracle network genesis w = Inr ch \<Longrightarrow> node_reach C ch"
| more_blocks: "node_reach C ch \<Longrightarrow> body_typed body
    \<Longrightarrow> apply_finalized_block_with_verifier C ch header body qc vs oracle w = Inr (root, ch') \<Longrightarrow> node_reach C ch'"

inductive stands_on :: "crypto \<Rightarrow> BlockHeader \<Rightarrow> QuorumCertificate \<Rightarrow> LedgerChain \<Rightarrow> bool" for C header qc where
  executed: "node_reach C ch \<Longrightarrow> body_typed body
    \<Longrightarrow> apply_finalized_block_with_verifier C ch header body qc vs oracle w = Inr (root, ch') \<Longrightarrow> stands_on C header qc ch'"
| restored: "from_snapshot_bytes C b = Inr s
    \<Longrightarrow> from_finalized_snapshot_with_verifier C header s qc vs oracle network genesis w = Inr ch \<Longrightarrow> stands_on C header qc ch"

lemma restored_Inr:
  assumes "from_finalized_snapshot_with_verifier C header s qc vs oracle network genesis w = Inr ch"
  shows "lc_state ch = s" "bh_state_root header = state_commitment C s" "lc_tip_hash ch = header_hash C header"
    "lc_height ch = bh_height header" "qc_block_hash qc = header_hash C header"
  using assms by (auto simp: from_finalized_snapshot_with_verifier_def)

lemma node_reach_wf:
  assumes "digests_ok C" "node_reach C ch"
  shows "state_wf C (lc_state ch)"
  using assms(2)
proof (induction rule: node_reach.induct)
  case (from_genesis ch)
  then show ?case by (rule chain_reach_wf [OF assms(1)])
next
  case (from_snapshot b s header qc vs orc network genesis w ch)
  then show ?case using from_snapshot_sound [OF from_snapshot(1)] restored_Inr(1) [OF from_snapshot(2)] by simp
next
  case (more_blocks ch body header qc vs orc w root ch')
  from block_wf [OF assms(1) more_blocks.IH more_blocks.hyps(2) finalized_block_Inr(1) [OF more_blocks.hyps(3)]]
  show ?case .
qed

lemma stands_onD:
  assumes "digests_ok C" "stands_on C header qc ch"
  shows "state_wf C (lc_state ch) \<and> bh_state_root header = state_commitment C (lc_state ch)
    \<and> lc_tip_hash ch = header_hash C header \<and> lc_height ch = bh_height header \<and> qc_block_hash qc = header_hash C header"
  using assms(2)
proof (cases rule: stands_on.cases)
  case (executed ch0 body vs orc w root)
  with node_reach_wf [OF assms(1) more_blocks [OF executed]] finalized_block_Inr [OF executed(3)] show ?thesis by blast
next
  case (restored b s vs orc network genesis w)
  with from_snapshot_sound [OF restored(1)] restored_Inr [OF restored(2)] show ?thesis by simp
qed

text \<open>The header of a block decides the whole chain that stands on it: height, tip and every part of the state.\<close>

lemma same_header_same_chain:
  assumes "digests_ok C" "stands_on C hd1 qc ch" "stands_on C hd2 qc' dh"
    and w: "header_wf hd1" "header_wf hd2" "header_hash C hd1 = header_hash C hd2"
    and z: "state_sized (lc_state ch)" "state_sized (lc_state dh)"
  shows "ch = dh \<or> collides C (header_canonical_bytes hd1) (header_canonical_bytes hd2)
    \<or> root_collision C (lc_state ch) (lc_state dh)"
proof (cases "collides C (header_canonical_bytes hd1) (header_canonical_bytes hd2)")
  case False
  then have "hd1 = hd2" using header_hash_binds [OF w] by blast
  note f = stands_onD [OF assms(1,2)] and g = stands_onD [OF assms(1,3)]
  then have "lc_state ch = lc_state dh \<or> root_collision C (lc_state ch) (lc_state dh)"
    using state_root_binds [OF assms(1)] z \<open>hd1 = hd2\<close> by metis
  moreover have "lc_height ch = lc_height dh" "lc_tip_hash ch = lc_tip_hash dh" using f g \<open>hd1 = hd2\<close> by simp_all
  ultimately show ?thesis by auto
qed simp

section \<open>A chain with a shielded spend\<close>

text \<open>
  A network whose genesis funds one shielded output with 5; its only block spends it, with a fee of 1,
  behind a certificate of the one validator.
\<close>

definition evidence_verifier :: "claim_evidence \<Rightarrow> ClaimVerifier" where
  "evidence_verifier ev =
     \<lparr>verify_claim = (\<lambda>network d g. case ev d of None \<Rightarrow> None
        | Some (images, effects) \<Rightarrow> if group_matches d images g then Some effects else None),
      verify_genesis_allocation = (\<lambda>network a. True)\<rparr>"

lemma evidence_verifier_exact: "exact_verifier (evidence_verifier ev) network ev"
  by (simp add: exact_verifier_def evidence_verifier_def)

definition demo_coin :: "u8 \<Rightarrow> ShieldedOutput" where
  "demo_coin b = \<lparr>so_public_key = replicate 32 b, so_amount_commitment = replicate 32 (b + 1)\<rparr>"

definition demo_evidence :: claim_evidence where
  "demo_evidence d =
     (if d = replicate 32 9
      then Some ([[1]], \<lparr>sc_ring_members = [demo_coin 1], sc_outputs = [demo_coin 3], sc_fee_micro = 1\<rparr>) else None)"

definition demo_pool :: ShieldedLedger where
  "demo_pool = \<lparr>sl_genesis = [\<lparr>sg_output = demo_coin 1, sg_amount_micro = 5\<rparr>],
     sl_outputs = [(replicate 32 1, replicate 32 2)], sl_applied = [], sl_pool_micro = 5\<rparr>"

definition demo_shielded0 :: LedgerState where
  "demo_shielded0 =
     \<lparr>ls_network_id = MININET_NETWORK_ID, ls_finalized = [], ls_rejected = [], ls_nullifiers = [],
      ls_monetary = ml_new 5, ls_shielded = demo_pool, ls_balances = [],
      ls_allocated_circulating = 0, ls_unallocated_circulating = 0\<rparr>"

definition demo_shielded1 :: LedgerState where
  "demo_shielded1 = demo_shielded0
     \<lparr>ls_nullifiers := [([1], replicate 32 9)], ls_unallocated_circulating := 1,
      ls_shielded := demo_pool\<lparr>sl_outputs := [(replicate 32 1, replicate 32 2), (replicate 32 3, replicate 32 4)],
        sl_applied := [replicate 32 9], sl_pool_micro := 4\<rparr>\<rparr>"

definition demo_private_body :: SettlementBlockBody where
  "demo_private_body = with_nullifiers (body_new []) [\<lparr>nr_key_image = [1], nr_claim_digest = replicate 32 9\<rparr>]"

definition demo_spend_header :: BlockHeader where
  "demo_spend_header =
     \<lparr>bh_height = 1, bh_prev_hash = replicate 32 0, bh_state_root = state_commitment toy_crypto demo_shielded1,
      bh_body_root = body_hash toy_crypto demo_private_body, bh_timestamp_ms = 1, bh_proposer = replicate 32 7\<rparr>"

definition demo_spend_chain :: LedgerChain where
  "demo_spend_chain = \<lparr>lc_height = 1, lc_tip_hash = header_hash toy_crypto demo_spend_header, lc_state = demo_shielded1\<rparr>"

lemma demo_shielded_start:
  "verified_chain toy_crypto (evidence_verifier demo_evidence) (chain_of_state demo_shielded0) (chain_of_state demo_shielded0)"
proof (rule shielded_start [OF MININET_length])
  have "sl_from_genesis MININET_NETWORK_ID [\<lparr>sg_output = demo_coin 1, sg_amount_micro = 5\<rparr>] (evidence_verifier demo_evidence)
      = Inr demo_pool"
    by (simp add: sl_from_genesis_def MAX_OUTPUTS_def MAX_LEDGER_SNAPSHOT_ENTRIES_def demo_coin_def so_well_formed_def
        evidence_verifier_def sl_default_def checked_add_def demo_pool_def)
  moreover have "(with_network_and_genesis_supply MININET_NETWORK_ID (sl_pool_micro demo_pool))
      \<lparr>ls_unallocated_circulating := 0, ls_shielded := demo_pool\<rparr> = demo_shielded0"
    by (simp add: with_network_and_genesis_supply_def demo_shielded0_def demo_pool_def)
  moreover have "verify_supply_conservation demo_shielded0 = Inr ()"
    by (simp add: verify_supply_iff supply_ok_def demo_shielded0_def shielded_pool_def demo_pool_def)
  ultimately show "genesis_with_shielded_allocations MININET_NETWORK_ID [\<lparr>sg_output = demo_coin 1, sg_amount_micro = 5\<rparr>]
      (evidence_verifier demo_evidence) = Inr (chain_of_state demo_shielded0)"
    by (simp add: genesis_with_shielded_allocations_def with_shielded_genesis_def Let_def)
qed

lemma demo_spend_block:
  "apply_block_with_verifier toy_crypto demo_shielded0 demo_private_body (Some (evidence_verifier demo_evidence)) = Inr demo_shielded1"
proof -
  have "replicate 32 b = b # replicate 31 b" for b :: u8 using replicate_Suc [of 31 b] by simp
  then have "\<not> replicate 32 (3 :: u8) < replicate 32 1" by simp
  then have "sl_apply demo_pool (replicate 32 9) \<lparr>sc_ring_members = [demo_coin 1], sc_outputs = [demo_coin 3], sc_fee_micro = 1\<rparr>
      = Inr (1, ls_shielded demo_shielded1)"
    by (simp add: sl_apply_def demo_pool_def demo_coin_def so_well_formed_def MAX_OUTPUTS_def MAX_RING_MEMBERS_def
        MAX_LEDGER_SNAPSHOT_ENTRIES_def checked_sub_def demo_shielded1_def)
  moreover have "supply_ok demo_shielded1"
    by (simp add: supply_ok_def demo_shielded1_def demo_shielded0_def shielded_pool_def demo_pool_def)
  ultimately show ?thesis
    by (simp add: apply_block_with_verifier_def demo_private_body_def with_nullifiers_def body_new_def apply_nullifiers_def
        nr_is_well_formed_def push_group_def evidence_verifier_def demo_evidence_def group_matches_def demo_shielded0_def
        apply_monetary_def verify_supply_iff MAX_NULLIFIERS_PER_BLOCK_def MAX_KEY_IMAGE_BYTES_def amount_add_def checked_add_def)
       (simp add: demo_shielded1_def demo_shielded0_def verify_supply_iff)
qed

lemma demo_spend_step:
  "apply_finalized_block_with_verifier toy_crypto (chain_of_state demo_shielded0) demo_spend_header demo_private_body
     (demo_qc (header_hash toy_crypto demo_spend_header)) demo_vs demo_oracle (Some (evidence_verifier demo_evidence))
   = Inr (state_commitment toy_crypto demo_shielded1, demo_spend_chain)"
proof -
  have h: "bh_height demo_spend_header = 1" "bh_prev_hash demo_spend_header = replicate 32 0"
    "bh_timestamp_ms demo_spend_header = 1" "bh_state_root demo_spend_header = state_commitment toy_crypto demo_shielded1"
    "bh_body_root demo_spend_header = body_hash toy_crypto demo_private_body"
    by (simp_all add: demo_spend_header_def)
  have c: "lc_state (chain_of_state demo_shielded0) = demo_shielded0" "lc_height (chain_of_state demo_shielded0) = 0"
    "lc_tip_hash (chain_of_state demo_shielded0) = replicate 32 0" by (simp_all add: chain_of_state_def)
  have q: "qc_height (demo_qc x) = 1" "qc_block_hash (demo_qc x) = x" for x by (simp_all add: demo_qc_def)
  have l: "bb_claims demo_private_body = []" "bb_monetary_epochs demo_private_body = []"
    by (simp_all add: demo_private_body_def with_nullifiers_def body_new_def)
  have k: "ck_add (0 :: u64) 1 = Inr 1" by (simp add: ck_add_def checked_add_def)
  show ?thesis
    unfolding apply_finalized_block_with_verifier_def c demo_spend_block h q demo_qc_final l k demo_spend_chain_def by simp
qed

lemma demo_spend_wf: "state_wf toy_crypto demo_shielded1"
proof -
  have "chain_reach toy_crypto demo_spend_chain"
    using verified_chain_reach [OF next_block [OF demo_shielded_start _ _ demo_spend_step]]
    by (simp add: body_typed_def demo_private_body_def with_nullifiers_def body_new_def)
  then show ?thesis using chain_reach_wf [OF toy_crypto_ok(1)] by (force simp: demo_spend_chain_def)
qed

lemma demo_spend_fits: "\<exists>b. to_snapshot_bytes demo_shielded1 = Inr b"
proof -
  have "fits_snapshot demo_shielded1"
    by (simp add: fits_snapshot_def demo_shielded1_def demo_shielded0_def demo_pool_def ml_new_def snapshot_bytes_def
        put_monetary_def export_snapshot_def sl_to_bytes_def put_image_def demo_coin_def MAX_LEDGER_SNAPSHOT_ENTRIES_def
        MAX_LEDGER_SNAPSHOT_BYTES_def SNAPSHOT_DOMAIN_def)
  then show ?thesis using to_snapshot_Inr [OF demo_spend_wf] by blast
qed

lemma demo_spend_supply: "is_ok (total_supply (ls_monetary demo_shielded1))"
  by (simp add: demo_shielded1_def demo_shielded0_def total_supply_def ml_new_def amount_add_def checked_add_def)

lemma demo_spend_restores:
  "\<exists>b. from_snapshot_bytes toy_crypto b = Inr demo_shielded1
     \<and> from_finalized_snapshot_with_verifier toy_crypto demo_spend_header demo_shielded1
         (demo_qc (header_hash toy_crypto demo_spend_header)) demo_vs demo_oracle MININET_NETWORK_ID
         (shielded_genesis_commitment toy_crypto demo_shielded0) (Some (evidence_verifier demo_evidence))
       = Inr demo_spend_chain"
proof -
  obtain b where b: "to_snapshot_bytes demo_shielded1 = Inr b" using demo_spend_fits by blast
  have t: "body_typed demo_private_body" by (simp add: body_typed_def demo_private_body_def with_nullifiers_def body_new_def)
  have c: "lc_state demo_spend_chain = demo_shielded1" "lc_state (chain_of_state demo_shielded0) = demo_shielded0"
    "ls_network_id demo_shielded0 = MININET_NETWORK_ID"
    by (simp_all add: demo_spend_chain_def chain_of_state_def demo_shielded0_def)
  from restore_after_block [OF toy_crypto_ok(1) evidence_verifier_exact demo_shielded_start t _ demo_spend_step]
    from_snapshot_complete [OF demo_spend_wf demo_spend_supply b]
  show ?thesis by (auto simp: c)
qed

section \<open>Properties\<close>

text \<open>
  Property (C18): a snapshot is accepted exactly when it is the encoding of a well-formed state. The
  decoder returns \<open>s\<close> on the bytes \<open>b\<close> if and only if \<open>s\<close> has sorted maps, supported accounts, balances
  and supplies that add up, a consistent monetary ledger whose total supply fits its width, and
  encodes to \<open>b\<close>; and a well-formed state encodes whenever its rows and bytes are within the limits.
\<close>

theorem snapshot_exact:
  "(from_snapshot_bytes C b = Inr s \<longleftrightarrow>
      state_wf C s \<and> is_ok (total_supply (ls_monetary s)) \<and> to_snapshot_bytes s = Inr b)
   \<and> (state_wf C s \<longrightarrow> (to_snapshot_bytes s = Inr b \<longleftrightarrow> fits_snapshot s \<and> b = snapshot_bytes s))"
  using from_snapshot_sound from_snapshot_complete to_snapshot_Inr by blast

theorem snapshot_exact_witness:
  "\<exists>b. to_snapshot_bytes demo_shielded1 = Inr b \<and> b = snapshot_bytes demo_shielded1
     \<and> from_snapshot_bytes toy_crypto b = Inr demo_shielded1"
proof -
  obtain b where b: "to_snapshot_bytes demo_shielded1 = Inr b" using demo_spend_fits by blast
  with demo_spend_supply demo_spend_wf snapshot_exact [of toy_crypto b demo_shielded1] show ?thesis by blast
qed

text \<open>
  Property (C5): a checkpoint restores the chain. Take a chain whose shielded claims were checked by a
  verifier that does what its interface documents, and let the state after its last block encode. If
  its total supply fits in 128 bits, then decoding the bytes and restoring with the block's header
  and certificate, the network and the shielded genesis yields that chain: in particular the
  accumulated history of shielded claims always replays, in whatever order and repetition the blocks
  carried them. If the total supply does not fit, which executing blocks does not check, the decoder
  refuses the bytes.
\<close>

theorem checkpoint_restores:
  assumes "digests_ok C" "exact_verifier v (ls_network_id (lc_state start)) evidence"
    and "verified_chain C v start ch" "body_typed body" "w = None \<or> w = Some v"
    and "apply_finalized_block_with_verifier C ch header body qc vs oracle w = Inr (root, ch')"
    and "to_snapshot_bytes (lc_state ch') = Inr b"
  shows "if is_ok (total_supply (ls_monetary (lc_state ch')))
    then andThen (from_snapshot_bytes C b) (\<lambda>s. from_finalized_snapshot_with_verifier C header s qc vs oracle
      (ls_network_id (lc_state start)) (shielded_genesis_commitment C (lc_state start)) (Some v)) = Inr ch'
    else \<exists>e. from_snapshot_bytes C b = Inl (InvalidMonetaryEpoch e)"
  using restore_after_block [OF assms(1-6)] from_snapshot_complete [OF _ _ assms(7)] from_snapshot_overflow [OF _ _ assms(7)]
  by auto

theorem checkpoint_restores_witness:
  "\<exists>b. to_snapshot_bytes (lc_state demo_spend_chain) = Inr b
     \<and> finalized_nullifier (lc_state demo_spend_chain) [1] = Some (replicate 32 9)
     \<and> andThen (from_snapshot_bytes toy_crypto b) (\<lambda>s. from_finalized_snapshot_with_verifier toy_crypto demo_spend_header s
         (demo_qc (header_hash toy_crypto demo_spend_header)) demo_vs demo_oracle MININET_NETWORK_ID
         (shielded_genesis_commitment toy_crypto demo_shielded0) (Some (evidence_verifier demo_evidence)))
       = Inr demo_spend_chain"
proof -
  have c: "lc_state demo_spend_chain = demo_shielded1" "lc_state (chain_of_state demo_shielded0) = demo_shielded0"
    "ls_network_id demo_shielded0 = MININET_NETWORK_ID"
    by (simp_all add: demo_spend_chain_def chain_of_state_def demo_shielded0_def)
  obtain b where b: "to_snapshot_bytes (lc_state demo_spend_chain) = Inr b" using demo_spend_fits c(1) by auto
  have t: "body_typed demo_private_body" by (simp add: body_typed_def demo_private_body_def with_nullifiers_def body_new_def)
  have o: "is_ok (total_supply (ls_monetary (lc_state demo_spend_chain)))" using demo_spend_supply by (simp add: c(1))
  from checkpoint_restores [OF toy_crypto_ok(1) evidence_verifier_exact demo_shielded_start t _ demo_spend_step b, unfolded if_P [OF o]]
  have "andThen (from_snapshot_bytes toy_crypto b) (\<lambda>s. from_finalized_snapshot_with_verifier toy_crypto demo_spend_header s
         (demo_qc (header_hash toy_crypto demo_spend_header)) demo_vs demo_oracle MININET_NETWORK_ID
         (shielded_genesis_commitment toy_crypto demo_shielded0) (Some (evidence_verifier demo_evidence)))
       = Inr demo_spend_chain" by (simp only: c) simp
  moreover have "finalized_nullifier (lc_state demo_spend_chain) [1] = Some (replicate 32 9)"
    by (simp add: c(1) finalized_nullifier_def demo_shielded1_def)
  ultimately show ?thesis using b by blast
qed

end
