(* ===== verification/Admission.thy ===== *)
theory Admission
  imports ExecutionProps
begin

text \<open>
  The admission pool of \<open>mini-execution\<close> (admission.rs): the bounded, node-local set of payment
  claims awaiting proposal, with its per-payer slots and reservations. Its contract towards the
  executor: the block body it proposes executes completely.
\<close>

section \<open>Policy and errors\<close>

record AdmissionPolicy =
  ap_max_claims :: nat
  ap_max_total_bytes :: nat
  ap_max_claims_per_payer :: nat

definition policy_default :: AdmissionPolicy where
  "policy_default = \<lparr>ap_max_claims = 4096, ap_max_total_bytes = 8 * 1024 * 1024, ap_max_claims_per_payer = 64\<rparr>"

datatype AdmissionError =
    AInvalidPolicy
  | AMalformedWire
  | AInvalidSignature
  | AWrongNetwork
  | AUnsupportedPayee
  | AExpired
  | AAlreadyResolved
  | ADuplicate
  | AConflictingSequence
  | AInsufficientAvailableBalance
  | ATooManyClaims
  | ATooManyClaimsForPayer
  | ATooManyBytes

section \<open>The pool\<close>

record AdmittedClaim =
  ad_claim :: PaymentClaim
  ad_wire_bytes :: nat

record PaymentAdmissionPool =
  pl_policy :: AdmissionPolicy
  pl_claims :: "(bytes, AdmittedClaim) btree"
  pl_payer_slots :: "(bytes, (u64, bytes) btree) btree"
  pl_payer_reserved_micro :: "(bytes, u128) btree"
  pl_encoded_bytes :: nat

definition pool_new :: "AdmissionPolicy \<Rightarrow> AdmissionError + PaymentAdmissionPool" where
  "pool_new policy =
     (if ap_max_claims policy = 0 \<or> ap_max_claims policy > MAX_CLAIMS_PER_BLOCK \<or> ap_max_total_bytes policy = 0
         \<or> ap_max_claims_per_payer policy = 0 \<or> ap_max_claims_per_payer policy > ap_max_claims policy
      then Inl AInvalidPolicy
      else Inr \<lparr>pl_policy = policy, pl_claims = [], pl_payer_slots = [], pl_payer_reserved_micro = [], pl_encoded_bytes = 0\<rparr>)"

definition pool_len :: "PaymentAdmissionPool \<Rightarrow> nat" where
  "pool_len p = length (pl_claims p)"

definition validate_claim :: "crypto \<Rightarrow> PaymentClaim \<Rightarrow> LedgerState \<Rightarrow> u64 \<Rightarrow> AdmissionError + unit" where
  "validate_claim C claim s now_ms =
     andThen (map_err (\<lambda>_. AInvalidSignature) (verify_claim_signature C claim)) (\<lambda>_.
     andThen (ensure (pc_network_id claim = ls_network_id s) AWrongNetwork) (\<lambda>_.
     andThen (ensure (is_supported_account C (pc_payee claim)) AUnsupportedPayee) (\<lambda>_.
     andThen (ensure (\<not> now_ms \<ge> pc_valid_until_ms claim) AExpired) (\<lambda>_.
       if (case rejected_claim (state_view s) (claim_digest C claim) of None \<Rightarrow> False | Some reason \<Rightarrow> reason \<noteq> InsufficientFunds)
          \<or> (case finalized_sequence (state_view s) (pc_payer claim) of None \<Rightarrow> False | Some n \<Rightarrow> n \<ge> pc_sequence claim)
       then Inl AAlreadyResolved else Inr ()))))"

definition slots_of :: "PaymentAdmissionPool \<Rightarrow> bytes \<Rightarrow> (u64, bytes) btree" where
  "slots_of p payer = get_or [] (map_of (pl_payer_slots p) payer)"

definition pool_admit ::
  "crypto \<Rightarrow> PaymentAdmissionPool \<Rightarrow> PaymentClaim \<Rightarrow> LedgerState \<Rightarrow> u64 \<Rightarrow> AdmissionError + bytes \<times> PaymentAdmissionPool" where
  "pool_admit C p claim s now_ms =
     andThen (map_err (\<lambda>_. AMalformedWire) (claim_to_wire_bytes claim)) (\<lambda>wire.
     let bytes = length wire in
     andThen (validate_claim C claim s now_ms) (\<lambda>_.
     let digest = claim_digest C claim in
     andThen (ensure (map_of (pl_claims p) digest = None) ADuplicate) (\<lambda>_.
     andThen (ensure (map_of (slots_of p (pc_payer claim)) (pc_sequence claim) = None) AConflictingSequence) (\<lambda>_.
     andThen (ensure (\<not> length (pl_claims p) \<ge> ap_max_claims (pl_policy p)) ATooManyClaims) (\<lambda>_.
     andThen (ensure (\<not> length (slots_of p (pc_payer claim)) \<ge> ap_max_claims_per_payer (pl_policy p)) ATooManyClaimsForPayer) (\<lambda>_.
     andThen (ensure (\<not> pl_encoded_bytes p + bytes > ap_max_total_bytes (pl_policy p)) ATooManyBytes) (\<lambda>_.
     let reserved = get_or 0 (map_of (pl_payer_reserved_micro p) (pc_payer claim)) in
     andThen (ok_or (checked_add reserved (ucast (pc_amount_micro claim))) AInsufficientAvailableBalance) (\<lambda>next_reserved.
     andThen (ensure (\<not> next_reserved > balance s (pc_payer claim)) AInsufficientAvailableBalance) (\<lambda>_.
       Inr (digest,
         p\<lparr>pl_encoded_bytes := pl_encoded_bytes p + bytes,
           pl_payer_reserved_micro := bt_insert (pc_payer claim) next_reserved (pl_payer_reserved_micro p),
           pl_payer_slots := bt_insert (pc_payer claim)
             (bt_insert (pc_sequence claim) digest (slots_of p (pc_payer claim))) (pl_payer_slots p),
           pl_claims := bt_insert digest \<lparr>ad_claim = claim, ad_wire_bytes = bytes\<rparr> (pl_claims p)\<rparr>))))))))))"

definition pool_admit_wire ::
  "crypto \<Rightarrow> PaymentAdmissionPool \<Rightarrow> bytes \<Rightarrow> LedgerState \<Rightarrow> u64 \<Rightarrow> AdmissionError + bytes \<times> PaymentAdmissionPool" where
  "pool_admit_wire C p bs s now_ms =
     andThen (map_err (\<lambda>_. AMalformedWire) (claim_from_wire_bytes C bs)) (\<lambda>claim. pool_admit C p claim s now_ms)"

definition candidate_key :: "bytes \<times> AdmittedClaim \<Rightarrow> bytes \<times> u64 \<times> bytes" where
  "candidate_key e = (pc_payer (ad_claim (snd e)), pc_sequence (ad_claim (snd e)), fst e)"

definition candidates :: "PaymentAdmissionPool \<Rightarrow> nat \<Rightarrow> PaymentClaim list" where
  "candidates p limit =
     take (min limit MAX_CLAIMS_PER_BLOCK) (map (\<lambda>e. ad_claim (snd e)) (sort_key candidate_key (pl_claims p)))"

definition pool_remove :: "PaymentAdmissionPool \<Rightarrow> bytes \<Rightarrow> PaymentClaim option \<times> PaymentAdmissionPool" where
  "pool_remove p digest =
     (case map_of (pl_claims p) digest of
        None \<Rightarrow> (None, p)
      | Some admitted \<Rightarrow>
          let claim = ad_claim admitted;
              slots = (case map_of (pl_payer_slots p) (pc_payer claim) of
                 None \<Rightarrow> pl_payer_slots p
               | Some m \<Rightarrow> let m = bt_remove (pc_sequence claim) m in
                   if m = [] then bt_remove (pc_payer claim) (pl_payer_slots p)
                   else bt_insert (pc_payer claim) m (pl_payer_slots p));
              remaining = saturating_sub (get_or 0 (map_of (pl_payer_reserved_micro p) (pc_payer claim)))
                 (ucast (pc_amount_micro claim))
          in (Some claim,
              p\<lparr>pl_claims := bt_remove digest (pl_claims p),
                pl_encoded_bytes := pl_encoded_bytes p - ad_wire_bytes admitted,
                pl_payer_slots := slots,
                pl_payer_reserved_micro :=
                  (if remaining = 0 then bt_remove (pc_payer claim) (pl_payer_reserved_micro p)
                   else bt_insert (pc_payer claim) remaining (pl_payer_reserved_micro p))\<rparr>))"

text \<open>The first loop of \<open>revalidate\<close>: the claims to remove, with the reservations of those kept.\<close>

fun revalidate_loop ::
  "crypto \<Rightarrow> LedgerState \<Rightarrow> u64 \<Rightarrow> (bytes, u128) btree \<Rightarrow> (bytes \<times> AdmissionError) list \<Rightarrow> PaymentClaim list
     \<Rightarrow> (bytes \<times> AdmissionError) list" where
  "revalidate_loop C s now_ms reserved removals [] = removals"
| "revalidate_loop C s now_ms reserved removals (claim # claims) =
     (case validate_claim C claim s now_ms of
        Inl reason \<Rightarrow> revalidate_loop C s now_ms reserved (removals @ [(claim_digest C claim, reason)]) claims
      | Inr _ \<Rightarrow>
          (case checked_add (get_or 0 (map_of reserved (pc_payer claim))) (ucast (pc_amount_micro claim)) of
             Some promised \<Rightarrow>
               if promised \<le> balance s (pc_payer claim)
               then revalidate_loop C s now_ms (bt_insert (pc_payer claim) promised reserved) removals claims
               else revalidate_loop C s now_ms reserved
                 (removals @ [(claim_digest C claim, AInsufficientAvailableBalance)]) claims
           | None \<Rightarrow> revalidate_loop C s now_ms reserved
               (removals @ [(claim_digest C claim, AInsufficientAvailableBalance)]) claims))"

definition pool_revalidate ::
  "crypto \<Rightarrow> PaymentAdmissionPool \<Rightarrow> LedgerState \<Rightarrow> u64 \<Rightarrow> (bytes \<times> AdmissionError) list \<times> PaymentAdmissionPool" where
  "pool_revalidate C p s now_ms =
     (let removals = sort_key fst (revalidate_loop C s now_ms [] [] (candidates p (pool_len p)))
      in (removals, fold (\<lambda>r p. snd (pool_remove p (fst r))) removals p))"

section \<open>The pool invariant\<close>

definition slot :: "PaymentAdmissionPool \<Rightarrow> bytes \<Rightarrow> u64 \<Rightarrow> bytes option" where
  "slot p payer n = map_of (slots_of p payer) n"

definition owed_by :: "bytes \<Rightarrow> AdmittedClaim \<Rightarrow> nat" where
  "owed_by payer a = (if pc_payer (ad_claim a) = payer then unat (pc_amount_micro (ad_claim a)) else 0)"

definition pool_inv :: "crypto \<Rightarrow> PaymentAdmissionPool \<Rightarrow> bool" where
  "pool_inv C p =
     (bt_wf (pl_claims p)
      \<and> (\<forall>d a. map_of (pl_claims p) d = Some a \<longrightarrow> d = claim_digest C (ad_claim a))
      \<and> pl_encoded_bytes p = bt_total ad_wire_bytes (pl_claims p)
      \<and> (\<forall>payer. val_or0 unat (map_of (pl_payer_reserved_micro p) payer) = bt_total (owed_by payer) (pl_claims p))
      \<and> (\<forall>payer n d. slot p payer n = Some d \<longleftrightarrow>
           (\<exists>a. map_of (pl_claims p) d = Some a \<and> pc_payer (ad_claim a) = payer \<and> pc_sequence (ad_claim a) = n))
      \<and> length (pl_claims p) \<le> ap_max_claims (pl_policy p) \<and> ap_max_claims (pl_policy p) \<le> MAX_CLAIMS_PER_BLOCK
      \<and> pl_encoded_bytes p \<le> ap_max_total_bytes (pl_policy p))"

lemma pool_new_inv: "pool_new policy = Inr p \<Longrightarrow> pool_inv C p"
  by (auto simp: pool_new_def pool_inv_def slot_def slots_of_def split: if_splits)

lemma get_or_unat: "unat (get_or 0 v) = val_or0 unat v"
  by (cases v) simp_all

lemma bt_total_insert_new: "bt_wf m \<Longrightarrow> map_of m k = None \<Longrightarrow> bt_total f (bt_insert k v m) = bt_total f m + f v"
  using bt_total_insert [of m f k v] by simp

lemma pool_admit_Inr:
  assumes "pool_admit C p c s now = Inr (d, p')"
  shows "d = claim_digest C c" "validate_claim C c s now = Inr ()" "map_of (pl_claims p) d = None"
    "slot p (pc_payer c) (pc_sequence c) = None"
    "length (pl_claims p) < ap_max_claims (pl_policy p)"
    "\<exists>w r. claim_to_wire_bytes c = Inr w \<and> pl_encoded_bytes p + length w \<le> ap_max_total_bytes (pl_policy p)
       \<and> unat r = val_or0 unat (map_of (pl_payer_reserved_micro p) (pc_payer c)) + unat (pc_amount_micro c)
       \<and> r \<le> balance s (pc_payer c)
       \<and> p' = p\<lparr>pl_encoded_bytes := pl_encoded_bytes p + length w,
           pl_payer_reserved_micro := bt_insert (pc_payer c) r (pl_payer_reserved_micro p),
           pl_payer_slots := bt_insert (pc_payer c) (bt_insert (pc_sequence c) d (slots_of p (pc_payer c))) (pl_payer_slots p),
           pl_claims := bt_insert d \<lparr>ad_claim = c, ad_wire_bytes = length w\<rparr> (pl_claims p)\<rparr>"
  using assms by (auto simp: pool_admit_def Let_def slot_def checked_add_Some get_or_unat not_less not_le)

lemma pool_admit_inv:
  assumes inv: "pool_inv C p" and a: "pool_admit C p c s now = Inr (d, p')"
  shows "pool_inv C p'"
proof -
  note f = pool_admit_Inr [OF a]
  from f(6) obtain w :: bytes and r where w: "pl_encoded_bytes p + length w \<le> ap_max_total_bytes (pl_policy p)"
      "unat r = val_or0 unat (map_of (pl_payer_reserved_micro p) (pc_payer c)) + unat (pc_amount_micro c)"
    and p': "p' = p\<lparr>pl_encoded_bytes := pl_encoded_bytes p + length w,
           pl_payer_reserved_micro := bt_insert (pc_payer c) r (pl_payer_reserved_micro p),
           pl_payer_slots := bt_insert (pc_payer c) (bt_insert (pc_sequence c) d (slots_of p (pc_payer c))) (pl_payer_slots p),
           pl_claims := bt_insert d \<lparr>ad_claim = c, ad_wire_bytes = length w\<rparr> (pl_claims p)\<rparr>" by blast
  have wf: "bt_wf (pl_claims p)" using inv by (simp add: pool_inv_def)
  have sl: "slot p' payer n = (if payer = pc_payer c \<and> n = pc_sequence c then Some d else slot p payer n)" for payer n
    by (simp add: slot_def slots_of_def p')
  have old: "slot p payer n = Some e \<longleftrightarrow>
      (\<exists>a. map_of (pl_claims p) e = Some a \<and> pc_payer (ad_claim a) = payer \<and> pc_sequence (ad_claim a) = n)" for payer n e
    using inv by (simp add: pool_inv_def)
  have "slot p' payer n = Some e \<longleftrightarrow>
      (\<exists>a. map_of (pl_claims p') e = Some a \<and> pc_payer (ad_claim a) = payer \<and> pc_sequence (ad_claim a) = n)" for payer n e
    using old [of payer n e] old [of "pc_payer c" "pc_sequence c" e] f(3,4) unfolding sl by (auto simp: p')
  moreover have "length (pl_claims p') \<le> ap_max_claims (pl_policy p')"
    using f(5) length_bt_insert [of d "\<lparr>ad_claim = c, ad_wire_bytes = length w\<rparr>" "pl_claims p"] by (simp add: p')
  moreover have "val_or0 unat (map_of (pl_payer_reserved_micro p') payer) = bt_total (owed_by payer) (pl_claims p')" for payer
    using inv w(2) bt_total_insert_new [OF wf f(3), of "owed_by payer"]
    by (auto simp: p' pool_inv_def owed_by_def)
  ultimately show ?thesis
    using inv w(1) f(1) bt_total_insert_new [OF wf f(3), of ad_wire_bytes]
    by (simp add: pool_inv_def p')
qed

lemma map_of_remove_slot:
  "map_of (bt_remove k m) k' = (if k' = k then None else map_of m k')"
  by simp

lemma pool_remove_slot:
  assumes "map_of (pl_claims p) d = Some a"
  shows "slot (snd (pool_remove p d)) payer n =
    (if payer = pc_payer (ad_claim a) \<and> n = pc_sequence (ad_claim a) then None else slot p payer n)"
proof (cases "map_of (pl_payer_slots p) (pc_payer (ad_claim a))")
  case None
  then show ?thesis using assms by (auto simp: pool_remove_def slot_def slots_of_def Let_def)
next
  case (Some m)
  let ?m = "bt_remove (pc_sequence (ad_claim a)) m"
  have e: "map_of ?m k = (if k = pc_sequence (ad_claim a) then None else map_of m k)" for k by simp
  show ?thesis
  proof (cases "?m = []")
    case True
    with e have "k \<noteq> pc_sequence (ad_claim a) \<Longrightarrow> map_of m k = None" for k by (metis map_of.simps(1))
    with True Some assms show ?thesis by (auto simp: pool_remove_def slot_def slots_of_def Let_def)
  next
    case False
    with Some assms show ?thesis by (auto simp: pool_remove_def slot_def slots_of_def Let_def)
  qed
qed

lemma pool_remove_fields:
  assumes "map_of (pl_claims p) d = Some a"
  shows "pl_claims (snd (pool_remove p d)) = bt_remove d (pl_claims p)" "pl_policy (snd (pool_remove p d)) = pl_policy p"
    "pl_encoded_bytes (snd (pool_remove p d)) = pl_encoded_bytes p - ad_wire_bytes a"
  using assms by (simp_all add: pool_remove_def Let_def)

lemma pool_remove_reserved:
  assumes "map_of (pl_claims p) d = Some a"
  shows "val_or0 unat (map_of (pl_payer_reserved_micro (snd (pool_remove p d))) payer)
       = val_or0 unat (map_of (pl_payer_reserved_micro p) payer) - owed_by payer a"
proof -
  let ?k = "pc_payer (ad_claim a)" and ?m = "pl_payer_reserved_micro p"
  define r :: u128 where "r = saturating_sub (get_or 0 (map_of ?m ?k)) (ucast (pc_amount_micro (ad_claim a)))"
  have u: "unat r = val_or0 unat (map_of ?m ?k) - unat (pc_amount_micro (ad_claim a))"
    by (simp add: r_def unat_saturating_sub get_or_unat)
  have "pl_payer_reserved_micro (snd (pool_remove p d)) = (if r = 0 then bt_remove ?k ?m else bt_insert ?k r ?m)"
    using assms by (simp add: pool_remove_def Let_def r_def)
  then show ?thesis using u by (cases "r = 0") (auto simp: owed_by_def)
qed

lemma pool_remove_claims: "pl_claims (snd (pool_remove p d)) = bt_remove d (pl_claims p)"
proof (cases "map_of (pl_claims p) d")
  case None
  then have "bt_remove d (pl_claims p) = pl_claims p"
    by (auto simp: bt_remove_def map_of_eq_None_iff intro!: filter_True)
  with None show ?thesis by (simp add: pool_remove_def)
qed (rule pool_remove_fields(1))

lemma pool_remove_inv:
  assumes inv: "pool_inv C p"
  shows "pool_inv C (snd (pool_remove p d))"
proof (cases "map_of (pl_claims p) d")
  case None
  with inv show ?thesis by (simp add: pool_remove_def)
next
  case (Some a)
  let ?q = "snd (pool_remove p d)"
  note f = pool_remove_fields [OF Some] and s = pool_remove_slot [OF Some]
  have wf: "bt_wf (pl_claims p)" using inv by (simp add: pool_inv_def)
  have t: "bt_total g (bt_remove d (pl_claims p)) + g a = bt_total g (pl_claims p)" for g
    using bt_total_remove [OF wf, of g d] Some by simp
  have old: "slot p payer n = Some e \<longleftrightarrow>
      (\<exists>a. map_of (pl_claims p) e = Some a \<and> pc_payer (ad_claim a) = payer \<and> pc_sequence (ad_claim a) = n)" for payer n e
    using inv by (simp add: pool_inv_def)
  have uniq: "e = d" if "map_of (pl_claims p) e = Some b" "pc_payer (ad_claim b) = pc_payer (ad_claim a)"
    "pc_sequence (ad_claim b) = pc_sequence (ad_claim a)" for e b
    using old [of "pc_payer (ad_claim a)" "pc_sequence (ad_claim a)" e] old [of "pc_payer (ad_claim a)" "pc_sequence (ad_claim a)" d]
      that Some by auto
  have "slot ?q payer n = Some e \<longleftrightarrow>
      (\<exists>a. map_of (pl_claims ?q) e = Some a \<and> pc_payer (ad_claim a) = payer \<and> pc_sequence (ad_claim a) = n)" for payer n e
  proof
    assume q: "slot ?q payer n = Some e"
    then have n: "\<not> (payer = pc_payer (ad_claim a) \<and> n = pc_sequence (ad_claim a))" "slot p payer n = Some e"
      unfolding s by (auto split: if_splits)
    with old obtain b where b: "map_of (pl_claims p) e = Some b" "pc_payer (ad_claim b) = payer" "pc_sequence (ad_claim b) = n"
      by blast
    with n(1) Some have "e \<noteq> d" by auto
    with b show "\<exists>a. map_of (pl_claims ?q) e = Some a \<and> pc_payer (ad_claim a) = payer \<and> pc_sequence (ad_claim a) = n"
      unfolding f(1) by simp
  next
    assume "\<exists>a. map_of (pl_claims ?q) e = Some a \<and> pc_payer (ad_claim a) = payer \<and> pc_sequence (ad_claim a) = n"
    then obtain b where b: "map_of (pl_claims p) e = Some b" "e \<noteq> d" "pc_payer (ad_claim b) = payer" "pc_sequence (ad_claim b) = n"
      unfolding f(1) by (auto split: if_splits)
    with uniq [OF b(1)] have "\<not> (payer = pc_payer (ad_claim a) \<and> n = pc_sequence (ad_claim a))" by blast
    moreover have "slot p payer n = Some e" using old b by blast
    ultimately show "slot ?q payer n = Some e" unfolding s by simp
  qed
  moreover have "val_or0 unat (map_of (pl_payer_reserved_micro ?q) payer) = bt_total (owed_by payer) (pl_claims ?q)" for payer
    using inv t [of "owed_by payer"] unfolding f(1) pool_remove_reserved [OF Some] by (simp add: pool_inv_def)
  moreover have "pl_encoded_bytes ?q = bt_total ad_wire_bytes (pl_claims ?q)" "pl_encoded_bytes ?q \<le> ap_max_total_bytes (pl_policy ?q)"
    using inv t [of ad_wire_bytes] unfolding f(1,2,3) by (auto simp: pool_inv_def)
  moreover have "length (pl_claims ?q) \<le> ap_max_claims (pl_policy ?q)"
    using inv length_bt_remove [of d "pl_claims p"] unfolding f(1,2) by (simp add: pool_inv_def)
  moreover have "\<forall>e b. map_of (pl_claims ?q) e = Some b \<longrightarrow> e = claim_digest C (ad_claim b)"
    using inv unfolding f(1) by (auto simp: pool_inv_def split: if_splits)
  ultimately show ?thesis using inv wf by (simp add: pool_inv_def f(1,2))
qed

lemma fold_remove_inv: "pool_inv C p \<Longrightarrow> pool_inv C (fold (\<lambda>r p. snd (pool_remove p (fst r))) rs p)"
  by (induction rs arbitrary: p) (simp_all add: pool_remove_inv)

lemma fold_remove_claims:
  "pl_claims (fold (\<lambda>r p. snd (pool_remove p (fst r))) rs p) = filter (\<lambda>e. fst e \<notin> fst ` set rs) (pl_claims p)"
  by (induction rs arbitrary: p) (auto simp: pool_remove_claims bt_remove_def filter_filter intro!: filter_cong)

lemma pool_revalidate_inv: "pool_inv C p \<Longrightarrow> pool_inv C (snd (pool_revalidate C p s now))"
  by (simp add: pool_revalidate_def Let_def fold_remove_inv)

section \<open>Pools that fit a state\<close>

definition valid_at :: "crypto \<Rightarrow> LedgerState \<Rightarrow> PaymentClaim \<Rightarrow> bool" where
  "valid_at C s c = (verify_claim_signature C c = Inr () \<and> pc_network_id c = ls_network_id s
     \<and> is_supported_account C (pc_payee c) \<and> above_mark (accounts s) c)"

lemma validate_claim_valid: "validate_claim C c s now = Inr u \<Longrightarrow> valid_at C s c"
  by (auto simp: validate_claim_def valid_at_def above_mark_def view_accounts not_le split: if_splits option.splits)

definition claims_in :: "PaymentAdmissionPool \<Rightarrow> PaymentClaim list" where
  "claims_in p = map (\<lambda>e. ad_claim (snd e)) (pl_claims p)"

definition fits :: "crypto \<Rightarrow> LedgerState \<Rightarrow> PaymentAdmissionPool \<Rightarrow> bool" where
  "fits C s p = (list_all (valid_at C s) (claims_in p)
     \<and> (\<forall>payer. bt_total (owed_by payer) (pl_claims p) \<le> bal (ls_balances s) payer))"

lemma fits_new: "pool_new policy = Inr p \<Longrightarrow> fits C s p"
  by (auto simp: pool_new_def fits_def claims_in_def split: if_splits)

lemma fits_admit:
  assumes inv: "pool_inv C p" and fit: "fits C s p" and a: "pool_admit C p c s now = Inr (d, p')"
  shows "fits C s p'"
proof -
  note f = pool_admit_Inr [OF a]
  from f(6) obtain w :: bytes and r where w:
      "unat r = val_or0 unat (map_of (pl_payer_reserved_micro p) (pc_payer c)) + unat (pc_amount_micro c)"
      "r \<le> balance s (pc_payer c)"
      "pl_claims p' = bt_insert d \<lparr>ad_claim = c, ad_wire_bytes = length w\<rparr> (pl_claims p)" by auto
  have wf: "bt_wf (pl_claims p)" using inv by (simp add: pool_inv_def)
  have "unat r \<le> bal (ls_balances s) (pc_payer c)" using w(2) by (simp add: word_le_nat_alt unat_balance)
  then have "bt_total (owed_by payer) (pl_claims p') \<le> bal (ls_balances s) payer" for payer
    using fit inv w(1) bt_total_insert_new [OF wf f(3), of "owed_by payer"]
    by (auto simp: fits_def pool_inv_def w(3) owed_by_def)
  moreover have "set (pl_claims p') \<subseteq> insert (d, \<lparr>ad_claim = c, ad_wire_bytes = length w\<rparr>) (set (pl_claims p))"
    unfolding w(3) by (rule set_bt_insert)
  then have "list_all (valid_at C s) (claims_in p')"
    using fit validate_claim_valid [OF f(2)] by (force simp: fits_def claims_in_def list_all_iff)
  ultimately show ?thesis by (simp add: fits_def)
qed

lemma fits_filter:
  assumes "fits C s p" "pl_claims q = filter P (pl_claims p)"
  shows "fits C s q"
proof -
  have "bt_total f (filter P m) \<le> bt_total f m" for f and m :: "(bytes, AdmittedClaim) btree"
    by (induction m) simp_all
  then show ?thesis using assms order_trans by (fastforce simp: fits_def claims_in_def list_all_iff)
qed

lemma loop_grows: "set rem \<subseteq> set (revalidate_loop C s now res rem cs)"
  by (induction C s now res rem cs rule: revalidate_loop.induct) (fastforce split: sum.splits option.splits if_splits)+

definition kept :: "crypto \<Rightarrow> (bytes \<times> AdmissionError) list \<Rightarrow> PaymentClaim list \<Rightarrow> PaymentClaim list" where
  "kept C removals cs = filter (\<lambda>c. claim_digest C c \<notin> fst ` set removals) cs"

lemma loop_kept:
  assumes "\<forall>payer. val_or0 unat (map_of res payer) \<le> bal (ls_balances s) payer"
  shows "list_all (valid_at C s) (kept C (revalidate_loop C s now res rem cs) cs)
    \<and> (\<forall>payer. val_or0 unat (map_of res payer)
         + amount_sum (\<lambda>c. pc_payer c = payer) (kept C (revalidate_loop C s now res rem cs) cs) \<le> bal (ls_balances s) payer)"
  using assms
proof (induction cs arbitrary: res rem)
  case (Cons c cs)
  have drop: ?case if "revalidate_loop C s now res rem (c # cs) = revalidate_loop C s now res (rem @ [(claim_digest C c, e)]) cs" for e
  proof -
    let ?R = "revalidate_loop C s now res (rem @ [(claim_digest C c, e)]) cs"
    have "(claim_digest C c, e) \<in> set ?R" using loop_grows [of "rem @ [(claim_digest C c, e)]" C s now res cs] by auto
    then have "claim_digest C c \<in> fst ` set ?R" by force
    then have "kept C ?R (c # cs) = kept C ?R cs" by (simp add: kept_def)
    with Cons.IH [OF Cons.prems] that show ?thesis by simp
  qed
  show ?case
  proof (cases "validate_claim C c s now")
    case (Inl e)
    then show ?thesis by (intro drop) simp
  next
    case (Inr u)
    show ?thesis
    proof (cases "checked_add (get_or 0 (map_of res (pc_payer c))) (ucast (pc_amount_micro c))")
      case None
      with Inr show ?thesis by (intro drop) simp
    next
      case (Some t)
      then have t: "unat t = val_or0 unat (map_of res (pc_payer c)) + unat (pc_amount_micro c)"
        by (simp add: checked_add_Some get_or_unat)
      show ?thesis
      proof (cases "t \<le> balance s (pc_payer c)")
        case False
        with Inr Some show ?thesis by (intro drop) simp
      next
        case True
        let ?R = "revalidate_loop C s now (bt_insert (pc_payer c) t res) rem cs"
        have R: "revalidate_loop C s now res rem (c # cs) = ?R" using Inr Some True by simp
        have "\<forall>payer. val_or0 unat (map_of (bt_insert (pc_payer c) t res) payer) \<le> bal (ls_balances s) payer"
          using Cons.prems True by (auto simp: word_le_nat_alt unat_balance)
        note IH = Cons.IH [OF this, of rem]
        have k: "kept C ?R (c # cs) = (if claim_digest C c \<in> fst ` set ?R then [] else [c]) @ kept C ?R cs"
          by (simp add: kept_def)
        have "val_or0 unat (map_of res payer) + amount_sum (\<lambda>c. pc_payer c = payer) (kept C ?R (c # cs)) \<le> bal (ls_balances s) payer"
          for payer
          using IH [THEN conjunct2, THEN spec [of _ payer]] t unfolding k
          by (cases "payer = pc_payer c") (auto simp: amount_sum_def)
        moreover have "list_all (valid_at C s) (kept C ?R (c # cs))"
          using IH validate_claim_valid [OF Inr] unfolding k by simp
        ultimately show ?thesis unfolding R by blast
      qed
    qed
  qed
qed (simp add: kept_def amount_sum_def)

lemma amount_sum_mset: "mset cs = mset ds \<Longrightarrow> amount_sum P cs = amount_sum P ds"
proof -
  assume "mset cs = mset ds"
  then have "mset (map (\<lambda>c. unat (pc_amount_micro c)) (filter P cs)) = mset (map (\<lambda>c. unat (pc_amount_micro c)) (filter P ds))"
    by simp
  from arg_cong [OF this, of sum_mset] show ?thesis unfolding amount_sum_def sum_mset_sum_list .
qed

lemma bt_total_owed: "bt_total (owed_by payer) m = amount_sum (\<lambda>c. pc_payer c = payer) (map (\<lambda>e. ad_claim (snd e)) m)"
  by (induction m) (simp_all add: amount_sum_def owed_by_def)

lemma candidates_all:
  "pool_inv C p \<Longrightarrow> candidates p (pool_len p) = map (\<lambda>e. ad_claim (snd e)) (sort_key candidate_key (pl_claims p))"
  by (simp add: candidates_def pool_len_def pool_inv_def)

lemma fits_revalidate:
  assumes inv: "pool_inv C p"
  shows "fits C s (snd (pool_revalidate C p s now))"
proof -
  let ?cs = "candidates p (pool_len p)"
  let ?L = "revalidate_loop C s now [] [] ?cs"
  let ?q = "snd (pool_revalidate C p s now)"
  have q: "pl_claims ?q = filter (\<lambda>e. fst e \<notin> fst ` set ?L) (pl_claims p)"
    by (simp add: pool_revalidate_def Let_def fold_remove_claims)
  have dig: "fst e = claim_digest C (ad_claim (snd e))" if "e \<in> set (pl_claims p)" for e
  proof -
    have "bt_wf (pl_claims p)" using inv by (simp add: pool_inv_def)
    then have "map_of (pl_claims p) (fst e) = Some (snd e)" using that bt_wf_distinct by (intro map_of_is_SomeI) auto
    with inv show ?thesis by (simp add: pool_inv_def)
  qed
  have "claims_in ?q = kept C ?L (claims_in p)"
    unfolding claims_in_def q kept_def filter_map comp_def by (intro arg_cong [where f = "map _"] filter_cong refl) (simp add: dig)
  moreover have ms: "mset ?cs = mset (claims_in p)" by (simp add: candidates_all [OF inv] claims_in_def)
  then have "mset (kept C ?L (claims_in p)) = mset (kept C ?L ?cs)" by (simp add: kept_def)
  ultimately have m: "mset (claims_in ?q) = mset (kept C ?L ?cs)" by simp
  have k: "list_all (valid_at C s) (kept C ?L ?cs)"
      "amount_sum (\<lambda>c. pc_payer c = payer) (kept C ?L ?cs) \<le> bal (ls_balances s) payer" for payer
    using loop_kept [of "[]" s C now "[]" ?cs] by simp_all
  have "list_all (valid_at C s) (claims_in ?q)"
    using k(1) mset_eq_setD [OF m] by (simp add: list_all_iff)
  moreover have "bt_total (owed_by payer) (pl_claims ?q) \<le> bal (ls_balances s) payer" for payer
    using k(2) [of payer] amount_sum_mset [OF m] by (simp add: bt_total_owed claims_in_def)
  ultimately show ?thesis by (simp add: fits_def)
qed

text \<open>
  The pools a node has while its finalized state is \<open>s\<close>: it was revalidated when the state became
  \<open>s\<close> (or is new), and since then claims were admitted against \<open>s\<close> and removed.
\<close>

inductive pool_at :: "crypto \<Rightarrow> LedgerState \<Rightarrow> PaymentAdmissionPool \<Rightarrow> bool" for C where
  new: "pool_new policy = Inr p \<Longrightarrow> pool_at C s p"
| admit: "pool_at C s p \<Longrightarrow> pool_admit C p c s now = Inr (d, p') \<Longrightarrow> pool_at C s p'"
| remove: "pool_at C s p \<Longrightarrow> pool_at C s (snd (pool_remove p d))"
| revalidate: "pool_at C s p \<Longrightarrow> pool_at C s' (snd (pool_revalidate C p s' now))"

lemma pool_at_inv: "pool_at C s p \<Longrightarrow> pool_inv C p \<and> fits C s p"
proof (induction rule: pool_at.induct)
  case (remove s p d)
  then show ?case using pool_remove_inv fits_filter [of C s p] pool_remove_claims [of p d] by (simp add: bt_remove_def)
qed (auto intro: pool_new_inv fits_new pool_admit_inv fits_admit pool_revalidate_inv fits_revalidate)

section \<open>Candidates pay\<close>

lemma all_pay:
  assumes "\<forall>c \<in> set cs. verify_claim_signature C c = Inr () \<and> pc_network_id c = network \<and> is_supported_account C (pc_payee c)"
    and "sorted_wrt slot_order cs" "\<forall>c \<in> set cs. above_mark A c"
    and "\<forall>payer. amount_sum (\<lambda>c. pc_payer c = payer) cs \<le> ac_bal A payer"
  shows "paid_claims C network A cs = cs"
  using assms
proof (induction cs arbitrary: A)
  case (Cons c cs)
  let ?B = "settle C network c A"
  have "unat (pc_amount_micro c) \<le> ac_bal A (pc_payer c)"
    using Cons.prems(4) [THEN spec [of _ "pc_payer c"]] by (simp add: amount_sum_def)
  then have "\<not> short_of_funds A c" by (simp add: short_of_funds_def)
  moreover have "verify_claim_signature C c = Inr ()" "pc_network_id c = network" "is_supported_account C (pc_payee c)"
    "above_mark A c" using Cons.prems(1,3) by simp_all
  moreover from this(4) have "\<not> stale A c" by (auto simp: stale_def above_mark_def split: option.splits)
  ultimately have j: "judge C network A c = Paid" by (simp add: judge_def)
  have "above_mark ?B b" if "b \<in> set cs" for b
  proof -
    have "slot_order c b" "above_mark A b" using Cons.prems(2,3) that by simp_all
    with j show ?thesis by (simp add: settle_def above_mark_def slot_order_def Let_def)
  qed
  moreover have "amount_sum (\<lambda>c. pc_payer c = payer) cs \<le> ac_bal ?B payer" for payer
    using Cons.prems(4) [THEN spec [of _ payer]] settle_balance [of C network c A payer]
    unfolding j by (cases "pc_payer c = payer"; cases "pc_payee c = payer") (simp_all add: amount_sum_def)
  ultimately have "paid_claims C network ?B cs = cs" using Cons.prems(1,2) by (intro Cons.IH) (blast | simp)+
  with j show ?case by simp
qed simp

lemma candidates_sorted:
  assumes inv: "pool_inv C p"
  shows "sorted_wrt slot_order (candidates p limit)"
proof -
  let ?xs = "sort_key candidate_key (pl_claims p)"
  have wf: "bt_wf (pl_claims p)" using inv by (simp add: pool_inv_def)
  have d: "distinct (map fst ?xs)"
    using bt_wf_distinct [OF wf] by (metis (no_types) distinct_map distinct_sort inj_on_subset set_sort subset_refl)
  have look: "map_of (pl_claims p) (fst e) = Some (snd e)" if "e \<in> set ?xs" for e
    using that bt_wf_distinct [OF wf] by (intro map_of_is_SomeI) auto
  have ord: "slot_order (ad_claim (snd a)) (ad_claim (snd b))"
    if ab: "a \<in> set ?xs" "b \<in> set ?xs" "candidate_key a \<le> candidate_key b" "fst a \<noteq> fst b" for a b
  proof -
    have "slot p (pc_payer (ad_claim (snd e))) (pc_sequence (ad_claim (snd e))) = Some (fst e)" if "e \<in> set ?xs" for e
      using inv look [OF that] unfolding pool_inv_def by blast
    from this [OF ab(1)] this [OF ab(2)] ab(4)
    have "pc_payer (ad_claim (snd a)) = pc_payer (ad_claim (snd b)) \<Longrightarrow> pc_sequence (ad_claim (snd a)) \<noteq> pc_sequence (ad_claim (snd b))"
      by force
    with ab(3) show ?thesis by (auto simp: slot_order_def candidate_key_def less_le)
  qed
  have "sorted_wrt (\<lambda>a b. candidate_key a \<le> candidate_key b) ?xs"
    using sorted_sort_key [of candidate_key "pl_claims p"] by (simp add: sorted_map)
  moreover have "fst (?xs ! i) \<noteq> fst (?xs ! j)" if "i < j" "j < length ?xs" for i j
    using d that nth_eq_iff_index_eq [of "map fst ?xs" i j] by simp
  ultimately have "sorted_wrt (\<lambda>a b. slot_order (ad_claim (snd a)) (ad_claim (snd b))) ?xs"
    unfolding sorted_wrt_iff_nth_less by (meson ord nth_mem less_trans)
  then show ?thesis unfolding candidates_def by (intro sorted_wrt_take) (simp add: sorted_wrt_map)
qed

lemma candidates_facts:
  assumes "pool_at C s p"
  shows "paid_claims C (ls_network_id s) (accounts s) (candidates p limit) = candidates p limit"
    "length (candidates p limit) \<le> MAX_CLAIMS_PER_BLOCK"
proof -
  note inv = pool_at_inv [OF assms, THEN conjunct1] and fit = pool_at_inv [OF assms, THEN conjunct2]
  let ?all = "map (\<lambda>e. ad_claim (snd e)) (sort_key candidate_key (pl_claims p))"
  have m: "mset ?all = mset (claims_in p)" by (simp add: claims_in_def)
  have c: "candidates p limit = take (min limit MAX_CLAIMS_PER_BLOCK) ?all" by (simp add: candidates_def)
  then have sub: "set (candidates p limit) \<subseteq> set (claims_in p)" using m by (metis mset_eq_setD set_take_subset)
  then have v: "\<forall>c \<in> set (candidates p limit). valid_at C s c" using fit by (auto simp: fits_def list_all_iff)
  have "amount_sum P (take n xs) \<le> amount_sum P xs" for P n and xs :: "PaymentClaim list"
    by (subst (2) append_take_drop_id [symmetric, of _ n]) (simp add: amount_sum_def del: append_take_drop_id)
  then have "amount_sum (\<lambda>c. pc_payer c = payer) (candidates p limit) \<le> amount_sum (\<lambda>c. pc_payer c = payer) (claims_in p)" for payer
    unfolding c using amount_sum_mset [OF m] by metis
  then have "amount_sum (\<lambda>c. pc_payer c = payer) (candidates p limit) \<le> ac_bal (accounts s) payer" for payer
    using fit order_trans by (fastforce simp: fits_def bt_total_owed claims_in_def accounts_def)
  then show "paid_claims C (ls_network_id s) (accounts s) (candidates p limit) = candidates p limit"
    using v candidates_sorted [OF inv] by (intro all_pay) (auto simp: valid_at_def)
  show "length (candidates p limit) \<le> MAX_CLAIMS_PER_BLOCK" by (simp add: candidates_def)
qed

section \<open>A concrete pool\<close>

definition demo_pool0 :: PaymentAdmissionPool where
  "demo_pool0 = \<lparr>pl_policy = policy_default, pl_claims = [], pl_payer_slots = [], pl_payer_reserved_micro = [], pl_encoded_bytes = 0\<rparr>"

lemma demo_pool0_new: "pool_new policy_default = Inr demo_pool0"
  by (simp add: pool_new_def policy_default_def demo_pool0_def MAX_CLAIMS_PER_BLOCK_def)

lemma verified_signature_length: "verify_claim_signature C c = Inr () \<Longrightarrow> length (sig_bytes (pc_signature c)) = 64"
  by (auto simp: verify_claim_signature_def vk_from_suite_bytes_def DEFAULT_SUITE_def vk_verify_def split: if_splits)

lemma demo_claim_wire: "\<exists>w. claim_to_wire_bytes (demo_claim 30 1) = Inr w \<and> length w \<le> 1000"
proof -
  have "length (sig_bytes (pc_signature (demo_claim 30 1))) = 64"
    by (rule verified_signature_length [of toy_crypto]) (simp add: demo_claim_ok)
  then show ?thesis
    by (simp add: claim_to_wire_bytes_def demo_claim_ok MAX_CLAIM_FIELD_BYTES_def MAX_PAYMENT_CLAIM_BYTES_def put_bytes_def
        CLAIM_WIRE_DOMAIN_def Let_def)
qed

lemma demo_claim_valid: "validate_claim toy_crypto (demo_claim 30 1) demo_state0 0 = Inr ()"
proof -
  have "pc_valid_until_ms (demo_claim 30 1) = 10"
    by (simp add: demo_claim_def sign_claim_def sign_claim_for_network_def DEFAULT_SUITE_def from_seed_def sk_sign_def Let_def)
  then show ?thesis
    by (simp add: validate_claim_def demo_claim_ok toy_supported) (simp add: demo_state0_def state_view_def)
qed

lemma demo_admit: "\<exists>d p. pool_admit toy_crypto demo_pool0 (demo_claim 30 1) demo_state0 0 = Inr (d, p)
    \<and> claims_in p = [demo_claim 30 1]"
proof -
  obtain w where w: "claim_to_wire_bytes (demo_claim 30 1) = Inr w" "length w \<le> 1000" using demo_claim_wire by blast
  have b: "balance demo_state0 (demo_key 1) = 50" by (simp add: balance_def demo_state0_def demo_alloc_def)
  show ?thesis using w
    by (simp add: pool_admit_def demo_claim_valid Let_def demo_pool0_def policy_default_def slots_of_def demo_claim_ok b
        checked_add_def claims_in_def)
qed

section \<open>Property\<close>

text \<open>Property (C9): what the pool proposes executes. Take any pool a node holds while its finalized
  state is that of a chain: new or revalidated at that state, then fed with admissions and removals.
  The block of its first candidates, for any limit, applies to that state, and every one of the
  candidates pays, none is refused: each account ends with what it had, plus all that the candidates
  pay to it, minus all that they pay from it.\<close>

theorem admitted_candidates_execute:
  assumes "digests_ok C" "chain_reach C ch" "pool_at C (lc_state ch) p"
  shows "\<exists>s'. apply_block C (lc_state ch) (body_new (candidates p limit)) = Inr s'
    \<and> paid_claims C (ls_network_id (lc_state ch)) (accounts (lc_state ch)) (candidates p limit) = candidates p limit
    \<and> (\<forall>a. unat (balance s' a) + (\<Sum>c\<leftarrow>filter (\<lambda>c. pc_payer c = a) (candidates p limit). unat (pc_amount_micro c))
         = unat (balance (lc_state ch) a) + (\<Sum>c\<leftarrow>filter (\<lambda>c. pc_payee c = a) (candidates p limit). unat (pc_amount_micro c)))"
proof -
  let ?n = "ls_network_id (lc_state ch)" and ?A = "accounts (lc_state ch)" and ?cs = "candidates p limit"
  note f = candidates_facts [OF assms(3), of limit]
  from claims_block [OF assms(1) chain_reach_wf [OF assms(1,2)] f(2)] obtain s' where
    s: "apply_block C (lc_state ch) (body_new ?cs) = Inr s'" "accounts s' = fold (settle C ?n) ?cs ?A" by blast
  have "unat (balance s a) = ac_bal (accounts s) a" for s a by (simp add: unat_balance accounts_def)
  with s f(1) paid_claims_balance [of C ?n ?cs ?A] show ?thesis
    unfolding f(1) amount_sum_def by (intro exI [of _ s']) simp
qed

theorem admitted_candidates_execute_witness:
  "\<exists>p. pool_at toy_crypto (lc_state demo_chain0) p \<and> candidates p 7 = [demo_claim 30 1]
     \<and> is_ok (apply_block toy_crypto (lc_state demo_chain0) (body_new (candidates p 7)))"
proof -
  have l: "lc_state demo_chain0 = demo_state0" by (simp add: demo_chain0_def chain_of_state_def)
  from demo_admit obtain d p where p: "pool_admit toy_crypto demo_pool0 (demo_claim 30 1) demo_state0 0 = Inr (d, p)"
    "claims_in p = [demo_claim 30 1]" by blast
  have at: "pool_at toy_crypto (lc_state demo_chain0) p"
    unfolding l by (rule pool_at.admit [OF pool_at.new [OF demo_pool0_new] p(1)])
  have "candidates p 7 = [demo_claim 30 1]"
    using p(2) by (auto simp: claims_in_def candidates_def MAX_CLAIMS_PER_BLOCK_def)
  then show ?thesis
    using admitted_candidates_execute [OF toy_crypto_ok(1) demo_chain0_reach at, of 7] at by (auto simp: is_ok_iff)
qed

end
