(* ===== verification/Spec2Isabelle.thy ===== *)
theory Spec2Isabelle
  imports Agreement CreditProps Checkpoint Admission
begin

text \<open>
  A verification library for the core of Mininet: self-certifying identity (\<open>src/crates/did-mini\<close>
  over \<open>mini-crypto\<close>), finality (\<open>mini-chain\<close>), Byzantine agreement (\<open>mini-consensus\<close>), money
  (\<open>mini-economy\<close>), payments (\<open>mini-settlement\<close>) and the ledger that finalized blocks produce
  (\<open>mini-execution\<close>). The definitions translate the Rust sources function by function; the theorems
  are about those definitions.

  \<^bold>\<open>How the parts interact.\<close> A controller signs key events into a log; the log replays to a key
  state. A validator is the identifier of such a log; a vote is valid when the key state of its
  root's log verifies its signatures. A quorum certificate is a set of valid precommits. The round
  machine collects proposals and votes and decides with such a certificate. A wallet signs payment
  claims, offline coupons included; a node admits claims to a pool and proposes candidates from it.
  Execution applies a block only behind a verified certificate: it settles the claims of the body,
  applies its shielded spends and advances the monetary ledger by its epoch, and the header's state
  root must be the commitment of the result. Wallets read the outcome of a claim from that state.
  The theorem of this theory, \<open>agreed_state\<close>, runs through all of it.

  \<^bold>\<open>Conventions.\<close> A struct is a record, an enum a datatype, a handler one definition that returns the
  new state. \<open>u8\<close> to \<open>u128\<close> are words of that width; \<open>i64\<close> is \<open>int\<close> (a valid round is only compared
  and truncated); \<open>usize\<close> is \<open>nat\<close>. The successor of a round wraps at 32 bits, as in a release build. Bytes
  and strings are lists of \<open>u8\<close>, with UTF-8 validity where the code checks it. \<open>Result\<close> is a sum type
  with the crate's error type on the left, and panics are a constructor of their own where the code
  can reach one. A \<open>HashMap\<close> is an association list; where the code iterates over one, the order is a
  parameter. Third-party primitives (BLAKE3, SHA-256, base58, Ed25519, ML-DSA) are the fields of the
  record \<open>crypto\<close>, an argument of every definition that uses them; what a theorem needs of them is a
  hypothesis, and instead of assuming that BLAKE3 has no collisions, theorems conclude with the
  colliding pair. \<open>toy_crypto\<close> shows that the hypotheses can hold.

  \<^bold>\<open>Theories.\<close>
  \<^item> \<open>Prelude\<close>: results, big-endian integers, byte readers, the codec interfaces (\<open>wire_codec\<close>,
    \<open>canonical_codec\<close>), UTF-8, sorted maps. \<open>Checked\<close>: checked and saturating arithmetic, failing
    sums, prefix-free encodings (\<open>prefix_code\<close>).
  \<^item> \<open>Crypto\<close>: \<open>mini-crypto\<close> (suite tags, multihashes, uvarints, multibase text, keys and signatures).
  \<^item> \<open>KeyEvent\<close> (\<open>event.rs\<close>, \<open>codec.rs\<close>, \<open>limits.rs\<close>, \<open>delegation.rs\<close>), \<open>Kel\<close> (\<open>kel.rs\<close>,
    \<open>freshness.rs\<close>) and \<open>Controller\<close> (\<open>controller.rs\<close>): what a controller does always verifies, logs
    commit to their history, rotation is possible only with the committed keys, delegation is
    exactly what the seals say.
  \<^item> \<open>Chain\<close>: \<open>mini-chain\<close> (headers, validator sets, votes, certificates, equivocation proofs). Two
    conflicting certificates convict more than a third of the validators.
  \<^item> \<open>Round\<close> (\<open>round.rs\<close>, \<open>evidence.rs\<close>, \<open>consequence.rs\<close>), \<open>RoundInv\<close> (the interfaces
    \<open>rule_invariant\<close> and \<open>handler_invariant\<close>, through which an invariant is proved rule by rule),
    \<open>Tally\<close> (what is counted was verified, nobody votes twice), \<open>Fixpoint\<close> (evaluation reaches a
    fixed point and misses no decision), \<open>Agreement\<close> (a network of machines with at most a third
    faulty never decides two blocks at a height, as long as the valid rounds of proposals fit in 32
    bits, which the code does not check: beyond, an old quorum unlocks a machine).
  \<^item> \<open>Economy\<close> (\<open>amount.rs\<close>, \<open>issuance.rs\<close>, \<open>ledger.rs\<close>, \<open>snapshot.rs\<close>), \<open>EconomyProps\<close> (caps,
    exact proration and vesting, supply accounting, snapshots), \<open>EconomyWire\<close> (\<open>cadence.rs\<close>,
    \<open>genesis.rs\<close>, \<open>scalable_epoch_wire.rs\<close>, commitments).
  \<^item> \<open>CreditPermit\<close> (\<open>mini-settlement\<close>: \<open>credit_permit.rs\<close>, \<open>credit_journal.rs\<close>), \<open>Credit\<close>
    (\<open>mini-economy\<close>: \<open>credit.rs\<close>) and \<open>CreditProps\<close>: a wallet never signs beyond its permit, the
    credit ledger accounts exactly, splits a release exactly, and accepts what an honest wallet signed
    while it has room.
  \<^item> \<open>Settlement\<close> (\<open>mini-settlement\<close>: claims of both versions, ledger views, watchers,
    reconciliation; the interfaces \<open>claim_watcher\<close> and \<open>canonical_ledger\<close>).
  \<^item> \<open>Execution\<close> (\<open>mini-execution\<close>: \<open>nullifier.rs\<close>, \<open>shielded.rs\<close>, \<open>body.rs\<close>, \<open>state.rs\<close>,
    \<open>chain.rs\<close>) and \<open>ExecutionProps\<close>: the state of every chain is well formed and conserves supply,
    claims refine an abstract account ledger, balances are explained by the claims that paid, no slot
    has two winners, a final answer of reconciliation does not last (the two ways a paid claim comes to
    be reported rejected), shielded spends are atomic. \<open>StateRoot\<close>: the state root binds the state.
    \<open>Snapshot\<close> (\<open>snapshot.rs\<close>): the snapshot codec accepts exactly well-formed states. \<open>Checkpoint\<close>:
    a checkpoint restores the chain, because the history of shielded claims always replays; only a
    state whose total supply overflows is refused.
    \<open>Admission\<close> (\<open>admission.rs\<close>): what the pool proposes executes.

  \<^bold>\<open>Loops and bounds.\<close> Every loop is structural recursion or has a termination proof (Euclid's
  algorithm, the uvarint reader, UTF-8, the evaluation loop of a round, whose measure counts the
  rules that have not fired). No definition uses fuel.

  \<^bold>\<open>Not modelled.\<close> Sockets, files, encrypted channels and the event loops of the node; user
  interfaces and installers; the shielded-payment, proof-of-replication and threshold-custody
  crates, whose content is arithmetic of third-party curve libraries; key generation from system
  entropy (fresh keys are arguments); the verifier of shielded claims (a trait object of
  \<open>mini-execution\<close>, here a record of functions); the policy, social, search and forge layers, which sit above
  this core and are not needed by it.
\<close>

text \<open>
  Property (C1): nodes that decide stand on the same ledger. Take a network in which at most a third of
  the validators are faulty, and two nodes that decided at its height, under any schedule of messages
  and timeouts in which no delivered proposal carried the nil identifier or a valid round of \<open>2 ^ 32\<close>
  or more (a bound the code does not enforce). Let each come to a chain with the certificate it
  decided, either by executing the certified block, on top of whatever chain it had executed or
  restored before, or by restoring from snapshot bytes, with any validator sets, oracles and
  verifiers. Then the two chains are equal: same height, same tip, same balances, marks, refusals,
  key images, shielded and monetary ledger. Otherwise the two headers or the committed bytes of the
  two states exhibit a BLAKE3 collision. The sizes assumed are those of the types: digests of 32
  bytes, and maps of fewer than \<open>2 ^ 64\<close> rows.
\<close>

theorem agreed_state:
  assumes "network_ok N" "sys_reach C N S" "proposals_bounded (sy_proposed S)"
    and "(x, qc) \<in> sy_decided S" "(y, qc') \<in> sy_decided S"
    and "digests_ok C" "stands_on C hd1 qc ch" "stands_on C hd2 qc' dh"
    and "header_wf hd1" "header_wf hd2" "state_sized (lc_state ch)" "state_sized (lc_state dh)"
  shows "ch = dh \<or> collides C (header_canonical_bytes hd1) (header_canonical_bytes hd2)
    \<or> root_collision C (lc_state ch) (lc_state dh)"
proof -
  have "header_hash C hd1 = header_hash C hd2"
    using decisions_agree [OF assms(1-5)] stands_onD [OF assms(6,7)] stands_onD [OF assms(6,8)] by simp
  then show ?thesis by (rule same_header_same_chain [OF assms(6-10) _ assms(11,12)])
qed

lemma demo_spend_hash: "header_hash toy_crypto demo_spend_header = demo_block"
  by (simp add: header_hash_def header_canonical_bytes_def demo_spend_header_def demo_block_def toy_crypto_def
      toy_digest_def)

theorem agreed_state_witness:
  "\<exists>S b ch dh. network_ok demo_network \<and> sys_reach toy_crypto demo_network S \<and> proposals_bounded (sy_proposed S)
   \<and> (demo_scid, demo_qc demo_block) \<in> sy_decided S
   \<and> apply_finalized_block_with_verifier toy_crypto (chain_of_state demo_shielded0) demo_spend_header demo_private_body
       (demo_qc demo_block) demo_vs demo_oracle (Some (evidence_verifier demo_evidence))
     = Inr (state_commitment toy_crypto demo_shielded1, ch)
   \<and> from_snapshot_bytes toy_crypto b = Inr demo_shielded1
   \<and> from_finalized_snapshot_with_verifier toy_crypto demo_spend_header demo_shielded1 (demo_qc demo_block) demo_vs demo_oracle
       MININET_NETWORK_ID (shielded_genesis_commitment toy_crypto demo_shielded0) (Some (evidence_verifier demo_evidence))
     = Inr dh
   \<and> (ch = dh \<or> collides toy_crypto (header_canonical_bytes demo_spend_header) (header_canonical_bytes demo_spend_header)
      \<or> root_collision toy_crypto (lc_state ch) (lc_state dh))"
proof -
  obtain S where S: "sys_reach toy_crypto demo_network S" "proposals_bounded (sy_proposed S)"
    "(demo_scid, demo_qc demo_block) \<in> sy_decided S" using demo_reach demo_proposal_bounded by metis
  note step = demo_spend_step [unfolded demo_spend_hash]
  obtain b where b: "from_snapshot_bytes toy_crypto b = Inr demo_shielded1"
    "from_finalized_snapshot_with_verifier toy_crypto demo_spend_header demo_shielded1 (demo_qc demo_block) demo_vs demo_oracle
       MININET_NETWORK_ID (shielded_genesis_commitment toy_crypto demo_shielded0) (Some (evidence_verifier demo_evidence))
     = Inr demo_spend_chain"
    using demo_spend_restores [unfolded demo_spend_hash] by blast
  have "stands_on toy_crypto demo_spend_header (demo_qc demo_block) demo_spend_chain"
    by (rule executed [OF from_genesis _ step])
       (use verified_chain_reach [OF demo_shielded_start] in
         \<open>simp_all add: body_typed_def demo_private_body_def with_nullifiers_def body_new_def\<close>)
  moreover have "stands_on toy_crypto demo_spend_header (demo_qc demo_block) demo_spend_chain"
    by (rule restored [OF b])
  moreover have "header_wf demo_spend_header"
    using toy_crypto_ok(1) by (simp add: header_wf_def demo_spend_header_def state_commitment_def body_hash_def digests_ok_def)
  moreover have "state_sized (lc_state demo_spend_chain)"
    by (simp add: state_sized_def demo_spend_chain_def demo_shielded1_def demo_shielded0_def ml_new_def)
  ultimately show ?thesis
    using agreed_state [OF demo_network_ok S S(3) toy_crypto_ok(1)] demo_network_ok S step b by blast
qed

end
